(* ===== verification/Prelude.thy ===== *)
theory Prelude
  imports Main "HOL-Library.Word"
begin

text \<open>
  Shared ground of the development: the machine integers of the code, the faults a C++
  statement can end in, the result type that carries them, bounds-checked list access, and
  the lemmas about words, windows of ring-buffer tickets and lists that the components share.
  The locale \<open>invariant_system\<close> is the one induction over reachable states that the
  concurrent components use.
\<close>

section \<open>Machine integers\<close>

type_synonym u8 = "8 word"
type_synonym u32 = "32 word"
type_synonym u64 = "64 word"

section \<open>Faults and results\<close>

text \<open>
  How a call can fail to return normally: dereferencing a null or dangling pointer, leaving an
  array, dividing by zero, \<open>assert(0)\<close>, \<open>exit(0)\<close>, and \<open>Blocked\<close>: the call waits (spins or
  sleeps) for a condition that only another thread can establish.
\<close>

datatype fault = NullDeref | OutOfBounds | DivByZero | AssertFail | Exited | Blocked

type_synonym 'a res = "fault + 'a"

named_theorems res_simps \<open>evaluation rules of the result type\<close>

definition rbind :: "'a res \<Rightarrow> ('a \<Rightarrow> 'b res) \<Rightarrow> 'b res" where
  "rbind m f = (case m of Inl e \<Rightarrow> Inl e | Inr x \<Rightarrow> f x)"

lemma rbind_simps [simp, res_simps]:
  "rbind (Inl e) f = Inl e"
  "rbind (Inr x) f = f x"
  by (simp_all add: rbind_def)

lemma rbind_Inr_iff: "rbind m f = Inr y \<longleftrightarrow> (\<exists>x. m = Inr x \<and> f x = Inr y)"
  by (cases m) simp_all

lemma rbind_cong [fundef_cong]:
  "m = m' \<Longrightarrow> (\<And>x. m' = Inr x \<Longrightarrow> f x = g x) \<Longrightarrow> rbind m f = rbind m' g"
  by (cases m') simp_all

text \<open>A case distinction on a result is monotone, for loops that may not return.\<close>

lemma case_sum_mono [partial_function_mono]:
  assumes "\<And>a. mono_option (\<lambda>f. F a f)" "\<And>b. mono_option (\<lambda>f. G b f)"
  shows "mono_option (\<lambda>f. case s of Inl a \<Rightarrow> F a f | Inr b \<Rightarrow> G b f)"
  using assms by (cases s) auto

text \<open>Reading through a pointer: the null pointer is \<open>None\<close>, the store a partial map.\<close>

definition deref :: "('a \<Rightarrow> 'b option) \<Rightarrow> 'a option \<Rightarrow> 'b res" where
  "deref h p = (case p of None \<Rightarrow> Inl NullDeref
     | Some a \<Rightarrow> (case h a of None \<Rightarrow> Inl NullDeref | Some x \<Rightarrow> Inr x))"

lemma deref_simps [simp, res_simps]:
  "deref h None = Inl NullDeref"
  "h a = Some x \<Longrightarrow> deref h (Some a) = Inr x"
  "h a = None \<Longrightarrow> deref h (Some a) = Inl NullDeref"
  by (simp_all add: deref_def)

lemma deref_Inr_iff: "deref h p = Inr x \<longleftrightarrow> (\<exists>a. p = Some a \<and> h a = Some x)"
  by (auto simp: deref_def split: option.splits)

text \<open>Reading an array element.\<close>

definition at_index :: "'a list \<Rightarrow> nat \<Rightarrow> 'a res" where
  "at_index xs i = (if i < length xs then Inr (xs ! i) else Inl OutOfBounds)"

lemma at_index_in [simp, res_simps]: "i < length xs \<Longrightarrow> at_index xs i = Inr (xs ! i)"
  by (simp add: at_index_def)

lemma at_index_out [simp, res_simps]: "\<not> i < length xs \<Longrightarrow> at_index xs i = Inl OutOfBounds"
  by (simp add: at_index_def)

lemma at_index_Inr_iff: "at_index xs i = Inr x \<longleftrightarrow> i < length xs \<and> x = xs ! i"
  by (auto simp: at_index_def)

section \<open>Words\<close>

lemma unat_add_no_wrap:
  fixes a b :: "'l::len word"
  assumes "unat a + unat b < 2 ^ LENGTH('l)"
  shows "unat (a + b) = unat a + unat b"
  using assms by (simp add: unat_word_ariths)

lemma unat_Suc_no_wrap:
  fixes a :: "'l::len word"
  assumes "unat a + 1 < 2 ^ LENGTH('l)"
  shows "unat (a + 1) = Suc (unat a)"
proof -
  have "unat (1 :: 'l word) = 1" by simp
  with assms show ?thesis by (subst unat_add_no_wrap) auto
qed

lemma unat_diff_no_wrap: "unat (b :: 'l::len word) \<le> unat a \<Longrightarrow> unat (a - b) = unat a - unat b"
  by (simp add: unat_sub word_le_nat_alt)

lemma unat_less_pow: "unat (a :: 'l::len word) < 2 ^ LENGTH('l)"
  by (rule unsigned_less)

lemma unat_u32_less: "unat (a :: u32) < 4294967296"
  using unat_less_pow [of a] by simp

lemma unat_u64_less: "unat (a :: u64) < 18446744073709551616"
  using unat_less_pow [of a] by simp

lemma unat_of_nat_u64: "k < 18446744073709551616 \<Longrightarrow> unat (of_nat k :: u64) = k"
  by (simp add: unat_of_nat take_bit_eq_mod)

lemma unat_of_nat_u32: "k < 4294967296 \<Longrightarrow> unat (of_nat k :: u32) = k"
  by (simp add: unat_of_nat take_bit_eq_mod)

lemma unat_ucast_u32_u64: "unat (ucast (a :: u32) :: u64) = unat a"
  using unat_u32_less [of a] by (simp add: unsigned_ucast_eq take_bit_nat_eq_self)

lemma unat_Suc_u32:
  assumes "l \<noteq> (- 1 :: u32)"
  shows "unat (l + 1) = Suc (unat l)"
proof -
  have "unat (- 1 :: u32) = 4294967295" by (simp add: unsigned_minus_1_eq_mask mask_eq_exp_minus_1)
  then have "unat l \<noteq> 4294967295" using assms by (metis word_unat_eq_iff)
  then have "unat l + 1 < 2 ^ LENGTH(32)" using unat_u32_less [of l] by simp
  then show ?thesis by (rule unat_Suc_no_wrap)
qed

section \<open>Windows of consecutive tickets\<close>

text \<open>Among \<open>n\<close> consecutive tickets no two share a slot.\<close>

lemma mod_window_inj:
  fixes k k' :: nat
  assumes "a < k" "k \<le> a + n" "a < k'" "k' \<le> a + n" "k mod n = k' mod n"
  shows "k = k'"
proof (rule ccontr)
  assume "k \<noteq> k'"
  then consider "k < k'" | "k' < k" by linarith
  then show False
  proof cases
    case 1
    with assms have "n dvd k' - k" by (metis mod_eq_dvd_iff_nat nat_less_le)
    with 1 have "n \<le> k' - k" by (simp add: dvd_imp_le)
    with assms 1 show False by linarith
  next
    case 2
    with assms have "n dvd k - k'" by (metis mod_eq_dvd_iff_nat nat_less_le)
    with 2 have "n \<le> k - k'" by (simp add: dvd_imp_le)
    with assms 2 show False by linarith
  qed
qed

lemma mod_window_neq:
  fixes k k' :: nat
  assumes "a < k" "k \<le> a + n" "a < k'" "k' \<le> a + n" "k \<noteq> k'"
  shows "k mod n \<noteq> k' mod n"
  using assms mod_window_inj by blast

section \<open>Lists\<close>

lemma distinct_bounded_length:
  assumes "distinct xs" "\<forall>x \<in> set xs. x < (n::nat)" "i < n" "i \<notin> set xs"
  shows "length xs < n"
proof -
  have "set (i # xs) \<subseteq> {..<n}" using assms by auto
  then have "card (set (i # xs)) \<le> card {..<n}" by (rule card_mono [rotated]) simp
  moreover have "card (set (i # xs)) = Suc (length xs)"
    using assms by (simp add: distinct_card)
  ultimately show ?thesis by simp
qed

section \<open>Counted loops\<close>

text \<open>\<^verbatim>\<open>for (i = 0; i < n; i++)\<close> over a state.\<close>

primrec for_upto :: "(nat \<Rightarrow> 's \<Rightarrow> 's res) \<Rightarrow> nat \<Rightarrow> 's \<Rightarrow> 's res" where
  "for_upto f 0 s = Inr s"
| "for_upto f (Suc n) s = rbind (for_upto f n s) (f n)"

lemma for_upto_inv:
  assumes "P 0 s" "\<And>i t. i < n \<Longrightarrow> P i t \<Longrightarrow> \<exists>t'. f i t = Inr t' \<and> P (Suc i) t'"
  shows "\<exists>t. for_upto f n s = Inr t \<and> P n t"
  using assms
proof (induction n)
  case (Suc n)
  then obtain t where "for_upto f n s = Inr t" "P n t" by fastforce
  with Suc.prems(2) [of n t] show ?case by auto
qed simp

lemma for_upto_eq:
  assumes "F 0 = s" "\<And>i. i < n \<Longrightarrow> f i (F i) = Inr (F (Suc i))"
  shows "for_upto f n s = Inr (F n)"
  using for_upto_inv [of "\<lambda>i t. t = F i" s n f] assms by fastforce

text \<open>What a loop makes of an array when its body updates the element at its index.\<close>

definition upd_upto :: "(nat \<Rightarrow> 'a \<Rightarrow> 'a) \<Rightarrow> nat \<Rightarrow> 'a list \<Rightarrow> 'a list" where
  "upd_upto g n xs = map (\<lambda>k. if k < n then g k (xs ! k) else xs ! k) [0..<length xs]"

lemma length_upd_upto [simp]: "length (upd_upto g n xs) = length xs"
  by (simp add: upd_upto_def)

lemma nth_upd_upto [simp]:
  "k < length xs \<Longrightarrow> upd_upto g n xs ! k = (if k < n then g k (xs ! k) else xs ! k)"
  by (simp add: upd_upto_def)

lemma upd_upto_0 [simp]: "upd_upto g 0 xs = xs"
  by (rule nth_equalityI) simp_all

lemma upd_upto_Suc: "n < length xs \<Longrightarrow> g n (xs ! n) = y \<Longrightarrow> (upd_upto g n xs)[n := y] = upd_upto g (Suc n) xs"
  by (rule nth_equalityI) (auto simp: nth_list_update less_Suc_eq)

lemma upd_upto_keep: "n < length xs \<Longrightarrow> g n (xs ! n) = xs ! n \<Longrightarrow> upd_upto g n xs = upd_upto g (Suc n) xs"
  by (rule nth_equalityI) (auto simp: less_Suc_eq)

text \<open>Dealing the numbers below \<open>n\<close> out to two queues in turn.\<close>

lemma length_filter_parity:
  "length (filter even [0..<n]) = (n + 1) div 2" "length (filter odd [0..<n]) = n div 2"
  by (induction n) auto

section \<open>Reachable states\<close>

text \<open>
  A transition system given by its start states and its steps; \<open>reach n s\<close> says that \<open>s\<close>
  can be reached in \<open>n\<close> steps. The locale proves once that an invariant indexed by the
  number of steps taken holds wherever the machine can get.
\<close>

inductive reach :: "('s \<Rightarrow> bool) \<Rightarrow> ('s \<Rightarrow> 's \<Rightarrow> bool) \<Rightarrow> nat \<Rightarrow> 's \<Rightarrow> bool"
  for start step where
  reach_start: "start s \<Longrightarrow> reach start step 0 s"
| reach_step: "reach start step n s \<Longrightarrow> step s t \<Longrightarrow> reach start step (Suc n) t"

locale invariant_system =
  fixes start :: "'s \<Rightarrow> bool"
    and step :: "'s \<Rightarrow> 's \<Rightarrow> bool"
    and within :: "nat \<Rightarrow> bool"
    and inv :: "nat \<Rightarrow> 's \<Rightarrow> bool"
  assumes inv_start: "start s \<Longrightarrow> within 0 \<Longrightarrow> inv 0 s"
    and inv_step: "inv n s \<Longrightarrow> step s t \<Longrightarrow> within (Suc n) \<Longrightarrow> inv (Suc n) t"
    and within_Suc: "within (Suc n) \<Longrightarrow> within n"
begin

lemma reach_inv: "reach start step n s \<Longrightarrow> within n \<Longrightarrow> inv n s"
proof (induction rule: reach.induct)
  case (reach_start s)
  then show ?case by (rule inv_start)
next
  case (reach_step n s t)
  then show ?case by (blast intro: inv_step within_Suc)
qed

end

end
