(* ===== verification/LFQueue.thy ===== *)
theory LFQueue
  imports Prelude
begin

text \<open>
  The bounded latch-free queue of \<^verbatim>\<open>include/nvm0lfqueue.h\<close>, one call at a time: the
  constructor, \<open>enqueue\<close>, \<open>dequeue\<close>, \<open>get_size\<close>, \<open>is_empty\<close> and \<open>close\<close>. Tickets are 64-bit
  words as in the code. The contents of a queue are the values in the slots of the tickets
  between the two global counters; the invariant \<open>lfq_inv\<close> pins down both ticket arrays, so
  that it decides when a call would spin. The locale \<open>bounded_fifo\<close> is the contract that the
  queue's clients (every inode and volume list of the system) rely on.
\<close>

section \<open>The queue and its operations\<close>

record 'a lfqueue =
  p_count :: u64
  c_count :: u64
  vals :: "'a list"
  c_counts :: "u64 list"
  p_counts :: "u64 list"
  capacity :: u32
  is_closed :: bool

text \<open>
  The constructor. \<open>raw\<close> is the indeterminate content of \<^verbatim>\<open>new T[capacity]\<close>. The sums
  \<open>capacity-1\<close> and \<open>i+capacity\<close> are computed in 32 bits and widened when stored.
\<close>

definition new_lfqueue :: "(nat \<Rightarrow> 'a) \<Rightarrow> u32 \<Rightarrow> 'a lfqueue" where
  "new_lfqueue raw cap =
     \<lparr> p_count = ucast (cap - 1),
       c_count = ucast (cap - 1),
       vals = map raw [0..<unat cap],
       c_counts = map (\<lambda>i. ucast ((of_nat i :: u32) + cap)) [0..<unat cap],
       p_counts = map (\<lambda>i. ucast (of_nat i :: u32)) [0..<unat cap],
       capacity = cap,
       is_closed = False \<rparr>"

text \<open>The slot of a ticket: \<^verbatim>\<open>count % capacity\<close>, computed in 64 bits.\<close>

definition slot :: "'a lfqueue \<Rightarrow> u64 \<Rightarrow> nat" where
  "slot q t = unat (t mod ucast (capacity q))"

text \<open>
  \<open>enqueue\<close> takes a ticket, waits until the slot's \<open>c_counts\<close> entry equals it (or the queue is
  closed), stores the value and publishes the ticket. Run alone it either finds the entry
  right at once or spins for ever (\<open>Blocked\<close>).
\<close>

definition enqueue :: "'a lfqueue \<Rightarrow> 'a \<Rightarrow> 'a lfqueue res" where
  "enqueue q v =
     (let p = p_count q + 1; q1 = q\<lparr>p_count := p\<rparr> in
      if capacity q = 0 then Inl DivByZero
      else if p \<noteq> c_counts q1 ! slot q1 p then
        (if is_closed q1 then Inr q1 else Inl Blocked)
      else Inr (q1\<lparr>vals := (vals q1)[slot q1 p := v],
                   p_counts := (p_counts q1)[slot q1 p := p]\<rparr>))"

text \<open>\<open>dequeue\<close> is the mirror image; on a closed queue it gives up and returns 0.\<close>

definition dequeue :: "'a::zero lfqueue \<Rightarrow> ('a \<times> 'a lfqueue) res" where
  "dequeue q =
     (let c = c_count q + 1; q1 = q\<lparr>c_count := c\<rparr> in
      if capacity q = 0 then Inl DivByZero
      else if c \<noteq> p_counts q1 ! slot q1 c then
        (if is_closed q1 then Inr (0, q1) else Inl Blocked)
      else Inr (vals q1 ! slot q1 c,
                q1\<lparr>c_counts := (c_counts q1)[slot q1 c := c + ucast (capacity q1)]\<rparr>))"

text \<open>
  \<open>get_size\<close> masks the 64-bit difference with the 32-bit value \<open>0 - (pc >= cc)\<close>, widened.
\<close>

definition get_size :: "'a lfqueue \<Rightarrow> u32" where
  "get_size q =
     (let pc = p_count q; cc = c_count q;
          mask = (0 :: u32) - (if pc \<ge> cc then 1 else 0)
      in ucast (and (pc - cc) (ucast mask :: u64)))"

definition is_empty :: "'a lfqueue \<Rightarrow> bool" where
  "is_empty q \<longleftrightarrow> p_count q \<le> c_count q"

definition close :: "'a lfqueue \<Rightarrow> 'a lfqueue" where
  "close q = q\<lparr>is_closed := True\<rparr>"

section \<open>Contents and invariant\<close>

text \<open>The values waiting in the queue, oldest first.\<close>

definition contents :: "'a lfqueue \<Rightarrow> 'a list" where
  "contents q =
     map (\<lambda>k. vals q ! (k mod unat (capacity q)))
       [Suc (unat (c_count q))..<Suc (unat (p_count q))]"

text \<open>
  Tickets in \<open>(c, p]\<close> are full: both entries of their slot hold the ticket. Tickets in
  \<open>(p, c+n]\<close> are free: \<open>c_counts\<close> holds the ticket, \<open>p_counts\<close> the previous round's.
\<close>

definition lfq_inv :: "'a lfqueue \<Rightarrow> bool" where
  "lfq_inv q \<longleftrightarrow>
     (let n = unat (capacity q); c = unat (c_count q); p = unat (p_count q) in
      0 < n \<and> length (vals q) = n \<and> length (c_counts q) = n \<and> length (p_counts q) = n \<and>
      n \<le> Suc c \<and> c \<le> p \<and> p \<le> c + n \<and>
      (\<forall>k. c < k \<and> k \<le> p \<longrightarrow>
         unat (p_counts q ! (k mod n)) = k \<and> unat (c_counts q ! (k mod n)) = k) \<and>
      (\<forall>k. p < k \<and> k \<le> c + n \<longrightarrow>
         unat (c_counts q ! (k mod n)) = k \<and> unat (p_counts q ! (k mod n)) = k - n))"

text \<open>
  \<open>lfq_ok m q\<close>: the queue is well formed, open, and at least \<open>m\<close> tickets away from the
  63-bit mark, so that neither counter can wrap around.
\<close>

definition lfq_ok :: "nat \<Rightarrow> 'a lfqueue \<Rightarrow> bool" where
  "lfq_ok m q \<longleftrightarrow> lfq_inv q \<and> \<not> is_closed q \<and> unat (p_count q) + m < 2 ^ 63"

abbreviation cap_of :: "'a lfqueue \<Rightarrow> nat" where
  "cap_of q \<equiv> unat (capacity q)"

lemma length_contents: "length (contents q) = unat (p_count q) - unat (c_count q)"
  unfolding contents_def length_map length_upt by simp

lemma lfq_inv_bounds:
  assumes "lfq_inv q"
  shows "0 < cap_of q" "length (vals q) = cap_of q" "length (c_counts q) = cap_of q"
    "length (p_counts q) = cap_of q" "unat (c_count q) \<le> unat (p_count q)"
    "unat (p_count q) \<le> unat (c_count q) + cap_of q" "cap_of q \<le> Suc (unat (c_count q))"
  using assms by (simp_all add: lfq_inv_def Let_def)

lemma lfq_inv_full:
  assumes "lfq_inv q" "unat (c_count q) < k" "k \<le> unat (p_count q)"
  shows "unat (p_counts q ! (k mod cap_of q)) = k" "unat (c_counts q ! (k mod cap_of q)) = k"
  using assms by (simp_all add: lfq_inv_def Let_def)

lemma lfq_inv_free:
  assumes "lfq_inv q" "unat (p_count q) < k" "k \<le> unat (c_count q) + cap_of q"
  shows "unat (c_counts q ! (k mod cap_of q)) = k"
    "unat (p_counts q ! (k mod cap_of q)) = k - cap_of q"
  using assms by (simp_all add: lfq_inv_def Let_def)

lemma slot_eq: "slot q t = unat t mod cap_of q"
  by (simp add: slot_def unat_mod_distrib unat_ucast_u32_u64)

lemma slot_upd [simp]:
  "slot (q\<lparr>p_count := x\<rparr>) t = slot q t"
  "slot (q\<lparr>c_count := x\<rparr>) t = slot q t"
  by (simp_all add: slot_def)

lemma cap_pos_iff: "capacity q \<noteq> 0 \<longleftrightarrow> 0 < cap_of q"
  by (simp add: unat_gt_0)

section \<open>The constructor\<close>

lemma unat_u32_pred:
  assumes "0 < unat (cap :: u32)"
  shows "unat (cap - 1) = unat cap - 1"
proof -
  from assms have "1 \<le> cap" by (simp add: word_le_nat_alt)
  then show ?thesis by (simp add: unat_sub)
qed

lemma contents_new: "contents (new_lfqueue raw cap) = []"
  by (simp add: contents_def new_lfqueue_def)

lemma lfq_ok_new:
  assumes "0 < unat cap" "unat cap \<le> 2 ^ 31" "m \<le> 2 ^ 62"
  shows "lfq_ok m (new_lfqueue raw cap)"
proof -
  let ?n = "unat cap"
  have i: "unat (of_nat i :: u32) = i" if "i < ?n" for i
    using that unat_u32_less [of cap] by (intro unat_of_nat_u32) linarith
  have sum: "unat ((of_nat i :: u32) + cap) = i + ?n" if "i < ?n" for i
    using that assms(2) i [OF that] by (subst unat_add_no_wrap) auto
  have sub: "k - ?n < ?n" "k mod ?n = k - ?n" "k - ?n + ?n = k"
    if "?n - 1 < k" "k \<le> ?n - 1 + ?n" for k
  proof -
    show "k - ?n < ?n" "k - ?n + ?n = k" using that assms(1) by linarith+
    then show "k mod ?n = k - ?n" by (metis mod_add_self2 mod_less)
  qed
  have "unat (of_nat (k mod ?n) :: u32) = k - ?n" "unat ((of_nat (k mod ?n) :: u32) + cap) = k"
    "k mod ?n < ?n" if "?n - 1 < k" "k \<le> ?n - 1 + ?n" for k
    unfolding sub(2) [OF that] using i [OF sub(1) [OF that]] sum [OF sub(1) [OF that]] sub [OF that]
    by presburger+
  then have "lfq_inv (new_lfqueue raw cap)"
    using assms(1)
    by (auto simp: lfq_inv_def new_lfqueue_def Let_def unat_u32_pred unat_ucast_u32_u64)
  then show ?thesis
    using assms by (simp add: lfq_ok_def new_lfqueue_def unat_u32_pred unat_ucast_u32_u64)
qed


section \<open>Enqueue\<close>

lemma enqueue_ok:
  assumes ok: "lfq_ok (Suc m) q" and room: "length (contents q) < cap_of q"
  obtains q' where "enqueue q v = Inr q'" "contents q' = contents q @ [v]"
    "lfq_ok m q'" "capacity q' = capacity q"
proof -
  let ?n = "cap_of q" and ?c = "unat (c_count q)" and ?p = "unat (p_count q)"
  have inv: "lfq_inv q" and left: "Suc ?p + m < 2 ^ 63"
    using ok by (simp_all add: lfq_ok_def)
  note b = lfq_inv_bounds [OF inv]
  have p': "unat (p_count q + 1) = Suc ?p"
    using left by (intro unat_Suc_no_wrap) simp
  have win: "Suc ?p \<le> ?c + ?n" using room b by (simp add: length_contents)
  let ?i = "Suc ?p mod ?n"
  have i: "?i < ?n" using b(1) by simp
  have "c_counts q ! ?i = p_count q + 1"
    using lfq_inv_free(1) [OF inv _ win] p' by (simp add: word_unat_eq_iff)
  moreover define q' where "q' = q\<lparr>p_count := p_count q + 1, vals := (vals q)[?i := v],
       p_counts := (p_counts q)[?i := p_count q + 1]\<rparr>"
  ultimately have enq: "enqueue q v = Inr q'"
    using b(1) by (simp add: enqueue_def Let_def slot_eq p' cap_pos_iff [symmetric])
  have other: "k mod ?n \<noteq> ?i" if "?c < k" "k \<le> ?c + ?n" "k \<noteq> Suc ?p" for k
    using that win b(5) by (intro mod_window_neq [of ?c _ ?n]) auto
  have "contents q' = contents q @ [v]"
  proof -
    have "map (\<lambda>k. (vals q)[?i := v] ! (k mod ?n)) [Suc ?c..<Suc ?p] = contents q"
      unfolding contents_def
    proof (intro map_cong refl)
      fix k assume "k \<in> set [Suc ?c..<Suc ?p]"
      then have "k mod ?n \<noteq> ?i" using win by (intro other) auto
      then show "(vals q)[?i := v] ! (k mod ?n) = vals q ! (k mod ?n)" by simp
    qed
    moreover have "[Suc ?c..<Suc (Suc ?p)] = [Suc ?c..<Suc ?p] @ [Suc ?p]"
      using b(5) by simp
    ultimately show ?thesis
      using b i by (simp add: contents_def q'_def p' del: upt_Suc)
  qed
  moreover have "lfq_inv q'"
    unfolding lfq_inv_def Let_def
  proof (intro conjI allI impI)
    fix k assume "unat (c_count q') < k \<and> k \<le> unat (p_count q')"
    then have k: "?c < k" "k \<le> Suc ?p" by (simp_all add: q'_def p')
    then show "unat (p_counts q' ! (k mod cap_of q')) = k"
      using lfq_inv_full(1) [OF inv, of k] other [of k] win i b
      by (cases "k = Suc ?p") (auto simp: q'_def p')
    show "unat (c_counts q' ! (k mod cap_of q')) = k"
      using k lfq_inv_full(2) [OF inv, of k] lfq_inv_free(1) [OF inv, of k] win
      by (cases "k = Suc ?p") (auto simp: q'_def)
  next
    fix k assume "unat (p_count q') < k \<and> k \<le> unat (c_count q') + cap_of q'"
    then have k: "Suc ?p < k" "k \<le> ?c + ?n" by (simp_all add: q'_def p')
    then show "unat (c_counts q' ! (k mod cap_of q')) = k"
      using lfq_inv_free(1) [OF inv, of k] by (simp add: q'_def)
    show "unat (p_counts q' ! (k mod cap_of q')) = k - cap_of q'"
      using k lfq_inv_free(2) [OF inv, of k] other [of k] b(5) by (simp add: q'_def)
  qed (use b win in \<open>simp_all add: q'_def p'\<close>)
  ultimately show thesis
    using that [OF enq] ok left by (simp add: lfq_ok_def q'_def p')
qed

lemma enqueue_full:
  assumes "lfq_ok (Suc m) q" "length (contents q) = cap_of q"
  shows "enqueue q v = Inl Blocked"
proof -
  let ?n = "cap_of q" and ?c = "unat (c_count q)" and ?p = "unat (p_count q)"
  have inv: "lfq_inv q" and left: "Suc ?p + m < 2 ^ 63" and opn: "\<not> is_closed q"
    using assms(1) by (simp_all add: lfq_ok_def)
  note b = lfq_inv_bounds [OF inv]
  have p': "unat (p_count q + 1) = Suc ?p"
    using left by (intro unat_Suc_no_wrap) simp
  have eq: "?p = ?c + ?n" using assms(2) b by (simp add: length_contents)
  then have "Suc ?p mod ?n = Suc ?c mod ?n" by (metis add_Suc mod_add_self2)
  moreover have "unat (c_counts q ! (Suc ?c mod ?n)) = Suc ?c"
    using eq b(1) by (intro lfq_inv_full(2) [OF inv]) auto
  ultimately have "p_count q + 1 \<noteq> c_counts q ! (Suc ?p mod ?n)"
    using p' eq b(1) by (auto simp: word_unat_eq_iff)
  then show ?thesis
    using b(1) opn by (simp add: enqueue_def Let_def slot_eq p' cap_pos_iff [symmetric])
qed

section \<open>Dequeue\<close>

lemma dequeue_ok:
  assumes ok: "lfq_ok m q" and front: "contents q = v # vs"
  obtains q' where "dequeue q = Inr (v, q')" "contents q' = vs" "lfq_ok m q'"
    "capacity q' = capacity q"
proof -
  let ?n = "cap_of q" and ?c = "unat (c_count q)" and ?p = "unat (p_count q)"
  have inv: "lfq_inv q" and left: "?p + m < 2 ^ 63"
    using ok by (simp_all add: lfq_ok_def)
  note b = lfq_inv_bounds [OF inv]
  have lt: "?c < ?p" using front length_contents [of q] by simp
  have c': "unat (c_count q + 1) = Suc ?c"
    using lt left by (intro unat_Suc_no_wrap) simp
  have cn: "unat (c_count q + 1 + ucast (capacity q)) = Suc ?c + ?n"
    using c' lt left unat_u32_less [of "capacity q"]
    by (subst unat_add_no_wrap) (simp_all add: unat_ucast_u32_u64)
  let ?i = "Suc ?c mod ?n"
  have i: "?i < ?n" using b(1) by simp
  have "p_counts q ! ?i = c_count q + 1"
    using lfq_inv_full(1) [OF inv _ Suc_leI [OF lt]] c' by (simp add: word_unat_eq_iff)
  moreover define q' where "q' = q\<lparr>c_count := c_count q + 1,
       c_counts := (c_counts q)[?i := c_count q + 1 + ucast (capacity q)]\<rparr>"
  ultimately have deq: "dequeue q = Inr (vals q ! ?i, q')"
    using b(1) by (simp add: dequeue_def Let_def slot_eq c' cap_pos_iff [symmetric])
  have "[Suc ?c..<Suc ?p] = Suc ?c # [Suc (Suc ?c)..<Suc ?p]"
    using lt by (simp add: upt_conv_Cons del: upt_Suc)
  then have "contents q = vals q ! ?i # contents q'"
    by (simp add: contents_def q'_def c' del: upt_Suc)
  then have v: "v = vals q ! ?i" and vs: "contents q' = vs"
    using front by simp_all
  have other: "k mod ?n \<noteq> ?i" if "Suc ?c < k" "k \<le> ?c + ?n" for k
    using that b(1) by (intro mod_window_neq [of ?c _ ?n]) auto
  have "lfq_inv q'"
    unfolding lfq_inv_def Let_def
  proof (intro conjI allI impI)
    fix k assume "unat (c_count q') < k \<and> k \<le> unat (p_count q')"
    then have k: "Suc ?c < k" "k \<le> ?p" by (simp_all add: q'_def c')
    then show "unat (p_counts q' ! (k mod cap_of q')) = k"
      "unat (c_counts q' ! (k mod cap_of q')) = k"
      using lfq_inv_full [OF inv, of k] other [of k] b(6) by (auto simp: q'_def)
  next
    fix k assume "unat (p_count q') < k \<and> k \<le> unat (c_count q') + cap_of q'"
    then have k: "?p < k" "k \<le> Suc ?c + ?n" by (simp_all add: q'_def c')
    have last: "k mod ?n = ?i" if "k = Suc ?c + ?n"
      unfolding that by (rule mod_add_self2)
    show "unat (c_counts q' ! (k mod cap_of q')) = k"
      using k lt lfq_inv_free(1) [OF inv, of k] other [of k] cn i b(3) last
      by (cases "k = Suc ?c + ?n") (auto simp: q'_def)
    show "unat (p_counts q' ! (k mod cap_of q')) = k - cap_of q'"
      using k lt lfq_inv_free(2) [OF inv, of k] lfq_inv_full(1) [OF inv, of "Suc ?c"] last
      by (cases "k = Suc ?c + ?n") (auto simp: q'_def)
  qed (use b lt in \<open>simp_all add: q'_def c'\<close>)
  then show thesis
    using that [OF deq [folded v] vs] ok by (simp add: lfq_ok_def q'_def)
qed

lemma dequeue_empty:
  assumes "lfq_ok m q" "contents q = []"
  shows "dequeue q = Inl Blocked"
proof -
  let ?n = "cap_of q" and ?c = "unat (c_count q)" and ?p = "unat (p_count q)"
  have inv: "lfq_inv q" and left: "?p + m < 2 ^ 63" and opn: "\<not> is_closed q"
    using assms(1) by (simp_all add: lfq_ok_def)
  note b = lfq_inv_bounds [OF inv]
  have eq: "?c = ?p" using assms(2) b(5) length_contents [of q] by simp
  have c': "unat (c_count q + 1) = Suc ?c"
    using left eq by (intro unat_Suc_no_wrap) simp
  have "unat (p_counts q ! (Suc ?c mod ?n)) = Suc ?c - ?n"
    using eq b(1) by (intro lfq_inv_free(2) [OF inv]) auto
  then have "c_count q + 1 \<noteq> p_counts q ! (Suc ?c mod ?n)"
    using c' b(1,7) by (auto simp: word_unat_eq_iff)
  then show ?thesis
    using b(1) opn by (simp add: dequeue_def Let_def slot_eq c' cap_pos_iff [symmetric])
qed

section \<open>Size\<close>

lemma get_size_eq:
  "get_size q = (if c_count q \<le> p_count q then ucast (p_count q - c_count q) else 0)"
proof (cases "c_count q \<le> p_count q")
  case True
  have "ucast (and x (ucast (- 1 :: u32) :: u64)) = (ucast x :: u32)" for x :: u64
    by (rule bit_word_eqI) (auto simp: bit_simps)
  with True show ?thesis by (simp add: get_size_def Let_def)
next
  case False
  then show ?thesis by (simp add: get_size_def Let_def)
qed

lemma unat_get_size:
  assumes "lfq_inv q"
  shows "unat (get_size q) = length (contents q)"
proof -
  note b = lfq_inv_bounds [OF assms]
  from b(5) have "c_count q \<le> p_count q" by (simp add: word_le_nat_alt)
  moreover have "unat (p_count q - c_count q) = length (contents q)"
    using b(5) by (simp add: length_contents unat_sub word_le_nat_alt)
  moreover have "length (contents q) < 4294967296"
    using b unat_u32_less [of "capacity q"] by (simp add: length_contents)
  ultimately show ?thesis
    by (simp add: get_size_eq unsigned_ucast_eq take_bit_nat_eq_self)
qed

lemma is_empty_iff:
  assumes "lfq_inv q"
  shows "is_empty q \<longleftrightarrow> contents q = []"
  using lfq_inv_bounds(5) [OF assms] length_contents [of q]
  by (auto simp: is_empty_def word_le_nat_alt)

text \<open>The size, computed without a branch by masking the difference of the counters, is the one
  that a comparison would give: the difference, cut to 32 bits, or 0 when the counters are read in
  the wrong order.\<close>
theorem get_size_branch_free:
  "get_size q = (if p_count q < c_count q then 0 else ucast (p_count q - c_count q))"
  by (auto simp: get_size_eq)

section \<open>The contract of a bounded queue\<close>

text \<open>
  What the clients of a queue use: \<open>ok m q\<close> (well formed, \<open>m\<close> enqueues still possible without
  counter wrap-around), the waiting values \<open>waiting q\<close> and the capacity \<open>room q\<close>.
\<close>

fun enq_all :: "('q \<Rightarrow> 'a \<Rightarrow> 'q res) \<Rightarrow> 'q \<Rightarrow> 'a list \<Rightarrow> 'q res" where
  "enq_all enq q [] = Inr q"
| "enq_all enq q (x # xs) = rbind (enq q x) (\<lambda>q'. enq_all enq q' xs)"

fun deq_n :: "('q \<Rightarrow> ('a \<times> 'q) res) \<Rightarrow> 'q \<Rightarrow> nat \<Rightarrow> ('a list \<times> 'q) res" where
  "deq_n deq q 0 = Inr ([], q)"
| "deq_n deq q (Suc k) =
     rbind (deq q) (\<lambda>(x, q'). rbind (deq_n deq q' k) (\<lambda>(xs, q''). Inr (x # xs, q'')))"

locale bounded_fifo =
  fixes enq :: "'q \<Rightarrow> 'a \<Rightarrow> 'q res"
    and deq :: "'q \<Rightarrow> ('a \<times> 'q) res"
    and size_of :: "'q \<Rightarrow> u32"
    and waiting :: "'q \<Rightarrow> 'a list"
    and room :: "'q \<Rightarrow> nat"
    and ok :: "nat \<Rightarrow> 'q \<Rightarrow> bool"
  assumes enq_room: "ok (Suc m) q \<Longrightarrow> length (waiting q) < room q \<Longrightarrow>
      \<exists>q'. enq q v = Inr q' \<and> waiting q' = waiting q @ [v] \<and> ok m q' \<and> room q' = room q"
    and enq_full: "ok (Suc m) q \<Longrightarrow> length (waiting q) = room q \<Longrightarrow> enq q v = Inl Blocked"
    and deq_front: "ok m q \<Longrightarrow> waiting q = v # vs \<Longrightarrow>
      \<exists>q'. deq q = Inr (v, q') \<and> waiting q' = vs \<and> ok m q' \<and> room q' = room q"
    and deq_none: "ok m q \<Longrightarrow> waiting q = [] \<Longrightarrow> deq q = Inl Blocked"
    and size_waiting: "ok m q \<Longrightarrow> unat (size_of q) = length (waiting q)"
    and waiting_room: "ok m q \<Longrightarrow> length (waiting q) \<le> room q"
    and ok_less: "ok m q \<Longrightarrow> k \<le> m \<Longrightarrow> ok k q"
begin

lemma enq_InrD:
  assumes "ok (Suc m) q" "enq q v = Inr q'"
  shows "waiting q' = waiting q @ [v]" "ok m q'" "room q' = room q" "length (waiting q) < room q"
proof -
  from assms enq_full have "length (waiting q) \<noteq> room q" by fastforce
  with assms(1) waiting_room show less: "length (waiting q) < room q" by (simp add: le_neq_implies_less)
  show "waiting q' = waiting q @ [v]" "ok m q'" "room q' = room q"
    using enq_room [OF assms(1) less, of v] assms(2) by auto
qed

lemma deq_InrD:
  assumes "ok m q" "deq q = Inr (v, q')"
  shows "waiting q = v # waiting q'" "ok m q'" "room q' = room q"
proof -
  from assms deq_none obtain x xs where w: "waiting q = x # xs" by (cases "waiting q") fastforce+
  then show "waiting q = v # waiting q'" "ok m q'" "room q' = room q"
    using deq_front [OF assms(1) w] assms(2) by auto
qed

lemma enq_all_room:
  "ok (length xs + m) q \<Longrightarrow> length (waiting q) + length xs \<le> room q \<Longrightarrow>
   \<exists>q'. enq_all enq q xs = Inr q' \<and> waiting q' = waiting q @ xs \<and> ok m q' \<and> room q' = room q"
proof (induction xs arbitrary: q)
  case Nil
  then show ?case by simp
next
  case (Cons x xs)
  then obtain q' where q': "enq q x = Inr q'" "waiting q' = waiting q @ [x]"
    "ok (length xs + m) q'" "room q' = room q"
    using enq_room [of "length xs + m" q x] by auto
  then show ?case using Cons.IH [of q'] Cons.prems by auto
qed

lemma deq_n_front:
  "ok m q \<Longrightarrow> k \<le> length (waiting q) \<Longrightarrow>
   \<exists>q'. deq_n deq q k = Inr (take k (waiting q), q') \<and> waiting q' = drop k (waiting q) \<and>
        ok m q' \<and> room q' = room q"
proof (induction k arbitrary: q)
  case 0
  then show ?case by simp
next
  case (Suc k)
  then obtain v vs where w: "waiting q = v # vs" by (cases "waiting q") auto
  then obtain q' where "deq q = Inr (v, q')" "waiting q' = vs" "ok m q'" "room q' = room q"
    using deq_front [OF Suc.prems(1)] by blast
  then show ?case using Suc.IH [of q'] Suc.prems w by auto
qed

lemma fill_then_drain:
  assumes "ok (length xs + m) q" "waiting q = []" "length xs \<le> room q"
  shows "\<exists>q' q''. enq_all enq q xs = Inr q' \<and> unat (size_of q') = length xs \<and>
    deq_n deq q' (length xs) = Inr (xs, q'') \<and> waiting q'' = [] \<and> ok m q''"
proof -
  obtain q' where q': "enq_all enq q xs = Inr q'" "waiting q' = xs" "ok m q'"
    using enq_all_room [OF assms(1)] assms(2,3) by auto
  then show ?thesis using deq_n_front [OF q'(3), of "length xs"] size_waiting [OF q'(3)] by auto
qed

end

interpretation lfq: bounded_fifo "enqueue :: 'a::zero lfqueue \<Rightarrow> _" dequeue get_size contents cap_of
  lfq_ok
proof unfold_locales
  fix m and q :: "'a lfqueue" and v
  assume "lfq_ok (Suc m) q" "length (contents q) < cap_of q"
  then show "\<exists>q'. enqueue q v = Inr q' \<and> contents q' = contents q @ [v] \<and> lfq_ok m q' \<and>
      cap_of q' = cap_of q"
    using enqueue_ok [of m q v] by metis
next
  fix m and q :: "'a lfqueue" and v vs
  assume "lfq_ok m q" "contents q = v # vs"
  then show "\<exists>q'. dequeue q = Inr (v, q') \<and> contents q' = vs \<and> lfq_ok m q' \<and>
      cap_of q' = cap_of q"
    using dequeue_ok [of m q v vs] by metis
next
  fix m and q :: "'a lfqueue"
  assume "lfq_ok m q"
  then have "lfq_inv q" by (simp add: lfq_ok_def)
  then show "unat (get_size q) = length (contents q)" "length (contents q) \<le> cap_of q"
    using lfq_inv_bounds [of q] by (auto simp: unat_get_size length_contents)
next
  fix m k and q :: "'a lfqueue"
  assume "lfq_ok m q" "k \<le> m"
  then show "lfq_ok k q" by (simp add: lfq_ok_def)
qed (simp_all add: enqueue_full dequeue_empty)

text \<open>A loop that takes values out until the queue is empty comes nearer to its end.\<close>

lemma dequeue_progress:
  assumes "dequeue q = Inr (v, q')" "\<not> is_empty q"
  shows "unat (p_count q') - unat (c_count q') < unat (p_count q) - unat (c_count q)"
proof -
  have lt: "unat (c_count q) < unat (p_count q)"
    using assms(2) by (simp add: is_empty_def word_le_nat_alt)
  then have "unat (c_count q + 1) = Suc (unat (c_count q))"
    using unat_u64_less [of "p_count q"] by (intro unat_Suc_no_wrap) simp
  moreover have "c_count q' = c_count q + 1" "p_count q' = p_count q"
    using assms(1) by (auto simp: dequeue_def Let_def split: if_splits)
  ultimately show ?thesis using lt by simp
qed

section \<open>Properties\<close>

text \<open>C33. A call of \<open>enqueue\<close> on a well-formed open queue appends the value when there is room and
  otherwise waits; nothing else can happen, and the queue stays well formed.\<close>
theorem enqueue_spec:
  fixes q :: "'a::zero lfqueue"
  assumes "lfq_ok (Suc m) q"
  shows "(length (contents q) < cap_of q \<and>
           (\<exists>q'. enqueue q v = Inr q' \<and> contents q' = contents q @ [v] \<and> lfq_ok m q')) \<or>
         (length (contents q) = cap_of q \<and> enqueue q v = Inl Blocked)"
  using lfq.enq_room [OF assms, of v] lfq.enq_full [OF assms, of v] lfq.waiting_room [OF assms]
  by fastforce

theorem enqueue_spec_witness:
  "\<exists>q'. enqueue (new_lfqueue (\<lambda>_. 0 :: u32) 2) 7 = Inr q' \<and> contents q' = [7]"
  using enqueue_spec [OF lfq_ok_new [of 2 "Suc 0" "\<lambda>_. 0 :: u32"], of 7]
  by (auto simp: contents_new) (simp add: new_lfqueue_def)

text \<open>A call of \<open>dequeue\<close> on a well-formed open queue removes and returns the oldest value, and
  waits exactly when the queue is empty.\<close>
theorem dequeue_spec:
  assumes "lfq_ok m q"
  shows "(case contents q of [] \<Rightarrow> dequeue q = Inl Blocked
          | v # vs \<Rightarrow> (\<exists>q'. dequeue q = Inr (v, q') \<and> contents q' = vs \<and> lfq_ok m q'))"
  using lfq.deq_none [OF assms] lfq.deq_front [OF assms] by (auto split: list.splits)

theorem dequeue_spec_witness:
  "dequeue (new_lfqueue (\<lambda>_. 5 :: u32) 3) = Inl Blocked"
  using dequeue_spec [OF lfq_ok_new [of 3 0 "\<lambda>_. 5 :: u32"]] by (simp add: contents_new)

text \<open>C32. First in, first out: filling a new queue with any values that fit and taking them out
  again gives back the same values in the same order, with no call waiting, and \<open>get_size\<close>
  counts them.\<close>
theorem lfqueue_fifo:
  assumes "0 < unat cap" "unat cap \<le> 2 ^ 31" "length vs \<le> unat cap"
  shows "\<exists>q' q''. enq_all enqueue (new_lfqueue raw cap) vs = Inr q' \<and>
    unat (get_size q') = length vs \<and> deq_n dequeue q' (length vs) = Inr (vs, q'') \<and> is_empty q''"
proof -
  have "lfq_ok (length vs + 0) (new_lfqueue raw cap)"
    using assms by (intro lfq_ok_new) auto
  moreover have "cap_of (new_lfqueue raw cap) = unat cap" by (simp add: new_lfqueue_def)
  ultimately show ?thesis
    using lfq.fill_then_drain [of vs 0 "new_lfqueue raw cap"] assms(3)
    by (fastforce simp: contents_new lfq_ok_def is_empty_iff)
qed

theorem lfqueue_fifo_witness:
  "\<exists>q' q''. enq_all enqueue (new_lfqueue (\<lambda>_. 0 :: u32) 4) [8, 9] = Inr q' \<and>
    unat (get_size q') = 2 \<and> deq_n dequeue q' 2 = Inr ([8, 9], q'') \<and> is_empty q''"
proof -
  have "0 < unat (4 :: u32)" "unat (4 :: u32) \<le> 2 ^ 31" "length [8, 9 :: u32] \<le> unat (4 :: u32)"
    by simp_all
  from lfqueue_fifo [OF this, of "\<lambda>_. 0"] show ?thesis
    by (simp only: list.size add_0 One_nat_def [symmetric] one_add_one)
qed

text \<open>The constructor computes \<open>i+capacity\<close> in 32 bits: for a capacity above \<open>2^31\<close> the last
  slot's entry wraps, and so does not hold the ticket its first enqueue will wait for.\<close>
theorem new_lfqueue_large_capacity:
  assumes "2 ^ 31 < unat cap"
  shows "unat (c_counts (new_lfqueue raw cap) ! (unat cap - 1)) \<noteq> unat cap - 1 + unat cap"
proof -
  have "unat ((of_nat (unat cap - 1) :: u32) + cap) < unat cap - 1 + unat cap"
    using assms unat_u32_less [of "of_nat (unat cap - 1) + cap"]
    unfolding power_numeral by simp
  then show ?thesis using assms by (simp add: new_lfqueue_def unat_ucast_u32_u64)
qed

theorem new_lfqueue_large_capacity_witness:
  "unat (c_counts (new_lfqueue (\<lambda>_. 0 :: u32) 2147483649) ! 2147483648) \<noteq> 4294967297"
  using new_lfqueue_large_capacity [of 2147483649 "\<lambda>_. 0 :: u32"] by simp

end
