(* ===== verification/LFQueue_Conc.thy ===== *)
theory LFQueue_Conc
  imports LFQueue
begin

text \<open>
  The same queue under any interleaving of any number of threads. Each thread is at one of the
  points of \<open>enqueue\<close> or \<open>dequeue\<close> between two accesses to shared memory; a step is one such
  access (all atomics of the code are sequentially consistent). Two ghost logs record, by
  ticket, the value each enqueue was called with and the value each dequeue returned.
  The invariant gives freedom from data races on the plain array \<open>values\<close> and the
  correspondence of dequeued to enqueued values ticket by ticket.
\<close>

section \<open>Threads and steps\<close>

datatype 'a pc =
    Idle
  | EnqSpin u64 'a      \<comment> \<open>ticket taken, waiting for the slot\<close>
  | EnqStore u64 'a     \<comment> \<open>slot granted, value not yet stored\<close>
  | EnqPublish u64 'a   \<comment> \<open>value stored, ticket not yet published\<close>
  | DeqSpin u64         \<comment> \<open>ticket taken, waiting for a value\<close>
  | DeqTake u64         \<comment> \<open>value available, not yet read\<close>
  | DeqRelease u64 'a   \<comment> \<open>value read, slot not yet released\<close>

record 'a lfq_sys =
  shared :: "'a lfqueue"
  pcs :: "nat \<Rightarrow> 'a pc"
  enq_log :: "nat \<Rightarrow> 'a option"
  deq_log :: "nat \<Rightarrow> 'a option"

inductive lfq_step :: "'a lfq_sys \<Rightarrow> 'a lfq_sys \<Rightarrow> bool" where
  enq_ticket: "pcs s t = Idle \<Longrightarrow> p = p_count (shared s) + 1 \<Longrightarrow>
    lfq_step s (s\<lparr>shared := (shared s)\<lparr>p_count := p\<rparr>, pcs := (pcs s)(t := EnqSpin p v),
                 enq_log := (enq_log s)(unat p \<mapsto> v)\<rparr>)"
| enq_go: "pcs s t = EnqSpin p v \<Longrightarrow> c_counts (shared s) ! slot (shared s) p = p \<Longrightarrow>
    lfq_step s (s\<lparr>pcs := (pcs s)(t := EnqStore p v)\<rparr>)"
| enq_abort: "pcs s t = EnqSpin p v \<Longrightarrow> c_counts (shared s) ! slot (shared s) p \<noteq> p \<Longrightarrow>
    is_closed (shared s) \<Longrightarrow> lfq_step s (s\<lparr>pcs := (pcs s)(t := Idle)\<rparr>)"
| enq_store: "pcs s t = EnqStore p v \<Longrightarrow>
    lfq_step s (s\<lparr>shared := (shared s)\<lparr>vals := (vals (shared s))[slot (shared s) p := v]\<rparr>,
                 pcs := (pcs s)(t := EnqPublish p v)\<rparr>)"
| enq_publish: "pcs s t = EnqPublish p v \<Longrightarrow>
    lfq_step s (s\<lparr>shared := (shared s)\<lparr>p_counts := (p_counts (shared s))[slot (shared s) p := p]\<rparr>,
                 pcs := (pcs s)(t := Idle)\<rparr>)"
| deq_ticket: "pcs s t = Idle \<Longrightarrow> c = c_count (shared s) + 1 \<Longrightarrow>
    lfq_step s (s\<lparr>shared := (shared s)\<lparr>c_count := c\<rparr>, pcs := (pcs s)(t := DeqSpin c)\<rparr>)"
| deq_go: "pcs s t = DeqSpin c \<Longrightarrow> p_counts (shared s) ! slot (shared s) c = c \<Longrightarrow>
    lfq_step s (s\<lparr>pcs := (pcs s)(t := DeqTake c)\<rparr>)"
| deq_abort: "pcs s t = DeqSpin c \<Longrightarrow> p_counts (shared s) ! slot (shared s) c \<noteq> c \<Longrightarrow>
    is_closed (shared s) \<Longrightarrow> lfq_step s (s\<lparr>pcs := (pcs s)(t := Idle)\<rparr>)"
| deq_take: "pcs s t = DeqTake c \<Longrightarrow>
    lfq_step s (s\<lparr>pcs := (pcs s)(t := DeqRelease c (vals (shared s) ! slot (shared s) c))\<rparr>)"
| deq_release: "pcs s t = DeqRelease c v \<Longrightarrow>
    lfq_step s (s\<lparr>shared := (shared s)\<lparr>c_counts := (c_counts (shared s))
                   [slot (shared s) c := c + ucast (capacity (shared s))]\<rparr>,
                 pcs := (pcs s)(t := Idle), deq_log := (deq_log s)(unat c \<mapsto> v)\<rparr>)"
| close_queue: "lfq_step s (s\<lparr>shared := close (shared s)\<rparr>)"

text \<open>A run starts with a new queue of sensible capacity, idle threads and empty logs.\<close>

definition lfq_start :: "'a lfq_sys \<Rightarrow> bool" where
  "lfq_start s \<longleftrightarrow>
     (\<exists>raw cap. 0 < unat cap \<and> unat cap \<le> 2 ^ 31 \<and> shared s = new_lfqueue raw cap) \<and>
     pcs s = (\<lambda>_. Idle) \<and> enq_log s = Map.empty \<and> deq_log s = Map.empty"

section \<open>The invariant\<close>

text \<open>Tickets held by a thread, and the ticket whose slot a thread has been granted.\<close>

fun enq_ticket_of :: "'a pc \<Rightarrow> u64 option" where
  "enq_ticket_of (EnqSpin p v) = Some p"
| "enq_ticket_of (EnqStore p v) = Some p"
| "enq_ticket_of (EnqPublish p v) = Some p"
| "enq_ticket_of _ = None"

fun deq_ticket_of :: "'a pc \<Rightarrow> u64 option" where
  "deq_ticket_of (DeqSpin c) = Some c"
| "deq_ticket_of (DeqTake c) = Some c"
| "deq_ticket_of (DeqRelease c v) = Some c"
| "deq_ticket_of _ = None"

fun owned :: "'a pc \<Rightarrow> u64 option" where
  "owned (EnqStore p v) = Some p"
| "owned (EnqPublish p v) = Some p"
| "owned (DeqTake c) = Some c"
| "owned (DeqRelease c v) = Some c"
| "owned _ = None"

definition writable :: "'a lfqueue \<Rightarrow> u64 \<Rightarrow> bool" where
  "writable q p \<longleftrightarrow> c_counts q ! slot q p = p \<and> unat (p_counts q ! slot q p) + cap_of q = unat p"

definition readable :: "'a lfqueue \<Rightarrow> u64 \<Rightarrow> bool" where
  "readable q c \<longleftrightarrow> c_counts q ! slot q c = c \<and> p_counts q ! slot q c = c"

fun pc_ok :: "'a lfqueue \<Rightarrow> (nat \<Rightarrow> 'a option) \<Rightarrow> 'a pc \<Rightarrow> bool" where
  "pc_ok q elog Idle = True"
| "pc_ok q elog (EnqSpin p v) = (elog (unat p) = Some v \<and> p_counts q ! slot q p \<noteq> p)"
| "pc_ok q elog (EnqStore p v) = (elog (unat p) = Some v \<and> writable q p)"
| "pc_ok q elog (EnqPublish p v) = (elog (unat p) = Some v \<and> writable q p \<and> vals q ! slot q p = v)"
| "pc_ok q elog (DeqSpin c) = (unat (c_counts q ! slot q c) \<noteq> unat c + cap_of q)"
| "pc_ok q elog (DeqTake c) = readable q c"
| "pc_ok q elog (DeqRelease c v) = (elog (unat c) = Some v \<and> readable q c)"

definition slot_ok :: "'a lfqueue \<Rightarrow> (nat \<Rightarrow> 'a option) \<Rightarrow> nat \<Rightarrow> bool" where
  "slot_ok q elog i \<longleftrightarrow>
     (let a = unat (c_counts q ! i); b = unat (p_counts q ! i); n = cap_of q in
      a mod n = i \<and> n \<le> a \<and> (b + n = a \<or> (b = a \<and> elog a = Some (vals q ! i))))"

definition queue_ok :: "nat \<Rightarrow> 'a lfqueue \<Rightarrow> bool" where
  "queue_ok k q \<longleftrightarrow>
     0 < cap_of q \<and> cap_of q \<le> 2 ^ 31 \<and>
     length (vals q) = cap_of q \<and> length (c_counts q) = cap_of q \<and> length (p_counts q) = cap_of q \<and>
     cap_of q \<le> Suc (unat (p_count q)) \<and> cap_of q \<le> Suc (unat (c_count q)) \<and>
     unat (p_count q) \<le> k + 2 ^ 31 \<and> unat (c_count q) \<le> k + 2 ^ 31 \<and>
     (\<forall>i < cap_of q. p_counts q ! i \<le> p_count q \<and>
        unat (c_counts q ! i) \<le> unat (c_count q) + cap_of q)"

definition tickets_ok :: "'a lfq_sys \<Rightarrow> bool" where
  "tickets_ok s \<longleftrightarrow>
     (\<forall>t p. enq_ticket_of (pcs s t) = Some p \<longrightarrow> cap_of (shared s) \<le> unat p \<and> p \<le> p_count (shared s)) \<and>
     (\<forall>t c. deq_ticket_of (pcs s t) = Some c \<longrightarrow> cap_of (shared s) \<le> unat c \<and>
        c \<le> c_count (shared s) \<and> deq_log s (unat c) = None) \<and>
     (\<forall>t t' p. enq_ticket_of (pcs s t) = Some p \<and> enq_ticket_of (pcs s t') = Some p \<longrightarrow> t = t') \<and>
     (\<forall>t t' c. deq_ticket_of (pcs s t) = Some c \<and> deq_ticket_of (pcs s t') = Some c \<longrightarrow> t = t')"

definition logs_ok :: "'a lfq_sys \<Rightarrow> bool" where
  "logs_ok s \<longleftrightarrow>
     (\<forall>k. k > unat (p_count (shared s)) \<longrightarrow> enq_log s k = None) \<and>
     (\<forall>k. k > unat (c_count (shared s)) \<longrightarrow> deq_log s k = None) \<and>
     (\<forall>k v. deq_log s k = Some v \<longrightarrow> enq_log s k = Some v)"

definition conc_inv :: "nat \<Rightarrow> 'a lfq_sys \<Rightarrow> bool" where
  "conc_inv k s \<longleftrightarrow> queue_ok k (shared s) \<and> tickets_ok s \<and> logs_ok s \<and>
     (\<forall>i < cap_of (shared s). slot_ok (shared s) (enq_log s) i) \<and>
     (\<forall>t. pc_ok (shared s) (enq_log s) (pcs s t))"

lemma conc_inv_parts:
  assumes "conc_inv k s"
  shows "queue_ok k (shared s)" "tickets_ok s" "logs_ok s"
    "i < cap_of (shared s) \<Longrightarrow> slot_ok (shared s) (enq_log s) i"
    "pc_ok (shared s) (enq_log s) (pcs s t)"
  using assms by (simp_all add: conc_inv_def)

text \<open>Two threads that have been granted a slot never have the same one.\<close>

lemma owned_ticket:
  "owned pc = Some a \<Longrightarrow> enq_ticket_of pc = Some a \<or> deq_ticket_of pc = Some a"
  by (cases pc) auto

lemma owned_cases:
  assumes "owned pc = Some a" "pc_ok q elog pc"
  shows "(enq_ticket_of pc = Some a \<and> writable q a) \<or> (deq_ticket_of pc = Some a \<and> readable q a)"
  using assms by (cases pc) auto

lemma owned_slots_differ:
  assumes inv: "conc_inv k s" and own: "owned (pcs s t) = Some a" "owned (pcs s t') = Some b"
    and "t \<noteq> t'"
  shows "slot (shared s) a \<noteq> slot (shared s) b"
proof
  assume same: "slot (shared s) a = slot (shared s) b"
  note ok = conc_inv_parts [OF inv]
  have pos: "0 < cap_of (shared s)" using ok(1) by (simp add: queue_ok_def)
  have "a = b"
    using owned_cases [OF own(1) ok(5)] owned_cases [OF own(2) ok(5)] same
    by (auto simp: writable_def readable_def)
  then show False
    using owned_cases [OF own(1) ok(5)] owned_cases [OF own(2) ok(5)] ok(2) \<open>t \<noteq> t'\<close> pos
    by (auto simp: tickets_ok_def writable_def readable_def)
qed

text \<open>What a thread relies on survives a write to a slot it does not own.\<close>

lemma pc_ok_frame:
  assumes "pc_ok q elog pc" "\<And>a. owned pc = Some a \<Longrightarrow> slot q a \<noteq> i"
  shows "pc_ok (q\<lparr>vals := (vals q)[i := v]\<rparr>) elog pc"
    "i < length (p_counts q) \<Longrightarrow> enq_ticket_of pc \<noteq> Some x \<Longrightarrow>
       pc_ok (q\<lparr>p_counts := (p_counts q)[i := x]\<rparr>) elog pc"
    "i < length (c_counts q) \<Longrightarrow> (\<And>c. deq_ticket_of pc = Some c \<Longrightarrow> unat x \<noteq> unat c + cap_of q) \<Longrightarrow>
       pc_ok (q\<lparr>c_counts := (c_counts q)[i := x]\<rparr>) elog pc"
  using assms by (cases pc; force simp: writable_def readable_def slot_def nth_list_update)+

section \<open>Every step keeps the invariant\<close>


lemma slot_simps [simp]:
  "slot (q\<lparr>vals := x\<rparr>) t = slot q t" "slot (q\<lparr>p_counts := y\<rparr>) t = slot q t"
  "slot (q\<lparr>c_counts := z\<rparr>) t = slot q t" "slot (q\<lparr>is_closed := b\<rparr>) t = slot q t"
  by (simp_all add: slot_def)

lemma queue_ok_Suc: "queue_ok k q \<Longrightarrow> queue_ok (Suc k) q"
  by (auto simp: queue_ok_def)

lemma queue_ok_slot: "queue_ok k q \<Longrightarrow> slot q a < cap_of q"
  by (simp add: queue_ok_def slot_eq)

lemma pc_ok_p_count [simp]: "pc_ok (q\<lparr>p_count := x\<rparr>) elog pc = pc_ok q elog pc"
  "pc_ok (q\<lparr>c_count := x\<rparr>) elog pc = pc_ok q elog pc"
  "pc_ok (q\<lparr>is_closed := b\<rparr>) elog pc = pc_ok q elog pc"
  by (cases pc; simp add: writable_def readable_def)+

lemma pc_ok_log:
  assumes "pc_ok q elog pc" "\<And>j v. elog j = Some v \<Longrightarrow> elog' j = Some v"
  shows "pc_ok q elog' pc"
  using assms(1) by (cases pc) (simp_all add: assms(2))

lemma slot_ok_counts [simp]: "slot_ok (q\<lparr>p_count := x\<rparr>) elog i = slot_ok q elog i"
  "slot_ok (q\<lparr>c_count := x\<rparr>) elog i = slot_ok q elog i"
  "slot_ok (q\<lparr>is_closed := b\<rparr>) elog i = slot_ok q elog i"
  by (simp_all add: slot_ok_def)

lemma enq_ticket_unique:
  "tickets_ok s \<Longrightarrow> enq_ticket_of (pcs s t) = Some p \<Longrightarrow> enq_ticket_of (pcs s t') = Some p \<Longrightarrow> t = t'"
  unfolding tickets_ok_def by blast

lemma deq_ticket_unique:
  "tickets_ok s \<Longrightarrow> deq_ticket_of (pcs s t) = Some c \<Longrightarrow> deq_ticket_of (pcs s t') = Some c \<Longrightarrow> t = t'"
  unfolding tickets_ok_def by blast

lemma enq_ticket_bounds:
  "tickets_ok s \<Longrightarrow> enq_ticket_of (pcs s t) = Some p \<Longrightarrow>
   cap_of (shared s) \<le> unat p \<and> p \<le> p_count (shared s)"
  unfolding tickets_ok_def by blast

lemma deq_ticket_bounds:
  "tickets_ok s \<Longrightarrow> deq_ticket_of (pcs s t) = Some c \<Longrightarrow>
   cap_of (shared s) \<le> unat c \<and> c \<le> c_count (shared s) \<and> deq_log s (unat c) = None"
  unfolding tickets_ok_def by blast

lemma tickets_ok_move:
  assumes "tickets_ok s"
    and "enq_ticket_of pc = None \<or> enq_ticket_of pc = enq_ticket_of (pcs s t)"
    and "deq_ticket_of pc = None \<or> deq_ticket_of pc = deq_ticket_of (pcs s t)"
    and "p_count q = p_count (shared s)" "c_count q = c_count (shared s)"
      "capacity q = capacity (shared s)"
  shows "tickets_ok (s\<lparr>shared := q, pcs := (pcs s)(t := pc)\<rparr>)"
  using assms unfolding tickets_ok_def by (auto; metis option.distinct(1))

lemma conc_inv_move:
  assumes inv: "conc_inv k s"
    and "enq_ticket_of pc = None \<or> enq_ticket_of pc = enq_ticket_of (pcs s t)"
    and "deq_ticket_of pc = None \<or> deq_ticket_of pc = deq_ticket_of (pcs s t)"
    and "pc_ok (shared s) (enq_log s) pc"
  shows "conc_inv (Suc k) (s\<lparr>pcs := (pcs s)(t := pc)\<rparr>)"
proof -
  note ok = conc_inv_parts [OF inv]
  have "tickets_ok (s\<lparr>pcs := (pcs s)(t := pc)\<rparr>)"
    using tickets_ok_move [OF ok(2) assms(2,3), of "shared s"] by simp
  with ok assms(4) show ?thesis
    by (simp add: conc_inv_def queue_ok_Suc logs_ok_def)
qed

lemma unat_inc:
  assumes "queue_ok k q" "Suc k < 2 ^ 62"
  shows "unat (p_count q + 1) = Suc (unat (p_count q))" "unat (c_count q + 1) = Suc (unat (c_count q))"
  using assms by (auto intro!: unat_Suc_no_wrap simp: queue_ok_def)

lemma conc_inv_enq_ticket:
  assumes inv: "conc_inv k s" and "pcs s t = Idle" and k: "Suc k < 2 ^ 62"
    and p: "p = p_count (shared s) + 1"
  shows "conc_inv (Suc k) (s\<lparr>shared := (shared s)\<lparr>p_count := p\<rparr>,
     pcs := (pcs s)(t := EnqSpin p v), enq_log := (enq_log s)(unat p \<mapsto> v)\<rparr>)"
proof -
  note ok = conc_inv_parts [OF inv]
  have p': "unat p = Suc (unat (p_count (shared s)))"
    using unat_inc(1) [OF ok(1) k] p by simp
  have fresh: "enq_log s (unat p) = None" using ok(3) p' by (simp add: logs_ok_def)
  then have log: "enq_log s j = Some x \<Longrightarrow> ((enq_log s)(unat p \<mapsto> v)) j = Some x" for j x
    by auto
  have le: "x \<le> p_count (shared s) \<Longrightarrow> x \<le> p \<and> x \<noteq> p" for x
    using p' by (auto simp: word_le_nat_alt)
  have q: "queue_ok (Suc k) (shared s\<lparr>p_count := p\<rparr>)"
    using ok(1) p' le by (auto simp: queue_ok_def)
  have t: "tickets_ok (s\<lparr>shared := (shared s)\<lparr>p_count := p\<rparr>,
     pcs := (pcs s)(t := EnqSpin p v), enq_log := (enq_log s)(unat p \<mapsto> v)\<rparr>)"
    using ok(2) le ok(1) p' assms(2) unfolding tickets_ok_def queue_ok_def
    by (auto; metis le_Suc_eq)
  have l: "logs_ok (s\<lparr>shared := (shared s)\<lparr>p_count := p\<rparr>,
     pcs := (pcs s)(t := EnqSpin p v), enq_log := (enq_log s)(unat p \<mapsto> v)\<rparr>)"
    using ok(3) p' log fresh unfolding logs_ok_def by auto
  have sl: "slot_ok (shared s) ((enq_log s)(unat p \<mapsto> v)) i" if "i < cap_of (shared s)" for i
    using ok(4) [OF that] fresh by (auto simp: slot_ok_def Let_def)
  have pc: "pc_ok (shared s) ((enq_log s)(unat p \<mapsto> v)) (pcs s t')" for t'
    using ok(5) by (rule pc_ok_log) (rule log)
  have "p_counts (shared s) ! slot (shared s) p \<noteq> p"
    using ok(1) le queue_ok_slot [OF ok(1), of p] by (auto simp: queue_ok_def)
  with q t l sl pc show ?thesis by (simp add: conc_inv_def)
qed

lemma conc_inv_deq_ticket:
  assumes inv: "conc_inv k s" and "pcs s t = Idle" and k: "Suc k < 2 ^ 62"
    and c: "c = c_count (shared s) + 1"
  shows "conc_inv (Suc k) (s\<lparr>shared := (shared s)\<lparr>c_count := c\<rparr>,
     pcs := (pcs s)(t := DeqSpin c)\<rparr>)"
proof -
  note ok = conc_inv_parts [OF inv]
  have c': "unat c = Suc (unat (c_count (shared s)))"
    using unat_inc(2) [OF ok(1) k] c by simp
  have fresh: "deq_log s (unat c) = None" using ok(3) c' by (simp add: logs_ok_def)
  have le: "x \<le> c_count (shared s) \<Longrightarrow> x \<le> c \<and> x \<noteq> c" for x
    using c' by (auto simp: word_le_nat_alt)
  have q: "queue_ok (Suc k) (shared s\<lparr>c_count := c\<rparr>)"
    using ok(1) c' by (auto simp: queue_ok_def)
  have t: "tickets_ok (s\<lparr>shared := (shared s)\<lparr>c_count := c\<rparr>, pcs := (pcs s)(t := DeqSpin c)\<rparr>)"
    using ok(2) le ok(1) c' fresh assms(2) unfolding tickets_ok_def queue_ok_def
    by (auto; metis le_Suc_eq)
  have l: "logs_ok (s\<lparr>shared := (shared s)\<lparr>c_count := c\<rparr>, pcs := (pcs s)(t := DeqSpin c)\<rparr>)"
    using ok(3) c' unfolding logs_ok_def by auto
  have "unat (c_counts (shared s) ! slot (shared s) c) \<noteq> unat c + cap_of (shared s)"
    using ok(1) c' queue_ok_slot [OF ok(1), of c] by (force simp: queue_ok_def)
  with q t l ok show ?thesis by (simp add: conc_inv_def)
qed

lemma conc_inv_enq_store:
  assumes inv: "conc_inv k s" and pc: "pcs s t = EnqStore p v"
  shows "conc_inv (Suc k) (s\<lparr>shared := (shared s)\<lparr>vals := (vals (shared s))[slot (shared s) p := v]\<rparr>,
                 pcs := (pcs s)(t := EnqPublish p v)\<rparr>)" (is "conc_inv _ ?s")
proof -
  note ok = conc_inv_parts [OF inv]
  let ?q = "shared s" let ?i = "slot ?q p"
  have i: "?i < cap_of ?q" "?i < length (vals ?q)"
    using ok(1) queue_ok_slot by (auto simp: queue_ok_def)
  have mine: "writable ?q p" "enq_log s (unat p) = Some v"
    using ok(5) [of t] pc by simp_all
  have other: "pc_ok (?q\<lparr>vals := (vals ?q)[?i := v]\<rparr>) (enq_log s) (pcs s t')" if "t' \<noteq> t" for t'
    using owned_slots_differ [OF inv _ _ that, of _ p] pc ok(5)
    by (intro pc_ok_frame) auto
  have sl: "slot_ok (?q\<lparr>vals := (vals ?q)[?i := v]\<rparr>) (enq_log s) j" if "j < cap_of ?q" for j
    using ok(4) [OF that] mine ok(1) by (cases "j = ?i") (auto simp: slot_ok_def Let_def writable_def queue_ok_def)
  have "tickets_ok ?s"
    using ok(2) pc by (intro tickets_ok_move) auto
  moreover have "logs_ok ?s" using ok(3) by (simp add: logs_ok_def)
  moreover have "queue_ok (Suc k) (shared ?s)"
    using ok(1) i by (auto simp: queue_ok_def nth_list_update)
  ultimately show ?thesis using sl other mine i
    by (simp add: conc_inv_def writable_def)
qed

lemma conc_inv_enq_publish:
  assumes inv: "conc_inv k s" and pc: "pcs s t = EnqPublish p v"
  shows "conc_inv (Suc k) (s\<lparr>shared := (shared s)\<lparr>p_counts := (p_counts (shared s))[slot (shared s) p := p]\<rparr>,
                 pcs := (pcs s)(t := Idle)\<rparr>)" (is "conc_inv _ ?s")
proof -
  note ok = conc_inv_parts [OF inv]
  let ?q = "shared s" let ?i = "slot ?q p"
  have i: "?i < cap_of ?q" "?i < length (p_counts ?q)"
    using ok(1) queue_ok_slot by (auto simp: queue_ok_def)
  have mine: "writable ?q p" "enq_log s (unat p) = Some v" "vals ?q ! ?i = v"
    using ok(5) [of t] pc by simp_all
  have ple: "p \<le> p_count ?q" using enq_ticket_bounds [OF ok(2), of t p] pc by simp
  have other: "pc_ok (?q\<lparr>p_counts := (p_counts ?q)[?i := p]\<rparr>) (enq_log s) (pcs s t')" if "t' \<noteq> t" for t'
  proof (rule pc_ok_frame(2) [OF ok(5) _ i(2)])
    show "slot ?q a \<noteq> ?i" if "owned (pcs s t') = Some a" for a
      using owned_slots_differ [OF inv that _ \<open>t' \<noteq> t\<close>, of p] pc by simp
    show "enq_ticket_of (pcs s t') \<noteq> Some p"
      using enq_ticket_unique [OF ok(2), of t' p t] pc \<open>t' \<noteq> t\<close> by (metis enq_ticket_of.simps(3))
  qed
  have sl: "slot_ok (?q\<lparr>p_counts := (p_counts ?q)[?i := p]\<rparr>) (enq_log s) j" if "j < cap_of ?q" for j
    using ok(4) [OF that] mine i by (cases "j = ?i") (auto simp: slot_ok_def Let_def writable_def)
  have "tickets_ok ?s"
    using ok(2) pc by (intro tickets_ok_move) auto
  moreover have "logs_ok ?s" using ok(3) by (simp add: logs_ok_def)
  moreover have "queue_ok (Suc k) (shared ?s)"
    using ok(1) ple i by (auto simp: queue_ok_def nth_list_update)
  ultimately show ?thesis using sl other mine i
    by (simp add: conc_inv_def writable_def)
qed

lemma conc_inv_deq_release:
  assumes inv: "conc_inv k s" and pc: "pcs s t = DeqRelease c v" and k: "Suc k < 2 ^ 62"
  shows "conc_inv (Suc k) (s\<lparr>shared := (shared s)\<lparr>c_counts := (c_counts (shared s))
                   [slot (shared s) c := c + ucast (capacity (shared s))]\<rparr>,
                 pcs := (pcs s)(t := Idle), deq_log := (deq_log s)(unat c \<mapsto> v)\<rparr>)" (is "conc_inv _ ?s")
proof -
  note ok = conc_inv_parts [OF inv]
  let ?q = "shared s" let ?i = "slot ?q c" let ?x = "c + ucast (capacity ?q)"
  have i: "?i < cap_of ?q" "?i < length (c_counts ?q)"
    using ok(1) queue_ok_slot by (auto simp: queue_ok_def)
  have mine: "readable ?q c" "enq_log s (unat c) = Some v"
    using ok(5) [of t] pc by simp_all
  have c: "cap_of ?q \<le> unat c" "unat c \<le> unat (c_count ?q)"
    using deq_ticket_bounds [OF ok(2), of t c] pc by (simp_all add: word_le_nat_alt)
  have x: "unat ?x = unat c + cap_of ?q"
    using c ok(1) k by (subst unat_add_no_wrap) (auto simp: unat_ucast_u32_u64 queue_ok_def)
  have other: "pc_ok (?q\<lparr>c_counts := (c_counts ?q)[?i := ?x]\<rparr>) (enq_log s) (pcs s t')" if "t' \<noteq> t" for t'
  proof (rule pc_ok_frame(3) [OF ok(5) _ i(2)])
    show "slot ?q a \<noteq> ?i" if "owned (pcs s t') = Some a" for a
      using owned_slots_differ [OF inv that _ \<open>t' \<noteq> t\<close>, of c] pc by simp
    show "unat ?x \<noteq> unat d + cap_of ?q" if "deq_ticket_of (pcs s t') = Some d" for d
    proof
      assume "unat ?x = unat d + cap_of ?q"
      then have "d = c" by (simp add: x word_unat_eq_iff)
      then show False
        using deq_ticket_unique [OF ok(2) that [unfolded \<open>d = c\<close>], of t] pc \<open>t' \<noteq> t\<close> by simp
    qed
  qed
  have sl: "slot_ok (?q\<lparr>c_counts := (c_counts ?q)[?i := ?x]\<rparr>) (enq_log s) j" if "j < cap_of ?q" for j
    using ok(4) [OF that] mine i x by (cases "j = ?i") (auto simp: slot_ok_def Let_def readable_def)
  have "tickets_ok ?s"
    unfolding tickets_ok_def
  proof (intro conjI allI impI)
    fix t' a assume a: "deq_ticket_of (pcs ?s t') = Some a"
    then have t': "t' \<noteq> t" "deq_ticket_of (pcs s t') = Some a" by (auto split: if_splits)
    then have "a \<noteq> c" using deq_ticket_unique [OF ok(2) t'(2), of t] pc by auto
    then have "unat a \<noteq> unat c" by (simp add: word_unat_eq_iff)
    with deq_ticket_bounds [OF ok(2) t'(2)] show "deq_log ?s (unat a) = None"
      "a \<le> c_count (shared ?s)" "cap_of (shared ?s) \<le> unat a" by simp_all
  qed (use enq_ticket_bounds [OF ok(2)] enq_ticket_unique [OF ok(2)] deq_ticket_unique [OF ok(2)]
    in \<open>auto split: if_splits\<close>)
  moreover have "logs_ok ?s"
    using ok(3) c mine by (auto simp: logs_ok_def)
  moreover have "queue_ok (Suc k) (shared ?s)"
    using ok(1) i c x by (auto simp: queue_ok_def nth_list_update)
  ultimately show ?thesis using sl other by (simp add: conc_inv_def)
qed

lemma conc_inv_enq_go:
  assumes inv: "conc_inv k s" and pc: "pcs s t = EnqSpin p v"
    and hit: "c_counts (shared s) ! slot (shared s) p = p"
  shows "conc_inv (Suc k) (s\<lparr>pcs := (pcs s)(t := EnqStore p v)\<rparr>)"
proof -
  note ok = conc_inv_parts [OF inv]
  have "slot_ok (shared s) (enq_log s) (slot (shared s) p)"
    using ok(1) by (intro ok(4) queue_ok_slot)
  moreover have "p_counts (shared s) ! slot (shared s) p \<noteq> p" "enq_log s (unat p) = Some v"
    using ok(5) [of t] pc by simp_all
  ultimately have "pc_ok (shared s) (enq_log s) (EnqStore p v)"
    using hit by (auto simp: slot_ok_def Let_def writable_def word_unat_eq_iff)
  then show ?thesis using pc by (intro conc_inv_move [OF inv]) auto
qed

lemma conc_inv_deq_go:
  assumes inv: "conc_inv k s" and pc: "pcs s t = DeqSpin c"
    and hit: "p_counts (shared s) ! slot (shared s) c = c"
  shows "conc_inv (Suc k) (s\<lparr>pcs := (pcs s)(t := DeqTake c)\<rparr>)"
proof -
  note ok = conc_inv_parts [OF inv]
  have "slot_ok (shared s) (enq_log s) (slot (shared s) c)"
    using ok(1) by (intro ok(4) queue_ok_slot)
  moreover have "unat (c_counts (shared s) ! slot (shared s) c) \<noteq> unat c + cap_of (shared s)"
    using ok(5) [of t] pc by simp
  ultimately have "pc_ok (shared s) (enq_log s) (DeqTake c)"
    using hit by (auto simp: slot_ok_def Let_def readable_def word_unat_eq_iff)
  then show ?thesis using pc by (intro conc_inv_move [OF inv]) auto
qed

lemma conc_inv_deq_take:
  assumes inv: "conc_inv k s" and pc: "pcs s t = DeqTake c"
  shows "conc_inv (Suc k)
    (s\<lparr>pcs := (pcs s)(t := DeqRelease c (vals (shared s) ! slot (shared s) c))\<rparr>)"
proof -
  note ok = conc_inv_parts [OF inv]
  have "slot_ok (shared s) (enq_log s) (slot (shared s) c)"
    using ok(1) by (intro ok(4) queue_ok_slot)
  moreover have "readable (shared s) c"
    using ok(5) [of t] pc by simp
  ultimately have "pc_ok (shared s) (enq_log s) (DeqRelease c (vals (shared s) ! slot (shared s) c))"
    using ok(1) by (auto simp: slot_ok_def Let_def readable_def queue_ok_def)
  then show ?thesis using pc by (intro conc_inv_move [OF inv]) auto
qed

lemma conc_inv_step:
  assumes inv: "conc_inv k s" and "lfq_step s s'" and k: "Suc k < 2 ^ 62"
  shows "conc_inv (Suc k) s'"
  using assms(2)
proof (cases rule: lfq_step.cases)
  case close_queue
  then show ?thesis using conc_inv_parts [OF inv]
    by (simp add: conc_inv_def close_def tickets_ok_def logs_ok_def queue_ok_def)
next
  case enq_abort
  then show ?thesis by (auto intro!: conc_inv_move [OF inv])
next
  case deq_abort
  then show ?thesis by (auto intro!: conc_inv_move [OF inv])
qed (simp_all only: conc_inv_enq_ticket [OF inv _ k] conc_inv_deq_ticket [OF inv _ k]
  conc_inv_enq_go [OF inv] conc_inv_deq_go [OF inv] conc_inv_deq_take [OF inv]
  conc_inv_enq_store [OF inv] conc_inv_enq_publish [OF inv] conc_inv_deq_release [OF inv _ k])


section \<open>Runs\<close>

lemma conc_inv_start:
  assumes "lfq_start s"
  shows "conc_inv 0 s"
proof -
  obtain raw cap where cap: "0 < unat cap" "unat cap \<le> 2 ^ 31" and q: "shared s = new_lfqueue raw cap"
    and rest: "pcs s = (\<lambda>_. Idle)" "enq_log s = Map.empty" "deq_log s = Map.empty"
    using assms by (auto simp: lfq_start_def)
  let ?n = "unat cap"
  have i: "unat (of_nat i :: u32) = i" if "i < ?n" for i
    using that unat_u32_less [of cap] by (intro unat_of_nat_u32) linarith
  have sum: "unat ((of_nat i :: u32) + cap) = i + ?n" if "i < ?n" for i
    using that cap(2) i [OF that] by (subst unat_add_no_wrap) auto
  have "queue_ok 0 (new_lfqueue raw cap)"
    using cap i sum by (auto simp: queue_ok_def new_lfqueue_def unat_u32_pred unat_ucast_u32_u64 word_le_nat_alt)
  moreover have "slot_ok (new_lfqueue raw cap) elog j" if "j < ?n" for j elog
    using that i sum by (simp add: slot_ok_def new_lfqueue_def Let_def unat_ucast_u32_u64)
  ultimately show ?thesis
    using rest by (simp add: conc_inv_def q tickets_ok_def logs_ok_def) (simp add: new_lfqueue_def)
qed

interpretation lfq_runs: invariant_system lfq_start lfq_step "\<lambda>n. n < 2 ^ 62" conc_inv
  by unfold_locales (auto intro: conc_inv_start conc_inv_step)

text \<open>No two threads are ever inside the same slot of \<open>values\<close>.\<close>

definition race_free :: "'a lfq_sys \<Rightarrow> bool" where
  "race_free s \<longleftrightarrow> (\<forall>t t' a b. t \<noteq> t' \<and> owned (pcs s t) = Some a \<and> owned (pcs s t') = Some b \<longrightarrow>
     slot (shared s) a \<noteq> slot (shared s) b)"

text \<open>A run of two threads, for the witnesses: thread 0 enqueues 7, thread 1 dequeues it.\<close>

definition demo_start :: "u32 lfq_sys" where
  "demo_start = \<lparr>shared = new_lfqueue (\<lambda>_. 0) 1, pcs = (\<lambda>_. Idle), enq_log = Map.empty,
     deq_log = Map.empty\<rparr>"

abbreviation "demo_q \<equiv> \<lparr>p_count = 0, c_count = 0, vals = [0], c_counts = [1], p_counts = [0],
  capacity = 1, is_closed = False\<rparr> :: u32 lfqueue"

definition demo_mid :: "u32 lfq_sys" where
  "demo_mid = \<lparr>shared = demo_q\<lparr>p_count := 1, c_count := 1, vals := [7], p_counts := [1]\<rparr>,
     pcs = (\<lambda>_. Idle)(1 := DeqRelease 1 7), enq_log = [1 \<mapsto> 7], deq_log = Map.empty\<rparr>"

definition demo_end :: "u32 lfq_sys" where
  "demo_end = demo_mid\<lparr>shared := (shared demo_mid)\<lparr>c_counts := [2]\<rparr>, pcs := (\<lambda>_. Idle),
     deq_log := [1 \<mapsto> 7]\<rparr>"

lemma demo_start_q: "shared demo_start = demo_q"
  by (simp add: demo_start_def new_lfqueue_def)

lemma demo_enq: "enqueue demo_q 7 = Inr (demo_q\<lparr>p_count := 1, vals := [7], p_counts := [1]\<rparr>)"
  by (simp add: enqueue_def Let_def slot_eq)

lemma reach_rtranclp:
  assumes "reach start step n s" "step\<^sup>*\<^sup>* s t"
  shows "\<exists>m. reach start step m t"
  using assms(2,1) by (induction) (auto intro: reach_step)

lemma demo_reach_mid: "reach lfq_start lfq_step 7 demo_mid"
proof -
  let ?s0 = "demo_start"
  let ?s1 = "?s0\<lparr>shared := demo_q\<lparr>p_count := 1\<rparr>, pcs := (\<lambda>_. Idle)(0 := EnqSpin 1 7), enq_log := [1 \<mapsto> 7]\<rparr>"
  let ?s2 = "?s1\<lparr>pcs := (\<lambda>_. Idle)(0 := EnqStore 1 7)\<rparr>"
  let ?s3 = "?s1\<lparr>shared := demo_q\<lparr>p_count := 1, vals := [7]\<rparr>, pcs := (\<lambda>_. Idle)(0 := EnqPublish 1 7)\<rparr>"
  let ?s4 = "?s1\<lparr>shared := demo_q\<lparr>p_count := 1, vals := [7], p_counts := [1]\<rparr>, pcs := (\<lambda>_. Idle)\<rparr>"
  let ?s5 = "?s4\<lparr>shared := demo_q\<lparr>p_count := 1, c_count := 1, vals := [7], p_counts := [1]\<rparr>,
    pcs := (\<lambda>_. Idle)(1 := DeqSpin 1)\<rparr>"
  let ?s6 = "?s5\<lparr>pcs := (\<lambda>_. Idle)(1 := DeqTake 1)\<rparr>"
  have "reach lfq_start lfq_step 0 ?s0"
    by (rule reach_start) (auto simp: lfq_start_def demo_start_def intro!: exI [of _ "1 :: u32"])
  moreover have "lfq_step ?s0 ?s1"
    using lfq_step.enq_ticket [of ?s0 0 1 7] demo_start_q by (simp add: demo_start_def)
  moreover have "lfq_step ?s1 ?s2"
    using lfq_step.enq_go [of ?s1 0 1 7] by (simp add: slot_eq)
  moreover have "lfq_step ?s2 ?s3"
    using lfq_step.enq_store [of ?s2 0 1 7] by (simp add: slot_eq)
  moreover have "lfq_step ?s3 ?s4"
    using lfq_step.enq_publish [of ?s3 0 1 7] by (simp add: slot_eq fun_upd_idem)
  moreover have "lfq_step ?s4 ?s5"
    using lfq_step.deq_ticket [of ?s4 1 1] by simp
  moreover have "lfq_step ?s5 ?s6"
    using lfq_step.deq_go [of ?s5 1 1] by (simp add: slot_eq)
  moreover have "lfq_step ?s6 demo_mid"
    using lfq_step.deq_take [of ?s6 1 1] by (simp add: slot_eq demo_mid_def demo_start_def)
  ultimately have "reach lfq_start lfq_step (Suc (Suc (Suc (Suc (Suc (Suc (Suc 0))))))) demo_mid"
    by (blast intro: reach_step)
  then show ?thesis by (simp add: numeral_eq_Suc)
qed

lemma demo_reach_end: "reach lfq_start lfq_step 8 demo_end"
proof -
  have "lfq_step demo_mid demo_end"
    using lfq_step.deq_release [of demo_mid 1 1 7] 
    by (simp add: demo_mid_def demo_end_def slot_eq fun_upd_idem)
  from reach_step [OF demo_reach_mid this] show ?thesis by simp
qed

text \<open>C26. Data-race freedom: in every state that any interleaving of enqueues, dequeues and a close can
  reach, two different threads never hold the same slot of the non-atomic array \<open>values\<close>.\<close>
theorem lfqueue_race_free:
  assumes "reach lfq_start lfq_step n s" "n < 2 ^ 62"
  shows "race_free s"
  using owned_slots_differ [OF lfq_runs.reach_inv [OF assms]] unfolding race_free_def by blast

theorem lfqueue_race_free_witness: "race_free demo_mid \<and> owned (pcs demo_mid 1) = Some 1"
  using lfqueue_race_free [OF demo_reach_mid] by (simp add: demo_mid_def)

text \<open>C27. Every value a dequeue ever returns from a slot is the value that the enqueue with the same
  ticket was called with; tickets are handed out in call order, so the queue is first in,
  first out under every interleaving, and nothing is returned twice or made up.\<close>
theorem lfqueue_delivery:
  assumes "reach lfq_start lfq_step n s" "n < 2 ^ 62"
  shows "deq_log s \<subseteq>\<^sub>m enq_log s"
  using conc_inv_parts(3) [OF lfq_runs.reach_inv [OF assms]]
  by (auto simp: logs_ok_def map_le_def dom_def)

theorem lfqueue_delivery_witness:
  "deq_log demo_end \<subseteq>\<^sub>m enq_log demo_end \<and> deq_log demo_end 1 = Some 7"
  using lfqueue_delivery [OF demo_reach_end] by (simp add: demo_end_def)

lemma four_steps:
  assumes "r a b" "r b c" "r c d" "r d e"
  shows "r\<^sup>*\<^sup>* a e"
  using assms by (meson converse_rtranclp_into_rtranclp rtranclp.rtrancl_refl)

lemma enqueue_hit:
  assumes "enqueue q v = Inr q'" "\<not> is_closed q"
  shows "c_counts q ! slot q (p_count q + 1) = p_count q + 1"
    "q' = q\<lparr>p_count := p_count q + 1, vals := (vals q)[slot q (p_count q + 1) := v],
       p_counts := (p_counts q)[slot q (p_count q + 1) := p_count q + 1]\<rparr>"
  using assms by (auto simp: enqueue_def Let_def split: if_splits)

lemma dequeue_hit:
  assumes "dequeue q = Inr (v, q')" "\<not> is_closed q"
  shows "p_counts q ! slot q (c_count q + 1) = c_count q + 1"
    "v = vals q ! slot q (c_count q + 1)"
    "q' = q\<lparr>c_count := c_count q + 1, c_counts := (c_counts q)
       [slot q (c_count q + 1) := c_count q + 1 + ucast (capacity q)]\<rparr>"
  using assms by (auto simp: dequeue_def Let_def split: if_splits)

text \<open>The sequential model is the interleaved one run without interruption: when \<open>enqueue\<close> returns on
  an open queue, an idle thread can take exactly those steps and leave exactly that queue.\<close>
theorem enqueue_is_solo_run:
  assumes "pcs s t = Idle" "\<not> is_closed (shared s)" "enqueue (shared s) v = Inr q'"
  shows "lfq_step\<^sup>*\<^sup>* s (s\<lparr>shared := q', enq_log := (enq_log s)(unat (p_count q') \<mapsto> v)\<rparr>)"
proof -
  let ?q = "shared s" let ?p = "p_count ?q + 1"
  note hit = enqueue_hit [OF assms(3,2)]
  let ?s1 = "s\<lparr>shared := ?q\<lparr>p_count := ?p\<rparr>, pcs := (pcs s)(t := EnqSpin ?p v),
                 enq_log := (enq_log s)(unat ?p \<mapsto> v)\<rparr>"
  let ?s2 = "?s1\<lparr>pcs := (pcs ?s1)(t := EnqStore ?p v)\<rparr>"
  let ?s3 = "?s2\<lparr>shared := (shared ?s2)\<lparr>vals := (vals (shared ?s2))[slot (shared ?s2) ?p := v]\<rparr>,
                 pcs := (pcs ?s2)(t := EnqPublish ?p v)\<rparr>"
  let ?s4 = "?s3\<lparr>shared := (shared ?s3)\<lparr>p_counts := (p_counts (shared ?s3))[slot (shared ?s3) ?p := ?p]\<rparr>,
                 pcs := (pcs ?s3)(t := Idle)\<rparr>"
  have 1: "lfq_step s ?s1" using assms(1) by (rule lfq_step.enq_ticket) simp
  have 2: "lfq_step ?s1 ?s2" using hit(1) by (intro lfq_step.enq_go) auto
  have 3: "lfq_step ?s2 ?s3" by (intro lfq_step.enq_store) simp
  have 4: "lfq_step ?s3 ?s4" by (intro lfq_step.enq_publish) simp
  have "?s4 = s\<lparr>shared := q', enq_log := (enq_log s)(unat (p_count q') \<mapsto> v)\<rparr>"
    using hit(2) assms(1) by (simp add: slot_def fun_upd_idem)
  then show ?thesis
    using four_steps [of lfq_step, OF 1 2 3 4] by simp
qed


theorem enqueue_is_solo_run_witness:
  "\<exists>s'. lfq_step\<^sup>*\<^sup>* demo_start s' \<and> contents (shared s') = [7]"
proof -
  have "pcs demo_start 0 = Idle" "\<not> is_closed (shared demo_start)"
    by (simp_all add: demo_start_def new_lfqueue_def)
  from enqueue_is_solo_run [OF this demo_enq [folded demo_start_q]]
  have "\<exists>l. lfq_step\<^sup>*\<^sup>* demo_start (demo_start\<lparr>shared := demo_q\<lparr>p_count := 1, vals := [7],
      p_counts := [1]\<rparr>, enq_log := l\<rparr>)" unfolding demo_start_q by blast
  then show ?thesis by (force simp: contents_def)
qed

text \<open>Likewise a \<open>dequeue\<close> that returns on an open queue is an uninterrupted run of one idle
  thread, and the value it returns is the one logged for its ticket.\<close>
theorem dequeue_is_solo_run:
  assumes "pcs s t = Idle" "\<not> is_closed (shared s)" "dequeue (shared s) = Inr (v, q')"
  shows "lfq_step\<^sup>*\<^sup>* s (s\<lparr>shared := q', deq_log := (deq_log s)(unat (c_count q') \<mapsto> v)\<rparr>)"
proof -
  let ?q = "shared s" let ?c = "c_count ?q + 1"
  note hit = dequeue_hit [OF assms(3,2)]
  let ?s1 = "s\<lparr>shared := ?q\<lparr>c_count := ?c\<rparr>, pcs := (pcs s)(t := DeqSpin ?c)\<rparr>"
  let ?s2 = "?s1\<lparr>pcs := (pcs ?s1)(t := DeqTake ?c)\<rparr>"
  let ?s3 = "?s2\<lparr>pcs := (pcs ?s2)(t := DeqRelease ?c (vals (shared ?s2) ! slot (shared ?s2) ?c))\<rparr>"
  let ?s4 = "?s3\<lparr>shared := (shared ?s3)\<lparr>c_counts := (c_counts (shared ?s3))
                   [slot (shared ?s3) ?c := ?c + ucast (capacity (shared ?s3))]\<rparr>,
                 pcs := (pcs ?s3)(t := Idle), deq_log := (deq_log ?s3)(unat ?c \<mapsto> v)\<rparr>"
  have 1: "lfq_step s ?s1" using assms(1) by (rule lfq_step.deq_ticket) simp
  have 2: "lfq_step ?s1 ?s2" using hit(1) by (intro lfq_step.deq_go) auto
  have 3: "lfq_step ?s2 ?s3" by (intro lfq_step.deq_take) simp
  have 4: "lfq_step ?s3 ?s4" using hit(2) by (intro lfq_step.deq_release) (simp add: slot_def)
  have "?s4 = s\<lparr>shared := q', deq_log := (deq_log s)(unat (c_count q') \<mapsto> v)\<rparr>"
    using hit(3) assms(1) by (simp add: slot_def fun_upd_idem)
  then show ?thesis
    using four_steps [of lfq_step, OF 1 2 3 4] by simp
qed

definition demo_full :: "u32 lfq_sys" where
  "demo_full = \<lparr>shared = demo_q\<lparr>p_count := 1, vals := [7], p_counts := [1]\<rparr>,
     pcs = (\<lambda>_. Idle), enq_log = [1 \<mapsto> 7], deq_log = Map.empty\<rparr>"

theorem dequeue_is_solo_run_witness:
  "\<exists>s'. lfq_step\<^sup>*\<^sup>* demo_full s' \<and> deq_log s' 1 = Some 7"
proof -
  have "dequeue (shared demo_full) = Inr (7, (shared demo_full)\<lparr>c_count := 1, c_counts := [2]\<rparr>)"
    by (simp add: demo_full_def dequeue_def Let_def slot_eq)
  from dequeue_is_solo_run [OF _ _ this, of 0]
  have "lfq_step\<^sup>*\<^sup>* demo_full (demo_full\<lparr>shared := (shared demo_full)\<lparr>c_count := 1, c_counts := [2]\<rparr>,
      deq_log := [1 \<mapsto> 7]\<rparr>)"
    by (simp add: demo_full_def)
  then show ?thesis by force
qed

end
