(* ===== verification/Double.thy ===== *)
theory Double
  imports Prelude "HOL-Library.Log_Nat"
begin

text \<open>
  Double precision arithmetic as the program uses it: finite values, far from the limits of the
  exponent. A value is the rational number it stands for; every operation is the exact one
  followed by rounding to 53 significant bits, to nearest with ties to even.
\<close>

section \<open>Rounding\<close>

definition round_even :: "rat \<Rightarrow> int" where
  "round_even y = (let f = \<lfloor>y\<rfloor>; d = y - of_int f in
     if d < 1 / 2 then f else if d > 1 / 2 then f + 1 else if even f then f else f + 1)"

definition pow2 :: "int \<Rightarrow> rat" where
  "pow2 e = (if 0 \<le> e then 2 ^ nat e else 1 / 2 ^ nat (- e))"

text \<open>The position of the leading bit of a positive number.\<close>

definition lead :: "rat \<Rightarrow> int" where
  "lead x = (let (p, q) = quotient_of x; e = bitlen p - bitlen q in if pow2 e \<le> x then e else e - 1)"

definition rnd_pos :: "rat \<Rightarrow> rat" where
  "rnd_pos x = (let e = lead x - 52 in of_int (round_even (x / pow2 e)) * pow2 e)"

definition rnd :: "rat \<Rightarrow> rat" where
  "rnd x = (if x = 0 then 0 else if x < 0 then - rnd_pos (- x) else rnd_pos x)"

text \<open>The operations, the conversions from integers, and the one to integers, which truncates.\<close>

definition dbl :: "int \<Rightarrow> rat" where "dbl n = rnd (of_int n)"
definition dadd :: "rat \<Rightarrow> rat \<Rightarrow> rat" where "dadd x y = rnd (x + y)"
definition dsub :: "rat \<Rightarrow> rat \<Rightarrow> rat" where "dsub x y = rnd (x - y)"
definition dmul :: "rat \<Rightarrow> rat \<Rightarrow> rat" where "dmul x y = rnd (x * y)"
definition ddiv :: "rat \<Rightarrow> rat \<Rightarrow> rat" where "ddiv x y = rnd (x / y)"
definition trunc :: "rat \<Rightarrow> int" where "trunc x = (if x < 0 then \<lceil>x\<rceil> else \<lfloor>x\<rfloor>)"

text \<open>
  Where the program may divide by zero, the quotient is a \<open>double\<close>; comparisons with what is not a
  number are false. Multiplication is by positive constants only.
\<close>

datatype double = Fin rat | PInf | MInf | NaN

definition quotient :: "rat \<Rightarrow> rat \<Rightarrow> double" where
  "quotient x y = (if y \<noteq> 0 then Fin (ddiv x y) else if x = 0 then NaN else if 0 < x then PInf else MInf)"

fun scale :: "double \<Rightarrow> rat \<Rightarrow> double" where
  "scale (Fin x) y = Fin (dmul x y)"
| "scale d y = d"

fun below :: "double \<Rightarrow> rat \<Rightarrow> bool" where
  "below (Fin x) y \<longleftrightarrow> x < y"
| "below MInf y \<longleftrightarrow> True"
| "below d y \<longleftrightarrow> False"

fun above :: "double \<Rightarrow> rat \<Rightarrow> bool" where
  "above (Fin x) y \<longleftrightarrow> x > y"
| "above PInf y \<longleftrightarrow> True"
| "above d y \<longleftrightarrow> False"

section \<open>Rounding to an integer\<close>

lemma round_even_of_int [simp]: "round_even (of_int n) = n"
  by (simp add: round_even_def)

lemma round_even_bounds: "of_int (round_even y) \<le> y + 1 / 2" "y - 1 / 2 \<le> of_int (round_even y)"
proof -
  have f: "of_int \<lfloor>y\<rfloor> \<le> y" "y < of_int \<lfloor>y\<rfloor> + 1" using floor_correct [of y] by simp_all
  consider "round_even y = \<lfloor>y\<rfloor>" "y - of_int \<lfloor>y\<rfloor> \<le> 1 / 2"
    | "round_even y = \<lfloor>y\<rfloor> + 1" "1 / 2 \<le> y - of_int \<lfloor>y\<rfloor>"
    unfolding round_even_def Let_def by (metis le_less less_le not_le)
  then have "of_int (round_even y) \<le> y + 1 / 2 \<and> y - 1 / 2 \<le> of_int (round_even y)"
  proof cases
    case 1
    show ?thesis unfolding 1(1) using 1(2) f by linarith
  next
    case 2
    show ?thesis unfolding 2(1) of_int_add of_int_1 using 2(2) f by linarith
  qed
  then show "of_int (round_even y) \<le> y + 1 / 2" "y - 1 / 2 \<le> of_int (round_even y)" by simp_all
qed

lemma round_even_mono: "y \<le> z \<Longrightarrow> round_even y \<le> round_even z"
proof -
  assume yz: "y \<le> z"
  show ?thesis
  proof (cases "\<lfloor>y\<rfloor> = \<lfloor>z\<rfloor>")
    case True
    with yz show ?thesis by (auto simp: round_even_def Let_def)
  next
    case False
    with yz have "\<lfloor>y\<rfloor> + 1 \<le> \<lfloor>z\<rfloor>" by (metis floor_mono order_le_less zless_imp_add1_zle)
    moreover have "round_even y \<le> \<lfloor>y\<rfloor> + 1" "\<lfloor>z\<rfloor> \<le> round_even z" by (auto simp: round_even_def Let_def)
    ultimately show ?thesis by linarith
  qed
qed

section \<open>Powers of two\<close>

lemma pow2_pos [simp]: "0 < pow2 e"
  by (simp add: pow2_def)

lemma pow2_nonneg [simp]: "0 \<le> pow2 e" "\<not> pow2 e < 0"
  by (simp_all add: pow2_def)

lemma pow2_nonzero [simp]: "pow2 e \<noteq> 0"
  by (simp add: pow2_def)

lemma pow2_add: "pow2 (a + b) = pow2 a * pow2 b"
proof -
  have p: "pow2 e = 2 powi e" for e by (simp add: pow2_def power_int_def inverse_eq_divide power_one_over)
  show ?thesis unfolding p by (rule power_int_add) simp
qed

lemma pow2_mono: "a \<le> b \<Longrightarrow> pow2 a \<le> pow2 b"
proof -
  assume "a \<le> b"
  then have "pow2 b = pow2 a * 2 ^ nat (b - a)" using pow2_add [of a "b - a"] by (simp add: pow2_def [of "b - a"])
  moreover have "(1 :: rat) \<le> 2 ^ nat (b - a)" by simp
  ultimately show ?thesis by (metis mult.right_neutral mult_left_mono less_imp_le pow2_pos)
qed

lemma pow2_of_nat [simp]: "pow2 (int n) = 2 ^ n"
  by (simp add: pow2_def)

lemma lead_bounds:
  assumes "0 < x"
  shows "pow2 (lead x) \<le> x" "x < pow2 (lead x + 1)"
proof -
  obtain p q where pq: "quotient_of x = (p, q)" by (cases "quotient_of x")
  have q: "0 < q" using quotient_of_denom_pos [OF pq] .
  have x: "x = of_int p / of_int q" using quotient_of_div [OF pq] .
  have p: "0 < p" using assms q unfolding x by (simp add: zero_less_divide_iff)
  have P: "2 ^ nat (bitlen p - 1) \<le> p" "p < 2 ^ nat (bitlen p)" using bitlen_bounds [OF p] by simp_all
  have Q: "2 ^ nat (bitlen q - 1) \<le> q" "q < 2 ^ nat (bitlen q)" using bitlen_bounds [OF q] by simp_all
  have lp: "1 \<le> bitlen p" "1 \<le> bitlen q" using p q by (simp_all add: bitlen_def floorlog_def)
  have P': "pow2 (bitlen p - 1) \<le> of_int p" "of_int p < pow2 (bitlen p)"
    using P lp of_int_le_iff [where ?'a = rat, of "2 ^ nat (bitlen p - 1)" p] of_int_less_iff [where ?'a = rat, of p "2 ^ nat (bitlen p)"] by (simp_all add: pow2_def)
  have Q': "pow2 (bitlen q - 1) \<le> of_int q" "of_int q < pow2 (bitlen q)"
    using Q lp of_int_le_iff [where ?'a = rat, of "2 ^ nat (bitlen q - 1)" q] of_int_less_iff [where ?'a = rat, of q "2 ^ nat (bitlen q)"] by (simp_all add: pow2_def)
  let ?e = "bitlen p - bitlen q"
  have lo: "pow2 (?e - 1) \<le> x"
  proof -
    have "pow2 (?e - 1) * of_int q \<le> pow2 (?e - 1) * pow2 (bitlen q)" using Q' by (intro mult_left_mono) simp_all
    also have "\<dots> = pow2 (bitlen p - 1)" unfolding pow2_add [symmetric] by simp
    finally show ?thesis using P'(1) q unfolding x by (simp add: pos_le_divide_eq)
  qed
  have hi: "x < pow2 (?e + 1)"
  proof -
    have "of_int p < pow2 (?e + 1) * pow2 (bitlen q - 1)" unfolding pow2_add [symmetric] using P' by simp
    also have "\<dots> \<le> pow2 (?e + 1) * of_int q" using Q' by (intro mult_left_mono) simp_all
    finally show ?thesis using q unfolding x by (simp add: pos_divide_less_eq)
  qed
  show "pow2 (lead x) \<le> x" "x < pow2 (lead x + 1)"
    using lo hi by (auto simp: lead_def pq Let_def)
qed

lemma lead_unique:
  assumes "0 < x" "pow2 e \<le> x" "x < pow2 (e + 1)"
  shows "lead x = e"
proof -
  note b = lead_bounds [OF assms(1)]
  have "\<not> lead x + 1 \<le> e" using pow2_mono [of "lead x + 1" e] b assms by auto
  moreover have "\<not> e + 1 \<le> lead x" using pow2_mono [of "e + 1" "lead x"] b assms by auto
  ultimately show ?thesis by linarith
qed

section \<open>Rounding to a double\<close>

lemma scaled_bounds:
  assumes "0 < x"
  shows "2 ^ 52 \<le> x / pow2 (lead x - 52)" "x / pow2 (lead x - 52) < 2 ^ 53"
proof -
  note b = lead_bounds [OF assms]
  have "2 ^ 52 * pow2 (lead x - 52) = pow2 (lead x)" "2 ^ 53 * pow2 (lead x - 52) = pow2 (lead x + 1)"
    using pow2_add [of 52 "lead x - 52"] pow2_add [of 53 "lead x - 52"] by (simp_all add: pow2_def [of 52] pow2_def [of 53] add.commute)
  with b show "2 ^ 52 \<le> x / pow2 (lead x - 52)" "x / pow2 (lead x - 52) < 2 ^ 53"
    by (simp_all add: pos_le_divide_eq pos_divide_less_eq)
qed

lemma mantissa_bounds:
  assumes "0 < x"
  shows "2 ^ 52 \<le> round_even (x / pow2 (lead x - 52))" "round_even (x / pow2 (lead x - 52)) \<le> 2 ^ 53"
proof -
  note b = scaled_bounds [OF assms]
  have "round_even (of_int (2 ^ 52)) \<le> round_even (x / pow2 (lead x - 52))"
    using b(1) by (intro round_even_mono) simp
  then show "2 ^ 52 \<le> round_even (x / pow2 (lead x - 52))" unfolding round_even_of_int .
  have "round_even (x / pow2 (lead x - 52)) \<le> round_even (of_int (2 ^ 53))"
    using b(2) by (intro round_even_mono) simp
  then show "round_even (x / pow2 (lead x - 52)) \<le> 2 ^ 53" unfolding round_even_of_int .
qed

text \<open>Integers of 53 bits, scaled by any power of two, are doubles.\<close>

lemma rnd_pos_exact:
  assumes "0 < m" "m \<le> 2 ^ 53"
  shows "rnd_pos (of_int m * pow2 e) = of_int m * pow2 e"
proof -
  let ?x = "of_int m * pow2 e" and ?L = "lead (of_int m * pow2 e)"
  have x: "0 < ?x" using assms(1) by simp
  note b = lead_bounds [OF x]
  have "\<exists>k. ?x / pow2 (?L - 52) = of_int k"
  proof (cases "?L - 52 \<le> e")
    case True
    have "pow2 e = pow2 (e - (?L - 52)) * pow2 (?L - 52)" unfolding pow2_add [symmetric] by simp
    then have "?x / pow2 (?L - 52) = of_int m * pow2 (e - (?L - 52))" by (simp add: nonzero_divide_eq_eq mult.assoc)
    also have "\<dots> = of_int (m * 2 ^ nat (e - (?L - 52)))" using True by (simp add: pow2_def [of "e - (?L - 52)"])
    finally show ?thesis by blast
  next
    case False
    have "of_int m * pow2 e \<le> of_int (2 ^ 53) * pow2 e" using assms(2) by (intro mult_right_mono) (simp_all only: of_int_le_iff less_imp_le pow2_pos)
    also have "\<dots> = pow2 (e + 53)" by (simp add: pow2_add pow2_def [of 53])
    also have "\<dots> \<le> pow2 ?L" using False by (intro pow2_mono) simp
    finally have "?x = pow2 ?L" using b(1) by simp
    also have "pow2 ?L = pow2 52 * pow2 (?L - 52)" unfolding pow2_add [symmetric] by simp
    finally have "?x / pow2 (?L - 52) = pow2 52" by (simp only: nonzero_divide_eq_eq [OF pow2_nonzero])
    also have "\<dots> = of_int (2 ^ 52)" by (simp add: pow2_def)
    finally show ?thesis by blast
  qed
  then obtain k where k: "?x / pow2 (?L - 52) = of_int k" by blast
  then have "rnd_pos ?x = of_int k * pow2 (?L - 52)" by (simp add: rnd_pos_def Let_def)
  then show ?thesis using k by (metis nonzero_divide_eq_eq pow2_pos less_numeral_extra(3))
qed

lemma rnd_pos_form:
  assumes "0 < x"
  shows "\<exists>m e. 0 < m \<and> m \<le> 2 ^ 53 \<and> rnd_pos x = of_int m * pow2 e"
  using mantissa_bounds [OF assms] unfolding rnd_pos_def Let_def by (intro exI conjI) (auto intro: less_le_trans [of 0 "2 ^ 52"])

lemma rnd_pos_mono:
  assumes "0 < x" "x \<le> y"
  shows "rnd_pos x \<le> rnd_pos y"
proof -
  have y: "0 < y" using assms by simp
  have up: "rnd_pos x \<le> pow2 (lead x + 1)"
  proof -
    have "of_int (round_even (x / pow2 (lead x - 52))) \<le> (of_int (2 ^ 53) :: rat)"
      using mantissa_bounds(2) [OF assms(1)] by (simp only: of_int_le_iff)
    then have "rnd_pos x \<le> of_int (2 ^ 53) * pow2 (lead x - 52)" by (simp add: rnd_pos_def Let_def)
    also have "\<dots> = pow2 (lead x + 1)" using pow2_add [of 53 "lead x - 52"] by (simp add: pow2_def [of 53] add.commute)
    finally show ?thesis .
  qed
  have low: "pow2 (lead y) \<le> rnd_pos y"
  proof -
    have "(of_int (2 ^ 52) :: rat) \<le> of_int (round_even (y / pow2 (lead y - 52)))"
      using mantissa_bounds(1) [OF y] by (simp only: of_int_le_iff)
    then have "of_int (2 ^ 52) * pow2 (lead y - 52) \<le> rnd_pos y" by (simp add: rnd_pos_def Let_def)
    then show ?thesis using pow2_add [of 52 "lead y - 52"] by (simp add: pow2_def [of 52])
  qed
  show ?thesis
  proof (cases "lead x = lead y")
    case True
    have "x / pow2 (lead x - 52) \<le> y / pow2 (lead y - 52)" unfolding True using assms(2) by (intro divide_right_mono) simp_all
    then show ?thesis unfolding rnd_pos_def Let_def True [symmetric]
      using round_even_mono True by (intro mult_right_mono) (simp_all add: less_imp_le)
  next
    case False
    have "\<not> lead y < lead x"
    proof
      assume "lead y < lead x"
      then have "pow2 (lead y + 1) \<le> pow2 (lead x)" by (intro pow2_mono) simp
      with lead_bounds [OF assms(1)] lead_bounds [OF y] assms(2) show False by simp
    qed
    with False have "pow2 (lead x + 1) \<le> pow2 (lead y)" by (intro pow2_mono) simp
    with up low show ?thesis by simp
  qed
qed

lemma rnd_pos_error:
  assumes "0 < x"
  shows "rnd_pos x \<le> x + x / 2 ^ 53" "x - x / 2 ^ 53 \<le> rnd_pos x"
proof -
  let ?u = "pow2 (lead x - 52)" and ?y = "x / pow2 (lead x - 52)"
  have u: "0 < ?u" by simp
  have half: "?u / 2 \<le> x / 2 ^ 53"
    using scaled_bounds(1) [OF assms] by (simp add: field_simps)
  have "rnd_pos x = of_int (round_even ?y) * ?u" by (simp add: rnd_pos_def Let_def)
  moreover have "of_int (round_even ?y) * ?u \<le> (?y + 1 / 2) * ?u" "(?y - 1 / 2) * ?u \<le> of_int (round_even ?y) * ?u"
    using round_even_bounds [of ?y] u by (simp_all add: mult_right_mono less_imp_le)
  moreover have "(?y + 1 / 2) * ?u = x + ?u / 2" "(?y - 1 / 2) * ?u = x - ?u / 2" using u by (simp_all add: field_simps)
  ultimately show "rnd_pos x \<le> x + x / 2 ^ 53" "x - x / 2 ^ 53 \<le> rnd_pos x" using half by linarith+
qed

text \<open>The same for the rounding of values that are not negative.\<close>

lemma rnd_0 [simp]: "rnd 0 = 0"
  by (simp add: rnd_def)

lemma rnd_exact: "0 \<le> m \<Longrightarrow> m \<le> 2 ^ 53 \<Longrightarrow> rnd (of_int m * pow2 e) = of_int m * pow2 e"
  using rnd_pos_exact [of m e] by (auto simp: rnd_def mult_less_0_iff not_less_iff_gr_or_eq)

lemma rnd_int: "0 \<le> m \<Longrightarrow> m \<le> 2 ^ 53 \<Longrightarrow> rnd (of_int m) = of_int m"
  using rnd_exact [of m 0] by (simp add: pow2_def)

lemma rnd_nonneg: "0 \<le> x \<Longrightarrow> 0 \<le> rnd x"
  using rnd_pos_form [of x] by (auto simp: rnd_def intro!: mult_nonneg_nonneg less_imp_le [of 0])

lemma rnd_mono: "0 \<le> x \<Longrightarrow> x \<le> y \<Longrightarrow> rnd x \<le> rnd y"
  using rnd_pos_mono [of x y] rnd_nonneg [of y] by (auto simp: rnd_def)

lemma rnd_idem: "0 \<le> x \<Longrightarrow> rnd (rnd x) = rnd x"
proof (cases "x = 0")
  case False
  assume "0 \<le> x"
  with False obtain m e where "0 < m" "m \<le> 2 ^ 53" "rnd_pos x = of_int m * pow2 e" using rnd_pos_form [of x] by auto
  with False \<open>0 \<le> x\<close> show ?thesis using rnd_exact [of m e] by (simp add: rnd_def [of x])
qed simp

lemma rnd_upper: "0 \<le> x \<Longrightarrow> rnd x \<le> x + x / 2 ^ 53"
  using rnd_pos_error(1) [of x] by (auto simp: rnd_def)

lemma rnd_lower: "0 \<le> x \<Longrightarrow> x - x / 2 ^ 53 \<le> rnd x"
  using rnd_pos_error(2) [of x] by (auto simp: rnd_def)

text \<open>A quotient of a part by a whole is a number between 0 and 1, and a percentage at most 100.\<close>

lemma dbl_int: "n \<le> 2 ^ 53 \<Longrightarrow> 0 \<le> n \<Longrightarrow> dbl n = of_int n"
  by (simp add: dbl_def rnd_int)

lemma dbl_u32: "dbl (uint (w :: u32)) = of_int (uint w)"
  using uint_lt2p [of w] by (intro dbl_int) simp_all

lemma ddiv_le: "0 \<le> x \<Longrightarrow> 0 < y \<Longrightarrow> x \<le> of_int k * y \<Longrightarrow> k \<le> 2 ^ 53 \<Longrightarrow> 0 \<le> ddiv x y \<and> ddiv x y \<le> of_int k"
proof -
  assume a: "0 \<le> x" "0 < y" "x \<le> of_int k * y" "k \<le> 2 ^ 53"
  then have "0 \<le> x / y" "x / y \<le> of_int k" by (simp_all add: pos_divide_le_eq)
  then show ?thesis using rnd_mono [of "x / y" "of_int k"] rnd_int [of k] a(4) rnd_nonneg [of "x / y"]
    by (simp add: ddiv_def)
qed

lemma dmul_le: "0 \<le> x \<Longrightarrow> x \<le> of_int k \<Longrightarrow> 0 \<le> m \<Longrightarrow> k * m \<le> 2 ^ 53 \<Longrightarrow>
    0 \<le> dmul x (of_int m) \<and> dmul x (of_int m) \<le> of_int (k * m)"
proof -
  assume a: "0 \<le> x" "x \<le> of_int k" "0 \<le> m" "k * m \<le> 2 ^ 53"
  have k: "0 \<le> k" using order.trans [OF a(1,2)] by simp
  have "x * of_int m \<le> of_int (k * m)" using a by (simp add: mult_right_mono)
  moreover have "0 \<le> x * of_int m" using a by simp
  ultimately show ?thesis using rnd_mono [of "x * of_int m" "of_int (k * m)"] rnd_int [of "k * m"] k a rnd_nonneg
    by (simp add: dmul_def)
qed

section \<open>One tenth\<close>

lemma rnd_tenth: "rnd (1 / 10) = 7205759403792794 / 2 ^ 56"
proof -
  have l: "lead (1 / 10) = - 4" by (rule lead_unique) (simp_all add: pow2_def)
  have "\<lfloor>2 ^ 56 / 10 :: rat\<rfloor> = 7205759403792793" by (rule floor_unique) simp_all
  then have "round_even (2 ^ 56 / 10) = 7205759403792794" unfolding round_even_def Let_def by simp
  then show ?thesis by (simp add: rnd_def rnd_pos_def l Let_def pow2_def)
qed

text \<open>
  The double nearest to one tenth exceeds it by a relative \<open>2 ^ - 54\<close>: for a 32-bit number the
  product, cut to an integer, is still the integer quotient.
\<close>

lemma tenth_of_u32:
  assumes "0 \<le> n" "n < 2 ^ 32"
  shows "trunc (dmul (dbl n) (rnd (1 / 10))) = n div 10"
proof -
  let ?k = "n div 10" and ?x = "of_int n * (7205759403792794 / 2 ^ 56) :: rat"
  have n: "dbl n = of_int n" using assms by (intro dbl_int) simp_all
  have k: "10 * ?k \<le> n" "n \<le> 10 * ?k + 9" "0 \<le> ?k" using assms by simp_all
  have kr: "(10 :: rat) * of_int ?k \<le> of_int n" "(of_int n :: rat) \<le> 10 * of_int ?k + 9" "(0 :: rat) \<le> of_int ?k"
    using k of_int_le_iff [where ?'a = rat, of "10 * ?k" n] of_int_le_iff [where ?'a = rat, of n "10 * ?k + 9"] by simp_all
  have big: "(of_int n :: rat) \<le> 4294967295" using assms of_int_le_iff [where ?'a = rat, of n 4294967295] by simp
  have x: "0 \<le> ?x" using assms by simp
  have "of_int ?k \<le> ?x" using kr by (simp add: field_simps)
  then have "rnd (of_int ?k) \<le> rnd ?x" using kr(3) by (intro rnd_mono) simp_all
  moreover have "rnd (of_int ?k) = of_int ?k" using k(3) assms by (intro rnd_int) simp_all
  moreover have "rnd ?x < of_int ?k + 1" using rnd_upper [OF x] kr big by (simp add: field_simps)
  ultimately have "\<lfloor>rnd ?x\<rfloor> = ?k" by (intro floor_unique) simp_all
  moreover have "0 \<le> rnd ?x" by (rule rnd_nonneg [OF x])
  ultimately show ?thesis by (simp add: trunc_def dmul_def n rnd_tenth)
qed

end
