(* ===== verification/AVLTree.thy ===== *)
theory AVLTree
  imports Double
begin

text \<open>
  The AVL tree of \<^verbatim>\<open>src/nvm0avltree.cc\<close>, an index from logical block numbers to inodes with
  logical deletion. A node is \<open>Node left entry height right\<close>: the \<open>inode\<close>, \<open>lbn\<close> and \<open>valid\<close>
  fields make the entry, \<open>height\<close> is the stored height (an \<open>int\<close> of the code), and the null
  pointer is \<open>Null\<close>. Rotations and comparisons dereference children, so every operation
  that restructures the tree returns a result that can be the fault \<open>NullDeref\<close>; the
  properties show that it never is on the trees the operations build. Every node is owned by
  one parent, so an in-place update of the code is a rebuilt node here.
\<close>

section \<open>Data\<close>

datatype tree_validity = TREE_VALID | TREE_INVALID

record tree_entry =
  te_inode :: "nat option"
  te_lbn :: u32
  te_valid :: tree_validity

datatype tree = Null | Node tree tree_entry int tree

record tree_root =
  root :: tree
  count_total :: int
  count_invalid :: int

section \<open>Operations\<close>

text \<open>A fresh node for an inode with the given block number.\<close>

definition init_tree_node :: "nat \<Rightarrow> u32 \<Rightarrow> tree_entry" where
  "init_tree_node inode lbn = \<lparr>te_inode = Some inode, te_lbn = lbn, te_valid = TREE_VALID\<rparr>"

fun get_height :: "tree \<Rightarrow> int" where
  "get_height Null = 0"
| "get_height (Node l x h r) = h"

definition max_height :: "int \<Rightarrow> int \<Rightarrow> int" where
  "max_height a b = (if a > b then a else b)"

fun get_balance :: "tree \<Rightarrow> int" where
  "get_balance Null = 0"
| "get_balance (Node l x h r) = get_height l - get_height r"

text \<open>A node with its height field set from its children.\<close>

definition update_height :: "tree \<Rightarrow> tree_entry \<Rightarrow> tree \<Rightarrow> tree" where
  "update_height l x r = Node l x (max_height (get_height l) (get_height r) + 1) r"

fun right_rotate :: "tree \<Rightarrow> tree res" where
  "right_rotate (Node (Node a x h1 t2) y h2 c) = Inr (update_height a x (update_height t2 y c))"
| "right_rotate _ = Inl NullDeref"

fun left_rotate :: "tree \<Rightarrow> tree res" where
  "left_rotate (Node a x h1 (Node t2 y h2 c)) = Inr (update_height (update_height a x t2) y c)"
| "left_rotate _ = Inl NullDeref"

fun search_tree_node :: "tree \<Rightarrow> u32 \<Rightarrow> tree_entry option" where
  "search_tree_node Null lbn = None"
| "search_tree_node (Node l x h r) lbn =
     (if lbn = te_lbn x then Some x
      else if lbn < te_lbn x then search_tree_node l lbn
      else search_tree_node r lbn)"

fun root_lbn :: "tree \<Rightarrow> u32 res" where
  "root_lbn Null = Inl NullDeref"
| "root_lbn (Node l x h r) = Inr (te_lbn x)"

text \<open>The rebalancing that ends an insertion: which rotation is chosen by comparing keys.\<close>

definition insert_rebalance :: "u32 \<Rightarrow> tree \<Rightarrow> tree_entry \<Rightarrow> tree \<Rightarrow> tree res" where
  "insert_rebalance lbn l x r =
     (let t = update_height l x r; balance = get_balance t in
      if balance > 1 then
        rbind (root_lbn l) (\<lambda>k.
          if lbn < k then right_rotate t
          else if lbn > k then rbind (left_rotate l) (\<lambda>l'. right_rotate (Node l' x (get_height t) r))
          else Inr t)
      else if balance < -1 then
        rbind (root_lbn r) (\<lambda>k.
          if lbn > k then left_rotate t
          else if lbn < k then rbind (right_rotate r) (\<lambda>r'. left_rotate (Node l x (get_height t) r'))
          else Inr t)
      else Inr t)"

fun insert_node :: "tree \<Rightarrow> tree_entry \<Rightarrow> tree res" where
  "insert_node Null e = Inr (Node Null e 1 Null)"
| "insert_node (Node l x h r) e =
     (if te_lbn e < te_lbn x
      then rbind (insert_node l e) (\<lambda>l'. insert_rebalance (te_lbn e) l' x r)
      else rbind (insert_node r e) (\<lambda>r'. insert_rebalance (te_lbn e) l x r'))"

definition insert_tree_node :: "tree_root \<Rightarrow> tree_entry \<Rightarrow> tree_root res" where
  "insert_tree_node tr e =
     rbind (insert_node (root tr) e) (\<lambda>t. Inr (tr\<lparr>root := t, count_total := count_total tr + 1\<rparr>))"

text \<open>Logical deletion marks the node with the key invalid, once.\<close>

fun mark_invalid :: "tree \<Rightarrow> u32 \<Rightarrow> tree \<times> bool" where
  "mark_invalid Null lbn = (Null, False)"
| "mark_invalid (Node l x h r) lbn =
     (if lbn = te_lbn x then
        (if te_valid x = TREE_VALID then (Node l (x\<lparr>te_valid := TREE_INVALID\<rparr>) h r, True)
         else (Node l x h r, False))
      else if lbn < te_lbn x then (let (l', b) = mark_invalid l lbn in (Node l' x h r, b))
      else (let (r', b) = mark_invalid r lbn in (Node l x h r', b)))"

definition logical_delete_tree_node :: "tree_root \<Rightarrow> u32 \<Rightarrow> tree_root" where
  "logical_delete_tree_node tr lbn =
     (let (t, marked) = mark_invalid (root tr) lbn in
      tr\<lparr>root := t, count_invalid := (if marked then count_invalid tr + 1 else count_invalid tr)\<rparr>)"

fun min_value_node :: "tree \<Rightarrow> tree_entry res" where
  "min_value_node Null = Inl NullDeref"
| "min_value_node (Node Null x h r) = Inr x"
| "min_value_node (Node l x h r) = min_value_node l"

text \<open>The rebalancing that ends a deletion: the rotation is chosen by the child's balance.\<close>

definition delete_rebalance :: "tree \<Rightarrow> tree_entry \<Rightarrow> tree \<Rightarrow> tree res" where
  "delete_rebalance l x r =
     (let t = update_height l x r; balance = get_balance t in
      if balance > 1 \<and> get_balance l \<ge> 0 then right_rotate t
      else if balance > 1 \<and> get_balance l < 0 then
        rbind (left_rotate l) (\<lambda>l'. right_rotate (Node l' x (get_height t) r))
      else if balance < -1 \<and> get_balance r \<le> 0 then left_rotate t
      else if balance < -1 \<and> get_balance r > 0 then
        rbind (right_rotate r) (\<lambda>r'. left_rotate (Node l x (get_height t) r'))
      else Inr t)"

text \<open>After a removal the node that took the root's place, if any, is rebalanced.\<close>

fun delete_finish :: "tree \<Rightarrow> tree res" where
  "delete_finish Null = Inr Null"
| "delete_finish (Node l x h r) = delete_rebalance l x r"

fun delete_node :: "tree \<Rightarrow> u32 \<Rightarrow> tree res" where
  "delete_node Null lbn = Inr Null"
| "delete_node (Node l x h r) lbn =
     (if lbn < te_lbn x then rbind (delete_node l lbn) (\<lambda>l'. delete_rebalance l' x r)
      else if lbn > te_lbn x then rbind (delete_node r lbn) (\<lambda>r'. delete_rebalance l x r')
      else if l = Null \<or> r = Null then delete_finish (if l \<noteq> Null then l else r)
      else rbind (min_value_node r) (\<lambda>m.
             rbind (delete_node r (te_lbn m)) (\<lambda>r'. delete_rebalance l m r')))"

text \<open>The node argument of the code is a pointer, read only when the tree is not empty.\<close>

fun physical_delete_tree_node :: "tree \<Rightarrow> tree_entry option \<Rightarrow> tree res" where
  "physical_delete_tree_node Null n = Inr Null"
| "physical_delete_tree_node t None = Inl NullDeref"
| "physical_delete_tree_node t (Some e) = delete_node t (te_lbn e)"

text \<open>The depth-first search for an invalid node, with its explicit stack.\<close>

function find_invalid_loop :: "tree list \<Rightarrow> tree_entry option" where
  "find_invalid_loop [] = None"
| "find_invalid_loop (Null # st) = None"
| "find_invalid_loop (Node l x h r # st) =
     (if te_valid x = TREE_INVALID then Some x
      else let st1 = (if r \<noteq> Null then r # st else st);
               st2 = (if l \<noteq> Null then l # st1 else st1)
           in find_invalid_loop st2)"
  by pat_completeness auto
termination
  by (relation "measure (\<lambda>st. sum_list (map size st))") auto

definition find_invalid_tree_node :: "tree \<Rightarrow> tree_entry option" where
  "find_invalid_tree_node t = find_invalid_loop [t]"

function rebalance_tree_node :: "tree_root \<Rightarrow> tree_root res" where
  "rebalance_tree_node tr =
     (if count_invalid tr > 0 then
        rbind (physical_delete_tree_node (root tr) (find_invalid_tree_node (root tr)))
          (\<lambda>t. rebalance_tree_node (tr\<lparr>root := t, count_total := count_total tr - 1,
                                       count_invalid := count_invalid tr - 1\<rparr>))
      else Inr tr)"
  by pat_completeness auto
termination
  by (relation "measure (\<lambda>tr. nat (count_invalid tr))") auto

declare rebalance_tree_node.simps [simp del]

section \<open>Order and balance\<close>

fun inorder :: "tree \<Rightarrow> tree_entry list" where
  "inorder Null = []"
| "inorder (Node l x h r) = inorder l @ x # inorder r"

text \<open>The real height, and trees whose stored heights are right and whose balance is in range.\<close>

fun ht :: "tree \<Rightarrow> int" where
  "ht Null = 0"
| "ht (Node l x h r) = max (ht l) (ht r) + 1"

fun avl :: "tree \<Rightarrow> bool" where
  "avl Null = True"
| "avl (Node l x h r) = (h = max (ht l) (ht r) + 1 \<and> \<bar>ht l - ht r\<bar> \<le> 1 \<and> avl l \<and> avl r)"

definition keys_sorted :: "tree_entry list \<Rightarrow> bool" where
  "keys_sorted es \<longleftrightarrow> sorted_wrt (<) (map te_lbn es)"

lemma keys_sorted_Nil [simp]: "keys_sorted []"
  by (simp add: keys_sorted_def)

lemma keys_sorted_append [simp]:
  "keys_sorted (xs @ x # ys) \<longleftrightarrow> keys_sorted xs \<and> keys_sorted ys \<and>
     (\<forall>a \<in> set xs. te_lbn a < te_lbn x) \<and> (\<forall>b \<in> set ys. te_lbn x < te_lbn b)"
  by (auto simp: keys_sorted_def sorted_wrt_append dest: less_trans)

definition avl_ok :: "tree \<Rightarrow> bool" where
  "avl_ok t \<longleftrightarrow> avl t \<and> keys_sorted (inorder t)"

lemma ht_nonneg [simp]: "0 \<le> ht t"
  by (induction t) auto

lemma max_height_max [simp]: "max_height a b = max a b"
  by (simp add: max_height_def max_def)

lemma avl_get_height [simp]: "avl t \<Longrightarrow> get_height t = ht t"
  by (cases t) auto

lemma inorder_update_height [simp]: "inorder (update_height l x r) = inorder l @ x # inorder r"
  by (simp add: update_height_def)

lemma ht_update_height [simp]: "ht (update_height l x r) = max (ht l) (ht r) + 1"
  by (simp add: update_height_def)

lemma avl_update_height [simp]:
  "avl l \<Longrightarrow> avl r \<Longrightarrow> avl (update_height l x r) \<longleftrightarrow> \<bar>ht l - ht r\<bar> \<le> 1"
  by (simp add: update_height_def)

lemma get_height_update_height [simp]:
  "avl l \<Longrightarrow> avl r \<Longrightarrow> get_height (update_height l x r) = max (ht l) (ht r) + 1"
  by (simp add: update_height_def)

lemma get_balance_update_height [simp]:
  "avl l \<Longrightarrow> avl r \<Longrightarrow> get_balance (update_height l x r) = ht l - ht r"
  by (simp add: update_height_def)

lemma ht_pos_Node: "0 < ht t \<longleftrightarrow> t \<noteq> Null"
  using ht_nonneg by (cases t) (auto simp: max_def add_nonneg_pos)

section \<open>Deletion\<close>

lemma delete_rebalance_ok:
  assumes "avl l" "avl r" "\<bar>ht l - ht r\<bar> \<le> 2"
  shows "\<exists>t'. delete_rebalance l x r = Inr t' \<and> avl t' \<and> inorder t' = inorder l @ x # inorder r \<and>
    (ht t' = max (ht l) (ht r) + 1 \<or> ht t' = max (ht l) (ht r)) \<and>
    (\<bar>ht l - ht r\<bar> \<le> 1 \<longrightarrow> ht t' = max (ht l) (ht r) + 1)"
proof -
  consider "\<bar>ht l - ht r\<bar> \<le> 1" | "ht l = ht r + 2" | "ht r = ht l + 2"
    using assms(3) by linarith
  then show ?thesis
  proof cases
    case 1
    with assms show ?thesis by (auto simp: delete_rebalance_def Let_def)
  next
    case 2
    then obtain a y h b where l: "l = Node a y h b" using ht_nonneg [of r] by (cases l) auto
    show ?thesis
    proof (cases "ht a \<ge> ht b")
      case True
      with 2 assms l show ?thesis
        by (auto simp: delete_rebalance_def Let_def update_height_def max_def)
    next
      case False
      then obtain b1 z k b2 where b: "b = Node b1 z k b2" using ht_nonneg [of a] by (cases b) auto
      with 2 assms l False show ?thesis
        by (auto simp: delete_rebalance_def Let_def update_height_def max_def split: if_splits)
    qed
  next
    case 3
    then obtain a y h b where r: "r = Node a y h b" using ht_nonneg [of l] by (cases r) auto
    show ?thesis
    proof (cases "ht b \<ge> ht a")
      case True
      with 3 assms r show ?thesis
        by (auto simp: delete_rebalance_def Let_def update_height_def max_def)
    next
      case False
      then obtain b1 z k b2 where b: "a = Node b1 z k b2" using ht_nonneg [of b] by (cases a) auto
      with 3 assms r False show ?thesis
        by (auto simp: delete_rebalance_def Let_def update_height_def max_def split: if_splits)
    qed
  qed
qed



lemma min_value_inorder:
  "t \<noteq> Null \<Longrightarrow> \<exists>m es. min_value_node t = Inr m \<and> inorder t = m # es"
  by (induction t rule: min_value_node.induct) (auto, metis append_Cons append_assoc)

lemma filter_keys:
  assumes "keys_sorted (xs @ x # ys)"
  shows "k < te_lbn x \<Longrightarrow> filter (\<lambda>e. te_lbn e \<noteq> k) ys = ys"
    "te_lbn x < k \<Longrightarrow> filter (\<lambda>e. te_lbn e \<noteq> k) xs = xs"
    "k = te_lbn x \<Longrightarrow> filter (\<lambda>e. te_lbn e \<noteq> k) xs = xs \<and> filter (\<lambda>e. te_lbn e \<noteq> k) ys = ys"
  using assms by (auto simp: filter_id_conv)

lemma keys_sorted_Cons: "keys_sorted (x # ys) \<longleftrightarrow> keys_sorted ys \<and> (\<forall>b \<in> set ys. te_lbn x < te_lbn b)"
  using keys_sorted_append [of "[]" x ys] by auto

lemma delete_rebalance_balanced:
  assumes "avl l" "avl r" "\<bar>ht l - ht r\<bar> \<le> 1"
  shows "delete_rebalance l x r = Inr (update_height l x r)"
  using assms by (auto simp: delete_rebalance_def Let_def)

lemma delete_node_ok:
  "avl t \<Longrightarrow> keys_sorted (inorder t) \<Longrightarrow>
   \<exists>t'. delete_node t k = Inr t' \<and> avl t' \<and> inorder t' = filter (\<lambda>e. te_lbn e \<noteq> k) (inorder t) \<and>
        ht t - 1 \<le> ht t' \<and> ht t' \<le> ht t"
proof (induction t arbitrary: k)
  case Null
  then show ?case by simp
next
  case (Node l x h r)
  have bal: "\<bar>ht l - ht r\<bar> \<le> 1" and sub: "avl l" "avl r" "keys_sorted (inorder l)" "keys_sorted (inorder r)"
    using Node.prems by simp_all
  note filt = filter_keys [OF Node.prems(2) [unfolded inorder.simps], of k]
  consider "k < te_lbn x" | "te_lbn x < k" | "k = te_lbn x" by (metis linorder_neqE)
  then show ?case
  proof cases
    case 1
    obtain l' where l': "delete_node l k = Inr l'" "avl l'" "ht l - 1 \<le> ht l'" "ht l' \<le> ht l"
      "inorder l' = filter (\<lambda>e. te_lbn e \<noteq> k) (inorder l)"
      using Node.IH(1) [OF sub(1,3)] by blast
    have diff: "\<bar>ht l' - ht r\<bar> \<le> 2" using bal l'(3,4) by linarith
    obtain t' where "delete_rebalance l' x r = Inr t'" "avl t'" "inorder t' = inorder l' @ x # inorder r"
      "ht t' = max (ht l') (ht r) + 1 \<or> ht t' = max (ht l') (ht r)"
      "\<bar>ht l' - ht r\<bar> \<le> 1 \<longrightarrow> ht t' = max (ht l') (ht r) + 1"
      using delete_rebalance_ok [OF l'(2) sub(2) diff, of x] l'(5) by auto
    with 1 l' bal filt show ?thesis by auto
  next
    case 2
    obtain r' where r': "delete_node r k = Inr r'" "avl r'" "ht r - 1 \<le> ht r'" "ht r' \<le> ht r"
      "inorder r' = filter (\<lambda>e. te_lbn e \<noteq> k) (inorder r)"
      using Node.IH(2) [OF sub(2,4)] by blast
    have diff: "\<bar>ht l - ht r'\<bar> \<le> 2" using bal r'(3,4) by linarith
    obtain t' where "delete_rebalance l x r' = Inr t'" "avl t'" "inorder t' = inorder l @ x # inorder r'"
      "ht t' = max (ht l) (ht r') + 1 \<or> ht t' = max (ht l) (ht r')"
      "\<bar>ht l - ht r'\<bar> \<le> 1 \<longrightarrow> ht t' = max (ht l) (ht r') + 1"
      using delete_rebalance_ok [OF sub(1) r'(2) diff, of x] r'(5) by auto
    with 2 r' bal filt show ?thesis by auto
  next
    case 3
    show ?thesis
    proof (cases "l = Null \<or> r = Null")
      case True
      let ?c = "if l \<noteq> Null then l else r"
      have c: "delete_finish ?c = Inr ?c"
      proof (cases ?c)
        case (Node a y k b)
        with sub have "avl (Node a y k b)" by (auto split: if_splits)
        with Node show ?thesis by (simp add: delete_rebalance_balanced) (simp add: update_height_def)
      qed simp
      have "avl ?c" "inorder ?c = inorder l @ inorder r" "ht ?c = max (ht l) (ht r)"
        using True sub by (auto simp: max_def ht_nonneg order_antisym)
      with 3 True c filt show ?thesis by auto
    next
      case False
      obtain m es where m: "min_value_node r = Inr m" "inorder r = m # es"
        using min_value_inorder False by blast
      obtain r' where r': "delete_node r (te_lbn m) = Inr r'" "avl r'" "ht r - 1 \<le> ht r'" "ht r' \<le> ht r"
        "inorder r' = filter (\<lambda>e. te_lbn e \<noteq> te_lbn m) (inorder r)"
        using Node.IH(2) [OF sub(2,4)] by blast
      have "inorder r' = es"
        using r'(5) m(2) sub(4) by (auto simp: keys_sorted_Cons filter_id_conv)
      moreover have diff: "\<bar>ht l - ht r'\<bar> \<le> 2" using bal r'(3,4) by linarith
      moreover obtain t' where "delete_rebalance l m r' = Inr t'" "avl t'"
        "inorder t' = inorder l @ m # inorder r'"
        "ht t' = max (ht l) (ht r') + 1 \<or> ht t' = max (ht l) (ht r')"
        "\<bar>ht l - ht r'\<bar> \<le> 1 \<longrightarrow> ht t' = max (ht l) (ht r') + 1"
        using delete_rebalance_ok [OF sub(1) r'(2) diff, of m] by auto
      ultimately show ?thesis using 3 False m r' bal filt by auto
    qed
  qed
qed

section \<open>Insertion\<close>

text \<open>The insertion's rebalancing looks at keys only; it needs the grown child to lean to the side of the
  new key.\<close>

fun leans_to :: "u32 \<Rightarrow> tree \<Rightarrow> bool" where
  "leans_to k Null = False"
| "leans_to k (Node l x h r) =
     ((k < te_lbn x \<and> ht l = ht r + 1) \<or> (te_lbn x < k \<and> ht r = ht l + 1))"

lemma insert_rebalance_ok:
  assumes "avl l" "avl r" "\<bar>ht l - ht r\<bar> \<le> 2"
    and "ht l = ht r + 2 \<Longrightarrow> leans_to k l" "ht r = ht l + 2 \<Longrightarrow> leans_to k r"
  shows "\<exists>t'. insert_rebalance k l x r = Inr t' \<and> avl t' \<and> inorder t' = inorder l @ x # inorder r \<and>
    (if \<bar>ht l - ht r\<bar> \<le> 1 then t' = update_height l x r else ht t' = max (ht l) (ht r))"
proof -
  consider "\<bar>ht l - ht r\<bar> \<le> 1" | "ht l = ht r + 2" | "ht r = ht l + 2"
    using assms(3) by linarith
  then show ?thesis
  proof cases
    case 1
    with assms show ?thesis by (auto simp: insert_rebalance_def Let_def)
  next
    case 2
    then obtain a y h b where l: "l = Node a y h b" using ht_nonneg [of r] by (cases l) auto
    show ?thesis
    proof (cases "k < te_lbn y")
      case True
      with 2 assms l show ?thesis
        by (auto simp: insert_rebalance_def Let_def update_height_def max_def)
    next
      case False
      with 2 assms(4) l obtain b1 z j b2 where b: "b = Node b1 z j b2"
        using ht_nonneg [of a] by (cases b) auto
      with 2 assms l False show ?thesis
        by (auto simp: insert_rebalance_def Let_def update_height_def max_def split: if_splits)
    qed
  next
    case 3
    then obtain a y h b where r: "r = Node a y h b" using ht_nonneg [of l] by (cases r) auto
    show ?thesis
    proof (cases "te_lbn y < k")
      case True
      with 3 assms r show ?thesis
        by (auto simp: insert_rebalance_def Let_def update_height_def max_def)
    next
      case False
      with 3 assms(5) r obtain b1 z j b2 where b: "a = Node b1 z j b2"
        using ht_nonneg [of b] by (cases a) auto
      with 3 assms r False show ?thesis
        by (auto simp: insert_rebalance_def Let_def update_height_def max_def split: if_splits)
    qed
  qed
qed

lemma insort_key_append:
  assumes "keys_sorted (xs @ x # ys)"
  shows "te_lbn e < te_lbn x \<Longrightarrow> insort_key te_lbn e (xs @ x # ys) = insort_key te_lbn e xs @ x # ys"
    "te_lbn x < te_lbn e \<Longrightarrow> insort_key te_lbn e (xs @ x # ys) = xs @ x # insort_key te_lbn e ys"
  using assms by (induction xs) (auto simp: keys_sorted_Cons)

lemma insert_node_ok:
  "avl t \<Longrightarrow> keys_sorted (inorder t) \<Longrightarrow> te_lbn e \<notin> te_lbn ` set (inorder t) \<Longrightarrow>
   \<exists>t'. insert_node t e = Inr t' \<and> avl t' \<and> inorder t' = insort_key te_lbn e (inorder t) \<and>
        (ht t' = ht t \<or> (ht t' = ht t + 1 \<and> (t = Null \<or> leans_to (te_lbn e) t')))"
proof (induction t)
  case Null
  then show ?case by simp
next
  case (Node l x h r)
  have bal: "\<bar>ht l - ht r\<bar> \<le> 1" and sub: "avl l" "avl r" "keys_sorted (inorder l)" "keys_sorted (inorder r)"
    "te_lbn e \<notin> te_lbn ` set (inorder l)" "te_lbn e \<notin> te_lbn ` set (inorder r)"
    using Node.prems by auto
  note ins = insort_key_append [OF Node.prems(2) [unfolded inorder.simps], of e]
  consider "te_lbn e < te_lbn x" | "te_lbn x < te_lbn e"
    using Node.prems(3) by (metis image_eqI in_set_conv_decomp inorder.simps(2) linorder_neqE)
  then show ?case
  proof cases
    case 1
    obtain l' where l': "insert_node l e = Inr l'" "avl l'" "inorder l' = insort_key te_lbn e (inorder l)"
      "ht l' = ht l \<or> (ht l' = ht l + 1 \<and> (l = Null \<or> leans_to (te_lbn e) l'))"
      using Node.IH(1) [OF sub(1,3,5)] by blast
    have "leans_to (te_lbn e) l'" if "ht l' = ht r + 2"
      using that bal l'(4) ht_nonneg [of r] by (cases "l = Null") auto
    moreover have "\<bar>ht l' - ht r\<bar> \<le> 2" "ht r \<noteq> ht l' + 2" using bal l'(4) by linarith+
    ultimately obtain t' where "insert_rebalance (te_lbn e) l' x r = Inr t'" "avl t'"
      "inorder t' = inorder l' @ x # inorder r"
      "if \<bar>ht l' - ht r\<bar> \<le> 1 then t' = update_height l' x r else ht t' = max (ht l') (ht r)"
      using insert_rebalance_ok [OF l'(2) sub(2), of "te_lbn e" x] by blast
    moreover have "max (ht l') (ht r) = max (ht l) (ht r) \<or>
        (max (ht l') (ht r) = max (ht l) (ht r) + 1 \<and> (\<bar>ht l' - ht r\<bar> \<le> 1 \<longrightarrow> ht l' = ht r + 1))"
      using bal l'(4) by linarith
    moreover have "max (ht l') (ht r) = max (ht l) (ht r) + 1" if "\<not> \<bar>ht l' - ht r\<bar> \<le> 1"
      using bal l'(4) that by linarith
    ultimately show ?thesis
      using 1 l'(1,3) ins(1) by (cases "\<bar>ht l' - ht r\<bar> \<le> 1") (auto simp: update_height_def)
  next
    case 2
    obtain r' where r': "insert_node r e = Inr r'" "avl r'" "inorder r' = insort_key te_lbn e (inorder r)"
      "ht r' = ht r \<or> (ht r' = ht r + 1 \<and> (r = Null \<or> leans_to (te_lbn e) r'))"
      using Node.IH(2) [OF sub(2,4,6)] by blast
    have "leans_to (te_lbn e) r'" if "ht r' = ht l + 2"
      using that bal r'(4) ht_nonneg [of l] by (cases "r = Null") auto
    moreover have "\<bar>ht l - ht r'\<bar> \<le> 2" "ht l \<noteq> ht r' + 2" using bal r'(4) by linarith+
    ultimately obtain t' where "insert_rebalance (te_lbn e) l x r' = Inr t'" "avl t'"
      "inorder t' = inorder l @ x # inorder r'"
      "if \<bar>ht l - ht r'\<bar> \<le> 1 then t' = update_height l x r' else ht t' = max (ht l) (ht r')"
      using insert_rebalance_ok [OF sub(1) r'(2), of "te_lbn e" x] by blast
    moreover have "max (ht l) (ht r') = max (ht l) (ht r) \<or>
        (max (ht l) (ht r') = max (ht l) (ht r) + 1 \<and> (\<bar>ht l - ht r'\<bar> \<le> 1 \<longrightarrow> ht r' = ht l + 1))"
      using bal r'(4) by linarith
    moreover have "max (ht l) (ht r') = max (ht l) (ht r) + 1" if "\<not> \<bar>ht l - ht r'\<bar> \<le> 1"
      using bal r'(4) that by linarith
    ultimately show ?thesis
      using 2 r'(1,3) ins(2) by (cases "\<bar>ht l - ht r'\<bar> \<le> 1") (auto simp: update_height_def)
  qed
qed



section \<open>Lookup and the index contract\<close>

lemma search_iff:
  "keys_sorted (inorder t) \<Longrightarrow>
   search_tree_node t k = Some e \<longleftrightarrow> e \<in> set (inorder t) \<and> te_lbn e = k"
proof (induction t)
  case Null
  then show ?case by simp
next
  case (Node l x h r)
  then show ?case by (cases "k = te_lbn x"; cases "k < te_lbn x") (auto dest: less_asym)
qed

lemma search_None_iff:
  "keys_sorted (inorder t) \<Longrightarrow> search_tree_node t k = None \<longleftrightarrow> k \<notin> te_lbn ` set (inorder t)"
  using search_iff [of t k] by (metis imageE imageI option.distinct(1) option.exhaust)

lemma keys_sorted_insort:
  "keys_sorted xs \<Longrightarrow> te_lbn e \<notin> te_lbn ` set xs \<Longrightarrow> keys_sorted (insort_key te_lbn e xs)"
  by (induction xs) (auto simp: keys_sorted_Cons set_insort_key)

lemma keys_sorted_filter: "keys_sorted xs \<Longrightarrow> keys_sorted (filter P xs)"
  by (induction xs) (auto simp: keys_sorted_Cons)

lemma insert_node_inv:
  assumes "avl_ok t" "search_tree_node t (te_lbn e) = None"
  shows "\<exists>t'. insert_node t e = Inr t' \<and> avl_ok t' \<and> inorder t' = insort_key te_lbn e (inorder t)"
  using assms insert_node_ok [of t e] search_None_iff [of t] keys_sorted_insort [of "inorder t" e]
  by (auto simp: avl_ok_def)

lemma delete_node_inv:
  assumes "avl_ok t"
  shows "\<exists>t'. delete_node t k = Inr t' \<and> avl_ok t' \<and>
    inorder t' = filter (\<lambda>e. te_lbn e \<noteq> k) (inorder t)"
  using assms delete_node_ok [of t k] keys_sorted_filter by (fastforce simp: avl_ok_def)

text \<open>
  What a user of an index by key relies on; \<open>insert_list\<close> and \<open>delete_list\<close> are the loops of
  the unit test.
\<close>

fun insert_list :: "('t \<Rightarrow> 'v \<Rightarrow> 't res) \<Rightarrow> 't \<Rightarrow> 'v list \<Rightarrow> 't res" where
  "insert_list ins t [] = Inr t"
| "insert_list ins t (v # vs) = rbind (ins t v) (\<lambda>t'. insert_list ins t' vs)"

locale key_index =
  fixes lookup :: "'t \<Rightarrow> 'k \<Rightarrow> 'v option"
    and ins :: "'t \<Rightarrow> 'v \<Rightarrow> 't res"
    and del :: "'t \<Rightarrow> 'k \<Rightarrow> 't res"
    and key :: "'v \<Rightarrow> 'k"
    and ok :: "'t \<Rightarrow> bool"
  assumes ins_new: "ok t \<Longrightarrow> lookup t (key v) = None \<Longrightarrow>
      \<exists>t'. ins t v = Inr t' \<and> ok t' \<and> lookup t' = (lookup t)(key v \<mapsto> v)"
    and del_any: "ok t \<Longrightarrow> \<exists>t'. del t k = Inr t' \<and> ok t' \<and> lookup t' = (lookup t)(k := None)"
begin

lemma ins_del_cancel:
  assumes "ok t" "lookup t (key v) = None"
  shows "\<exists>t' t''. ins t v = Inr t' \<and> lookup t' (key v) = Some v \<and> del t' (key v) = Inr t'' \<and>
    lookup t'' = lookup t"
proof -
  obtain t' where "ins t v = Inr t'" "ok t'" "lookup t' = (lookup t)(key v \<mapsto> v)"
    using ins_new assms by blast
  then show ?thesis using del_any [of t' "key v"] assms(2) by (auto simp: fun_upd_idem)
qed

lemma insert_list_all:
  "ok t \<Longrightarrow> distinct (map key vs) \<Longrightarrow> (\<forall>v \<in> set vs. lookup t (key v) = None) \<Longrightarrow>
   \<exists>t'. insert_list ins t vs = Inr t' \<and> ok t' \<and>
     lookup t' = lookup t ++ map_of (map (\<lambda>v. (key v, v)) vs)"
proof (induction vs arbitrary: t)
  case Nil
  then show ?case by simp
next
  case (Cons v vs)
  then obtain t' where t': "ins t v = Inr t'" "ok t'" "lookup t' = (lookup t)(key v \<mapsto> v)"
    using ins_new [of t v] by auto
  have "\<forall>u \<in> set vs. lookup t' (key u) = None" 
    using Cons.prems(2,3) t'(3) by (auto; metis image_eqI)
  then obtain t'' where t'': "insert_list ins t' vs = Inr t''" "ok t''"
    "lookup t'' = lookup t' ++ map_of (map (\<lambda>v. (key v, v)) vs)"
    using Cons.IH [OF t'(2)] Cons.prems(2) by auto
  have "key v \<notin> dom (map_of (map (\<lambda>v. (key v, v)) vs))"
    using Cons.prems(2) by (auto simp: dom_map_of_conv_image_fst)
  then show ?case using t' t'' by (auto simp: fun_eq_iff map_add_def split: option.splits)
qed

end

lemma option_eqI: "(\<And>y. a = Some y \<longleftrightarrow> b = Some y) \<Longrightarrow> a = b"
  by (metis option.exhaust)

interpretation avl: key_index search_tree_node insert_node delete_node
  "te_lbn :: tree_entry \<Rightarrow> u32" avl_ok
proof unfold_locales
  fix t and v :: tree_entry assume t: "avl_ok t" "search_tree_node t (te_lbn v) = None"
  then obtain t' where t': "insert_node t v = Inr t'" "avl_ok t'"
    "inorder t' = insort_key te_lbn v (inorder t)" using insert_node_inv by blast
  have "search_tree_node t' k = Some e \<longleftrightarrow> ((search_tree_node t)(te_lbn v \<mapsto> v)) k = Some e" for k e
    using t t' search_None_iff [of t "te_lbn v"]
    by (auto simp: avl_ok_def set_insort_key search_iff image_iff)
  then have "search_tree_node t' = (search_tree_node t)(te_lbn v \<mapsto> v)"
    by (intro ext option_eqI) blast
  with t' show "\<exists>t'. insert_node t v = Inr t' \<and> avl_ok t' \<and>
      search_tree_node t' = (search_tree_node t)(te_lbn v \<mapsto> v)" by auto
next
  fix t k assume t: "avl_ok t"
  then obtain t' where t': "delete_node t k = Inr t'" "avl_ok t'"
    "inorder t' = filter (\<lambda>e. te_lbn e \<noteq> k) (inorder t)" using delete_node_inv by blast
  have "search_tree_node t' j = Some e \<longleftrightarrow> ((search_tree_node t)(k := None)) j = Some e" for j e
    using t t' by (auto simp: avl_ok_def search_iff)
  then have "search_tree_node t' = (search_tree_node t)(k := None)"
    by (intro ext option_eqI) blast
  with t' show "\<exists>t'. delete_node t k = Inr t' \<and> avl_ok t' \<and>
      search_tree_node t' = (search_tree_node t)(k := None)" by auto
qed

section \<open>Counting and purging\<close>

definition invalid_entries :: "tree \<Rightarrow> tree_entry list" where
  "invalid_entries t = filter (\<lambda>e. te_valid e = TREE_INVALID) (inorder t)"

text \<open>The counters of the root are right.\<close>

definition root_ok :: "tree_root \<Rightarrow> bool" where
  "root_ok tr \<longleftrightarrow> avl_ok (root tr) \<and> count_total tr = int (length (inorder (root tr))) \<and>
     count_invalid tr = int (length (invalid_entries (root tr)))"

lemma find_invalid_loop_sound:
  "find_invalid_loop st = Some x \<Longrightarrow>
   te_valid x = TREE_INVALID \<and> (\<exists>t \<in> set st. x \<in> set (inorder t))"
  by (induction st rule: find_invalid_loop.induct) (auto simp: Let_def split: if_splits)

lemma find_invalid_loop_complete:
  "find_invalid_loop st = None \<Longrightarrow> Null \<notin> set st \<Longrightarrow> t \<in> set st \<Longrightarrow> x \<in> set (inorder t) \<Longrightarrow>
   te_valid x = TREE_VALID"
proof (induction st arbitrary: t rule: find_invalid_loop.induct)
  case (3 l y h r st)
  let ?st = "if l \<noteq> Null then l # (if r \<noteq> Null then r # st else st)
     else (if r \<noteq> Null then r # st else st)"
  have y: "te_valid y \<noteq> TREE_INVALID" and rec: "find_invalid_loop ?st = None"
    using "3.prems"(1) by (auto simp: Let_def split: if_splits)
  have st: "Null \<notin> set ?st" using "3.prems"(2) by auto
  note IH = "3.IH" [OF y refl refl rec st]
  from "3.prems"(3,4) consider "x = y" | "l \<noteq> Null" "x \<in> set (inorder l)"
    | "r \<noteq> Null" "x \<in> set (inorder r)" | "t \<in> set st"
    by fastforce
  then show ?case
  proof cases
    case 1 with y show ?thesis by (cases "te_valid y") simp_all
  next
    case 2 then show ?thesis by (intro IH [of l]) simp_all
  next
    case 3 then show ?thesis by (intro IH [of r]) simp_all
  next
    case 4 then show ?thesis using "3.prems"(4) by (intro IH [of t]) simp_all
  qed
qed auto

lemma find_invalid_Some:
  assumes "invalid_entries t \<noteq> []"
  obtains x where "find_invalid_tree_node t = Some x" "x \<in> set (invalid_entries t)"
proof (cases "find_invalid_tree_node t")
  case None
  have "t \<noteq> Null" using assms by (auto simp: invalid_entries_def)
  then show thesis
    using None assms find_invalid_loop_complete [of "[t]" t]
    by (fastforce simp: find_invalid_tree_node_def invalid_entries_def filter_empty_conv)
next
  case (Some x)
  then show thesis
    using that find_invalid_loop_sound [of "[t]" x]
    by (auto simp: find_invalid_tree_node_def invalid_entries_def)
qed

lemma filter_key_remove1:
  assumes "keys_sorted xs" "x \<in> set xs"
  shows "filter (\<lambda>e. te_lbn e \<noteq> te_lbn x) xs = remove1 x xs"
  using assms
proof (induction xs)
  case (Cons a xs)
  then have a: "\<forall>b \<in> set xs. te_lbn a < te_lbn b" by (simp add: keys_sorted_Cons)
  show ?case
  proof (cases "x = a")
    case True
    have "filter (\<lambda>e. te_lbn e \<noteq> te_lbn a) xs = xs" using a by (auto simp: filter_id_conv)
    with True show ?thesis by simp
  next
    case False
    with Cons a have "te_lbn a \<noteq> te_lbn x" by auto
    with False Cons show ?thesis by (simp add: keys_sorted_Cons)
  qed
qed simp

lemma delete_invalid:
  assumes "avl_ok t" "x \<in> set (invalid_entries t)"
  obtains t' where "physical_delete_tree_node t (Some x) = Inr t'" "avl_ok t'"
    "inorder t' = remove1 x (inorder t)" "invalid_entries t' = remove1 x (invalid_entries t)"
proof -
  have x: "x \<in> set (inorder t)" using assms(2) by (simp add: invalid_entries_def)
  have "physical_delete_tree_node t (Some x) = delete_node t (te_lbn x)"
    using x by (cases t) auto
  then show thesis
    using that delete_node_inv [OF assms(1), of "te_lbn x"] filter_key_remove1 [OF _ x] assms(1)
    by (auto simp: avl_ok_def invalid_entries_def filter_remove1)
qed

lemma valid_remove1:
  assumes "x \<in> set xs" "te_valid x = TREE_INVALID"
  shows "filter (\<lambda>e. te_valid e = TREE_VALID) (remove1 x xs) = filter (\<lambda>e. te_valid e = TREE_VALID) xs"
  using assms by (induction xs) auto


lemma rebalance_ok:
  "root_ok tr \<Longrightarrow> \<exists>tr'. rebalance_tree_node tr = Inr tr' \<and> root_ok tr' \<and> count_invalid tr' = 0 \<and>
     inorder (root tr') = filter (\<lambda>e. te_valid e = TREE_VALID) (inorder (root tr))"
proof (induction "nat (count_invalid tr)" arbitrary: tr)
  case 0
  then have none: "invalid_entries (root tr) = []" by (simp add: root_ok_def)
  then have "filter (\<lambda>e. te_valid e = TREE_VALID) (inorder (root tr)) = inorder (root tr)"
    by (auto simp: invalid_entries_def filter_empty_conv filter_id_conv) (metis tree_validity.exhaust)
  with 0 none show ?case
    by (simp add: rebalance_tree_node.simps [of tr] root_ok_def)
next
  case (Suc n)
  then have inv: "avl_ok (root tr)" "count_total tr = int (length (inorder (root tr)))"
    "count_invalid tr = int (length (invalid_entries (root tr)))" by (simp_all add: root_ok_def)
  from Suc.hyps(2) have pos: "count_invalid tr > 0" by simp
  then have "invalid_entries (root tr) \<noteq> []" using inv(3) by auto
  then obtain x where x: "find_invalid_tree_node (root tr) = Some x" "x \<in> set (invalid_entries (root tr))"
    by (rule find_invalid_Some)
  obtain t' where t': "physical_delete_tree_node (root tr) (Some x) = Inr t'" "avl_ok t'"
    "inorder t' = remove1 x (inorder (root tr))" "invalid_entries t' = remove1 x (invalid_entries (root tr))"
    using delete_invalid [OF inv(1) x(2)] by blast
  let ?tr = "tr\<lparr>root := t', count_total := count_total tr - 1, count_invalid := count_invalid tr - 1\<rparr>"
  have mem: "x \<in> set (inorder (root tr))" "te_valid x = TREE_INVALID"
    using x(2) by (simp_all add: invalid_entries_def)
  have "length (inorder (root tr)) > 0" using mem by (cases "inorder (root tr)") auto
  then have "root_ok ?tr"
    using inv t' x(2) mem pos by (auto simp: root_ok_def length_remove1 of_nat_diff Suc_le_eq)
  moreover have "n = nat (count_invalid ?tr)" using Suc.hyps(2) pos by simp
  ultimately obtain tr' where "rebalance_tree_node ?tr = Inr tr'" "root_ok tr'" "count_invalid tr' = 0"
    "inorder (root tr') = filter (\<lambda>e. te_valid e = TREE_VALID) (inorder t')"
    using Suc.hyps(1) by fastforce
  then show ?case
    using pos x(1) t' valid_remove1 [OF mem] by (simp add: rebalance_tree_node.simps [of tr])
qed

section \<open>Height\<close>

lemma avl_size:
  "avl t \<Longrightarrow> (2::nat) ^ (nat (ht t) div 2) \<le> length (inorder t) + 1"
proof (induction "nat (ht t)" arbitrary: t rule: less_induct)
  case less
  show ?case
  proof (cases t)
    case Null
    then show ?thesis by simp
  next
    case (Node l x h r)
    show ?thesis
    proof (cases "ht t \<le> 1")
      case True
      then have "nat (ht t) div 2 = 0" by simp
      then show ?thesis by simp
    next
      case False
      with Node less.prems have sub: "avl l" "avl r" "ht t - 2 \<le> ht l" "ht t - 2 \<le> ht r"
        "ht l < ht t" "ht r < ht t" by auto
      define k where "k = nat (ht t) div 2 - 1"
      have k: "nat (ht t) div 2 = Suc k" "k \<le> nat (ht l) div 2" "k \<le> nat (ht r) div 2"
        using False sub(3,4) unfolding k_def by linarith+
      have "(2::nat) ^ k \<le> 2 ^ (nat (ht l) div 2)" "(2::nat) ^ k \<le> 2 ^ (nat (ht r) div 2)"
        using k(2,3) by (simp_all add: power_increasing)
      moreover have "nat (ht l) < nat (ht t)" "nat (ht r) < nat (ht t)"
        using sub(5,6) False by linarith+
      ultimately have "(2::nat) ^ k \<le> length (inorder l) + 1" "(2::nat) ^ k \<le> length (inorder r) + 1"
        using less.hyps sub(1,2) le_trans by blast+
      then show ?thesis using k(1) Node by simp
    qed
  qed
qed


section \<open>Properties\<close>

text \<open>C34. Inserting a block number that the tree does not hold never dereferences null, keeps the tree a
  balanced search tree with right stored heights, and changes exactly that key of the index.\<close>
theorem avl_insert_correct:
  assumes "avl_ok t" "search_tree_node t (te_lbn e) = None"
  shows "\<exists>t'. insert_node t e = Inr t' \<and> avl_ok t' \<and>
    search_tree_node t' = (search_tree_node t)(te_lbn e \<mapsto> e)"
  using avl.ins_new [OF assms] .

abbreviation demo_entry :: "u32 \<Rightarrow> tree_entry" where
  "demo_entry k \<equiv> init_tree_node 0 k"

definition demo_tree :: tree where
  "demo_tree = Node (Node Null (demo_entry 3) 1 Null) (demo_entry 5) 2 Null"

lemma demo_tree_ok: "avl_ok demo_tree"
  by (simp add: avl_ok_def demo_tree_def init_tree_node_def keys_sorted_def)

theorem avl_insert_correct_witness:
  "\<exists>t'. insert_node demo_tree (demo_entry 4) = Inr t' \<and> avl_ok t' \<and>
     te_lbn (the (search_tree_node t' 4)) = 4"
  using avl_insert_correct [OF demo_tree_ok, of "demo_entry 4"]
  by (auto simp: demo_tree_def init_tree_node_def)

text \<open>C35. Physically deleting any block number, present or not, never dereferences null on a balanced
  search tree, keeps it one, and removes exactly that key from the index.\<close>
theorem avl_delete_correct:
  assumes "avl_ok t"
  shows "\<exists>t'. physical_delete_tree_node t (Some e) = Inr t' \<and> avl_ok t' \<and>
    search_tree_node t' = (search_tree_node t)(te_lbn e := None)"
proof (cases "t = Null")
  case True
  with assms show ?thesis by (auto simp: fun_upd_idem)
next
  case False
  then have "physical_delete_tree_node t (Some e) = delete_node t (te_lbn e)" by (cases t) auto
  with avl.del_any [OF assms] show ?thesis by simp
qed

theorem avl_delete_correct_witness:
  "\<exists>t'. physical_delete_tree_node demo_tree (Some (demo_entry 5)) = Inr t' \<and> avl_ok t' \<and>
     search_tree_node t' 5 = None \<and> search_tree_node t' 3 \<noteq> None"
  using avl_delete_correct [OF demo_tree_ok, of "demo_entry 5"]
  by (auto simp: demo_tree_def init_tree_node_def)

text \<open>C36. Purging: on a tree whose counters are right, \<open>rebalance_tree_node\<close> terminates without a fault,
  removes exactly the logically deleted entries, keeps every valid one in order, and ends with an
  invalid count of zero and the counters right.\<close>
theorem avl_rebalance_purges:
  assumes "root_ok tr"
  shows "\<exists>tr'. rebalance_tree_node tr = Inr tr' \<and> root_ok tr' \<and> count_invalid tr' = 0 \<and>
    inorder (root tr') = filter (\<lambda>e. te_valid e = TREE_VALID) (inorder (root tr))"
  using rebalance_ok [OF assms] .

theorem avl_rebalance_purges_witness:
  "\<exists>tr'. rebalance_tree_node \<lparr>root = fst (mark_invalid demo_tree 5), count_total = 2, count_invalid = 1\<rparr> =
       Inr tr' \<and> inorder (root tr') = [demo_entry 3]"
proof -
  have "root_ok \<lparr>root = fst (mark_invalid demo_tree 5), count_total = 2, count_invalid = 1\<rparr>"
    by (simp add: root_ok_def avl_ok_def invalid_entries_def demo_tree_def init_tree_node_def keys_sorted_def)
  from avl_rebalance_purges [OF this] show ?thesis
    by (auto simp: demo_tree_def init_tree_node_def)
qed

lemma mark_invalid_inorder:
  "keys_sorted (inorder t) \<Longrightarrow> mark_invalid t k = (t', b) \<Longrightarrow>
   inorder t' = map (\<lambda>e. if te_lbn e = k then e\<lparr>te_valid := TREE_INVALID\<rparr> else e) (inorder t) \<and>
   ht t' = ht t \<and> (avl t \<longrightarrow> avl t') \<and>
   length (invalid_entries t') = length (invalid_entries t) + (if b then 1 else 0)"
proof (induction t arbitrary: t' b)
  case Null
  then show ?case by simp
next
  case (Node l x h r)
  have idl: "map (\<lambda>e. if te_lbn e = k then e\<lparr>te_valid := TREE_INVALID\<rparr> else e) (inorder l) = inorder l"
    if "te_lbn x \<le> k" using that Node.prems(1) by (intro map_idI) auto
  have idr: "map (\<lambda>e. if te_lbn e = k then e\<lparr>te_valid := TREE_INVALID\<rparr> else e) (inorder r) = inorder r"
    if "k \<le> te_lbn x" using that Node.prems(1) by (intro map_idI) auto
  consider "k < te_lbn x" | "te_lbn x < k" | "k = te_lbn x" by (metis linorder_neqE)
  then show ?case
  proof cases
    case 1
    obtain l' c where "mark_invalid l k = (l', c)" by fastforce
    with 1 Node.prems Node.IH(1) [of l' c] idr show ?thesis
      by (auto simp: invalid_entries_def)
  next
    case 2
    obtain r' c where "mark_invalid r k = (r', c)" by fastforce
    moreover have "\<not> k < te_lbn x" "k \<noteq> te_lbn x" using 2 by auto
    ultimately show ?thesis using 2 Node.prems Node.IH(2) [of r' c] idl
      by (auto simp: invalid_entries_def)
  next
    case 3
    with Node.prems idl idr show ?thesis
      by (cases "te_valid x") (auto simp: invalid_entries_def)
  qed
qed

lemma keys_sorted_map: "(\<And>e. te_lbn (f e) = te_lbn e) \<Longrightarrow> keys_sorted (map f xs) = keys_sorted xs"
  by (simp add: keys_sorted_def comp_def)

text \<open>Logical deletion marks the entry with the key and nothing else, keeps the tree balanced and
  sorted, and counts an entry once however often it is deleted.\<close>
theorem avl_logical_delete_correct:
  assumes "root_ok tr"
  shows "root_ok (logical_delete_tree_node tr k) \<and>
    inorder (root (logical_delete_tree_node tr k)) =
      map (\<lambda>e. if te_lbn e = k then e\<lparr>te_valid := TREE_INVALID\<rparr> else e) (inorder (root tr))"
proof -
  obtain t' b where m: "mark_invalid (root tr) k = (t', b)" by fastforce
  have s: "keys_sorted (inorder (root tr))" using assms by (simp add: root_ok_def avl_ok_def)
  from mark_invalid_inorder [OF s m] m assms show ?thesis
    by (auto simp: logical_delete_tree_node_def root_ok_def avl_ok_def keys_sorted_map)
qed

theorem avl_logical_delete_correct_witness:
  "root_ok (logical_delete_tree_node \<lparr>root = demo_tree, count_total = 2, count_invalid = 0\<rparr> 3)"
proof -
  have "root_ok \<lparr>root = demo_tree, count_total = 2, count_invalid = 0\<rparr>"
    using demo_tree_ok by (simp add: root_ok_def invalid_entries_def demo_tree_def init_tree_node_def)
  from avl_logical_delete_correct [OF this, of 3] show ?thesis by simp
qed

text \<open>A balanced tree with \<open>n\<close> entries has height at most about twice the logarithm of \<open>n\<close>.\<close>
theorem avl_height_bound:
  assumes "avl_ok t"
  shows "2 ^ (nat (get_height t) div 2) \<le> length (inorder t) + 1"
  using avl_size [of t] assms by (simp add: avl_ok_def)

theorem avl_height_bound_witness: "2 ^ (nat (get_height demo_tree) div 2) \<le> length (inorder demo_tree) + 1"
  using avl_height_bound [OF demo_tree_ok] .

text \<open>Equal block numbers defeat the rebalancing of an insertion, which compares keys strictly: three
  insertions of one block number leave a chain of height 3 that is not balanced.\<close>
theorem avl_insert_duplicates_unbalanced:
  "\<exists>t. insert_list insert_node Null [demo_entry 7, demo_entry 7, demo_entry 7] = Inr t \<and>
     get_balance t = -2 \<and> \<not> avl t"
  by (simp add: insert_rebalance_def Let_def update_height_def init_tree_node_def)

section \<open>The share of deleted entries\<close>

definition get_invalid_ratio :: "tree_root \<Rightarrow> rat" where
  "get_invalid_ratio tr =
     (if count_total tr = 0 then 0 else ddiv (dbl (count_invalid tr)) (dbl (count_total tr)))"

text \<open>The ratio is a number between 0 and 1 that rounding keeps apart from its ends: it is 0 exactly
  when no entry is marked invalid, and 1 exactly when there are entries and all of them are. The
  bound on the number of entries is the range of the counters' type.\<close>
theorem avl_invalid_ratio:
  assumes "root_ok tr" "count_total tr < 2 ^ 31"
  shows "0 \<le> get_invalid_ratio tr \<and> get_invalid_ratio tr \<le> 1 \<and>
    (get_invalid_ratio tr = 0 \<longleftrightarrow> invalid_entries (root tr) = []) \<and>
    (get_invalid_ratio tr = 1 \<longleftrightarrow> inorder (root tr) \<noteq> [] \<and> invalid_entries (root tr) = inorder (root tr))"
proof (cases "inorder (root tr) = []")
  case True
  with assms(1) show ?thesis by (simp add: root_ok_def get_invalid_ratio_def invalid_entries_def)
next
  case False
  let ?i = "count_invalid tr" and ?n = "count_total tr"
  have len: "?i = int (length (invalid_entries (root tr)))" "?n = int (length (inorder (root tr)))"
    using assms(1) by (simp_all add: root_ok_def)
  have le: "length (invalid_entries (root tr)) \<le> length (inorder (root tr))" by (simp add: invalid_entries_def)
  have full: "?i = ?n \<longleftrightarrow> invalid_entries (root tr) = inorder (root tr)"
  proof
    assume "?i = ?n"
    then have "\<not> length (invalid_entries (root tr)) < length (inorder (root tr))" unfolding len by simp
    then show "invalid_entries (root tr) = inorder (root tr)"
      unfolding invalid_entries_def filter_id_conv
      using length_filter_less [of _ "inorder (root tr)" "\<lambda>e. te_valid e = TREE_INVALID"] by auto
  qed (simp add: len)
  have n: "0 < ?n" "?n < 2 ^ 31" "0 \<le> ?i" "?i \<le> ?n" using False len le assms(2) by simp_all
  have nr: "(0 :: rat) < of_int ?n" using n by simp
  have r: "get_invalid_ratio tr = rnd (of_int ?i / of_int ?n)"
    using n by (simp add: get_invalid_ratio_def ddiv_def dbl_int)
  have bounds: "0 \<le> get_invalid_ratio tr" "get_invalid_ratio tr \<le> 1"
    using ddiv_le [of "of_int ?i" "of_int ?n" 1] n unfolding r ddiv_def by simp_all
  have zero: "get_invalid_ratio tr = 0 \<longleftrightarrow> ?i = 0"
  proof
    assume "get_invalid_ratio tr = 0"
    then have "of_int ?i / of_int ?n - of_int ?i / of_int ?n / 2 ^ 53 \<le> (0 :: rat)"
      using rnd_lower [of "of_int ?i / of_int ?n"] n r by simp
    then have "(of_int ?i :: rat) \<le> 0" using nr by (simp add: field_simps)
    then show "?i = 0" using n by simp
  qed (simp add: r)
  have one: "get_invalid_ratio tr = 1 \<longleftrightarrow> ?i = ?n"
  proof
    assume one: "get_invalid_ratio tr = 1"
    show "?i = ?n"
    proof (rule ccontr)
      assume "?i \<noteq> ?n"
      with n have "of_int ?i \<le> (of_int ?n :: rat) - 1" using of_int_le_iff [where ?'a = rat, of ?i "?n - 1"] by simp
      moreover have "(of_int ?n :: rat) < 2147483648" using n of_int_less_iff [where ?'a = rat, of ?n 2147483648] by simp
      ultimately have "of_int ?i / of_int ?n \<le> (1 :: rat) - 1 / 2 ^ 31" using nr by (simp add: field_simps)
      moreover have "(0 :: rat) \<le> of_int ?i / of_int ?n" using n by simp
      ultimately have "rnd (of_int ?i / of_int ?n) \<le> rnd (1 - 1 / 2 ^ 31)" by (intro rnd_mono)
      also have "rnd (1 - 1 / 2 ^ 31 :: rat) = 1 - 1 / 2 ^ 31"
        using rnd_exact [of "2 ^ 31 - 1" "- 31"] by (simp add: pow2_def)
      finally show False using one r by simp
    qed
  qed (use nr in \<open>simp add: r rnd_int [of 1, simplified]\<close>)
  from bounds zero one full len False show ?thesis by simp
qed

theorem avl_invalid_ratio_witness:
  "0 \<le> get_invalid_ratio \<lparr>root = fst (mark_invalid demo_tree 5), count_total = 2, count_invalid = 1\<rparr> \<and>
   get_invalid_ratio \<lparr>root = fst (mark_invalid demo_tree 5), count_total = 2, count_invalid = 1\<rparr> \<notin> {0, 1}"
proof -
  have "root_ok \<lparr>root = fst (mark_invalid demo_tree 5), count_total = 2, count_invalid = 1\<rparr>"
    by (simp add: root_ok_def avl_ok_def invalid_entries_def demo_tree_def init_tree_node_def keys_sorted_def)
  from avl_invalid_ratio [OF this] show ?thesis
    by (simp add: demo_tree_def init_tree_node_def invalid_entries_def)
qed

end
