(* ===== verification/HashList.thy ===== *)
theory HashList
  imports Prelude
begin

text \<open>
  Hash nodes in the C++ heap and the doubly linked list of them (\<^verbatim>\<open>include/nvm0hash.h\<close>,
  \<^verbatim>\<open>include/nvm0list.h\<close>, \<^verbatim>\<open>src/nvm0list.cc\<close>). Pointers are addresses in a store, because the
  list is intrusive: the same nodes are shared with the hash table. \<open>dll\<close> relates the store
  and a list header to the sequence of nodes; the locale \<open>deque\<close> is the contract the list
  operations meet.
\<close>

section \<open>Nodes and the store\<close>

record hash_node =
  hn_inode :: "nat option"      \<comment> \<open>pointer into the inode table, by index\<close>
  hn_lbn :: u32
  hn_is_valid :: bool
  hn_mutex :: bool              \<comment> \<open>held or not\<close>
  hn_prev :: "nat option"
  hn_next :: "nat option"

type_synonym node_heap = "nat \<Rightarrow> hash_node option"

text \<open>Writing fields through a pointer.\<close>

definition upd_node :: "node_heap \<Rightarrow> nat option \<Rightarrow> (hash_node \<Rightarrow> hash_node) \<Rightarrow> node_heap res" where
  "upd_node h p f = (case p of None \<Rightarrow> Inl NullDeref
     | Some a \<Rightarrow> (case h a of None \<Rightarrow> Inl NullDeref | Some nd \<Rightarrow> Inr (h(a \<mapsto> f nd))))"

lemma upd_node_simps [simp, res_simps]:
  "upd_node h None f = Inl NullDeref"
  "h a = Some nd \<Longrightarrow> upd_node h (Some a) f = Inr (h(a \<mapsto> f nd))"
  "h a = None \<Longrightarrow> upd_node h (Some a) f = Inl NullDeref"
  by (simp_all add: upd_node_def)

lemma upd_node_Inr_iff:
  "upd_node h p f = Inr h' \<longleftrightarrow> (\<exists>a nd. p = Some a \<and> h a = Some nd \<and> h' = h(a \<mapsto> f nd))"
  by (auto simp: upd_node_def split: option.splits)

record hash_node_list =
  list_head :: "nat option"
  list_tail :: "nat option"
  list_count :: u64

section \<open>List operations\<close>

definition new_list :: hash_node_list where
  "new_list = \<lparr>list_head = None, list_tail = None, list_count = 0\<rparr>"

definition push_back_list_node ::
    "node_heap \<Rightarrow> hash_node_list \<Rightarrow> nat option \<Rightarrow> (node_heap \<times> hash_node_list) res" where
  "push_back_list_node h l node =
     (if list_tail l = None then
        rbind (upd_node h node (\<lambda>nd. nd\<lparr>hn_prev := None, hn_next := None\<rparr>)) (\<lambda>h1.
          Inr (h1, l\<lparr>list_head := node, list_tail := node, list_count := list_count l + 1\<rparr>))
      else
        rbind (upd_node h (list_tail l) (\<lambda>nd. nd\<lparr>hn_next := node\<rparr>)) (\<lambda>h1.
        rbind (upd_node h1 node (\<lambda>nd. nd\<lparr>hn_prev := list_tail l, hn_next := None\<rparr>)) (\<lambda>h2.
          Inr (h2, l\<lparr>list_tail := node, list_count := list_count l + 1\<rparr>))))"

definition pop_front_list_node ::
    "node_heap \<Rightarrow> hash_node_list \<Rightarrow> (nat option \<times> node_heap \<times> hash_node_list) res" where
  "pop_front_list_node h l =
     (let node = list_head l in
      if node = None then Inr (node, h, l)
      else rbind (deref h node) (\<lambda>nd.
        let l1 = l\<lparr>list_head := hn_next nd\<rparr> in
        if list_head l1 = None then
          Inr (node, h, l1\<lparr>list_tail := None, list_count := list_count l - 1\<rparr>)
        else rbind (upd_node h (list_head l1) (\<lambda>nd. nd\<lparr>hn_prev := None\<rparr>)) (\<lambda>h1.
          Inr (node, h1, l1\<lparr>list_count := list_count l - 1\<rparr>))))"

definition remove_list_node ::
    "node_heap \<Rightarrow> hash_node_list \<Rightarrow> nat option \<Rightarrow> (node_heap \<times> hash_node_list) res" where
  "remove_list_node h l node =
     rbind
       (if node = list_head l \<and> node = list_tail l then
          Inr (h, l\<lparr>list_head := None, list_tail := None\<rparr>)
        else if node = list_head l then
          rbind (deref h (list_head l)) (\<lambda>nd.
          rbind (upd_node h (hn_next nd) (\<lambda>x. x\<lparr>hn_prev := None\<rparr>)) (\<lambda>h1.
            Inr (h1, l\<lparr>list_head := hn_next nd\<rparr>)))
        else if node = list_tail l then
          rbind (deref h (list_tail l)) (\<lambda>nd.
          rbind (upd_node h (hn_prev nd) (\<lambda>x. x\<lparr>hn_next := None\<rparr>)) (\<lambda>h1.
            Inr (h1, l\<lparr>list_tail := hn_prev nd\<rparr>)))
        else
          rbind (deref h node) (\<lambda>nd.
          rbind (upd_node h (hn_prev nd) (\<lambda>x. x\<lparr>hn_next := hn_next nd\<rparr>)) (\<lambda>h1.
          rbind (deref h1 node) (\<lambda>nd1.
          rbind (upd_node h1 (hn_next nd1) (\<lambda>x. x\<lparr>hn_prev := hn_prev nd1\<rparr>)) (\<lambda>h2.
            Inr (h2, l))))))
       (\<lambda>(h', l'). Inr (h', l'\<lparr>list_count := list_count l' - 1\<rparr>))"

section \<open>Linked segments\<close>

text \<open>
  \<open>dseg h p xs s\<close>: the nodes \<open>xs\<close> are linked in this order, the first one's \<open>prev\<close> is \<open>p\<close> and
  the last one's \<open>next\<close> is \<open>s\<close>.
\<close>

definition first_of :: "nat list \<Rightarrow> nat option \<Rightarrow> nat option" where
  "first_of xs s = (case xs of [] \<Rightarrow> s | x # _ \<Rightarrow> Some x)"

definition last_of :: "nat list \<Rightarrow> nat option \<Rightarrow> nat option" where
  "last_of xs p = (if xs = [] then p else Some (last xs))"

lemma first_of_simps [simp]: "first_of [] s = s" "first_of (x # xs) s = Some x"
  "first_of (xs @ ys) s = first_of xs (first_of ys s)"
  by (simp_all add: first_of_def split: list.splits)

lemma last_of_simps [simp]: "last_of [] p = p" "last_of (xs @ ys) p = last_of ys (last_of xs p)"
  "last_of (x # xs) p = last_of xs (Some x)"
  by (simp_all add: last_of_def)

lemma first_of_neq [simp]: "n \<notin> set xs \<Longrightarrow> s \<noteq> Some n \<Longrightarrow> first_of xs s \<noteq> Some n"
  by (cases xs) auto

lemma last_of_neq [simp]: "n \<notin> set xs \<Longrightarrow> p \<noteq> Some n \<Longrightarrow> last_of xs p \<noteq> Some n"
  by (cases xs rule: rev_cases) (auto simp: last_of_def)

lemma first_of_neq' [simp]: "n \<notin> set xs \<Longrightarrow> s \<noteq> Some n \<Longrightarrow> Some n \<noteq> first_of xs s"
  by (cases xs) auto

lemma last_of_neq' [simp]: "n \<notin> set xs \<Longrightarrow> p \<noteq> Some n \<Longrightarrow> Some n \<noteq> last_of xs p"
  by (metis last_of_neq)

fun dseg :: "node_heap \<Rightarrow> nat option \<Rightarrow> nat list \<Rightarrow> nat option \<Rightarrow> bool" where
  "dseg h p [] s = True"
| "dseg h p (x # xs) s =
     ((\<exists>nd. h x = Some nd \<and> hn_prev nd = p \<and> hn_next nd = first_of xs s) \<and> dseg h (Some x) xs s)"

lemma dseg_append:
  "dseg h p (xs @ ys) s \<longleftrightarrow> dseg h p xs (first_of ys s) \<and> dseg h (last_of xs p) ys s"
  by (induction xs arbitrary: p) auto

lemma dseg_frame: "x \<notin> set xs \<Longrightarrow> dseg (h(x \<mapsto> nd)) p xs s = dseg h p xs s"
  by (induction xs arbitrary: p) auto

definition dll :: "node_heap \<Rightarrow> hash_node_list \<Rightarrow> nat list \<Rightarrow> bool" where
  "dll h l xs \<longleftrightarrow> distinct xs \<and> dseg h None xs None \<and> list_head l = first_of xs None \<and>
     list_tail l = last_of xs None \<and> list_count l = of_nat (length xs)"

lemma dll_new: "dll h new_list []"
  by (simp add: dll_def new_list_def)

lemma dll_push_back:
  assumes "dll h l xs" "h n = Some nd" "n \<notin> set xs"
  shows "\<exists>h' l'. push_back_list_node h l (Some n) = Inr (h', l') \<and> dll h' l' (xs @ [n]) \<and>
    dom h' = dom h"
proof (cases xs rule: rev_cases)
  case Nil
  with assms show ?thesis by (auto simp: push_back_list_node_def dll_def)
next
  case (snoc ys y)
  with assms show ?thesis
    by (auto simp: push_back_list_node_def dll_def dseg_append dseg_frame last_of_def)
qed

lemma dll_pop_front:
  assumes "dll h l (x # xs)"
  shows "\<exists>h' l'. pop_front_list_node h l = Inr (Some x, h', l') \<and> dll h' l' xs \<and>
    dom h' = dom h"
  using assms by (cases xs) (auto simp: pop_front_list_node_def dll_def dseg_frame Let_def)

lemma dll_pop_front_empty: "dll h l [] \<Longrightarrow> pop_front_list_node h l = Inr (None, h, l)"
  by (simp add: pop_front_list_node_def dll_def)

lemma dll_remove:
  assumes "dll h l (as @ n # bs)"
  shows "\<exists>h' l'. remove_list_node h l (Some n) = Inr (h', l') \<and> dll h' l' (as @ bs) \<and>
    dom h' = dom h"
proof (cases as rule: rev_cases)
  case Nil
  with assms show ?thesis
    by (cases bs) (auto simp: remove_list_node_def dll_def dseg_frame)
next
  case (snoc cs c)
  with assms show ?thesis
    by (cases bs) (auto simp: remove_list_node_def dll_def dseg_append dseg_frame)
qed

section \<open>The contract\<close>

fun push_all :: "('s \<Rightarrow> 'n \<Rightarrow> 's res) \<Rightarrow> 's \<Rightarrow> 'n list \<Rightarrow> 's res" where
  "push_all push s [] = Inr s"
| "push_all push s (n # ns) = rbind (push s n) (\<lambda>s'. push_all push s' ns)"

fun pop_n :: "('s \<Rightarrow> ('n option \<times> 's) res) \<Rightarrow> 's \<Rightarrow> nat \<Rightarrow> ('n option list \<times> 's) res" where
  "pop_n pop s 0 = Inr ([], s)"
| "pop_n pop s (Suc k) = rbind (pop s) (\<lambda>(n, s'). rbind (pop_n pop s' k) (\<lambda>(ns, s''). Inr (n # ns, s'')))"

locale deque =
  fixes push :: "'s \<Rightarrow> 'n \<Rightarrow> 's res"
    and pop :: "'s \<Rightarrow> ('n option \<times> 's) res"
    and remove :: "'s \<Rightarrow> 'n \<Rightarrow> 's res"
    and holds :: "'s \<Rightarrow> 'n list \<Rightarrow> bool"
    and allocated :: "'s \<Rightarrow> 'n set"
  assumes push_holds: "holds s xs \<Longrightarrow> n \<in> allocated s \<Longrightarrow> n \<notin> set xs \<Longrightarrow>
      \<exists>s'. push s n = Inr s' \<and> holds s' (xs @ [n]) \<and> allocated s' = allocated s"
    and pop_holds: "holds s (x # xs) \<Longrightarrow>
      \<exists>s'. pop s = Inr (Some x, s') \<and> holds s' xs \<and> allocated s' = allocated s"
    and pop_empty: "holds s [] \<Longrightarrow> pop s = Inr (None, s)"
    and remove_holds: "holds s (as @ n # bs) \<Longrightarrow>
      \<exists>s'. remove s n = Inr s' \<and> holds s' (as @ bs) \<and> allocated s' = allocated s"
begin

lemma push_all_holds:
  "holds s xs \<Longrightarrow> set ns \<subseteq> allocated s \<Longrightarrow> distinct ns \<Longrightarrow> set xs \<inter> set ns = {} \<Longrightarrow>
   \<exists>s'. push_all push s ns = Inr s' \<and> holds s' (xs @ ns) \<and> allocated s' = allocated s"
proof (induction ns arbitrary: s xs)
  case Nil
  then show ?case by simp
next
  case (Cons n ns)
  then obtain s' where s': "push s n = Inr s'" "holds s' (xs @ [n])" "allocated s' = allocated s"
    using push_holds [of s xs n] by auto
  then show ?case using Cons.IH [OF s'(2)] Cons.prems by auto
qed

lemma pop_n_holds:
  "holds s xs \<Longrightarrow> \<exists>s'. pop_n pop s (length xs) = Inr (map Some xs, s') \<and> holds s' []"
proof (induction xs arbitrary: s)
  case Nil
  then show ?case by auto
next
  case (Cons x xs)
  then obtain s' where "pop s = Inr (Some x, s')" "holds s' xs" using pop_holds by blast
  then show ?case using Cons.IH [of s'] by auto
qed

lemma push_all_pop_n:
  assumes "holds s []" "set ns \<subseteq> allocated s" "distinct ns"
  shows "\<exists>s' s''. push_all push s ns = Inr s' \<and> pop_n pop s' (length ns) = Inr (map Some ns, s'')"
  using push_all_holds [OF assms(1-3)] pop_n_holds by fastforce

end

interpretation hash_list: deque
  "\<lambda>(h, l) n. push_back_list_node h l (Some n)" "\<lambda>(h, l). pop_front_list_node h l"
  "\<lambda>(h, l) n. remove_list_node h l (Some n)" "\<lambda>(h, l) xs. dll h l xs" "\<lambda>(h, l). dom h"
proof unfold_locales
  fix s :: "node_heap \<times> hash_node_list" and xs n
  assume "(case s of (h, l) \<Rightarrow> \<lambda>xs. dll h l xs) xs" "n \<in> (case s of (h, l) \<Rightarrow> dom h)" "n \<notin> set xs"
  then show "\<exists>s'. (case s of (h, l) \<Rightarrow> \<lambda>n. push_back_list_node h l (Some n)) n = Inr s' \<and>
      (case s' of (h, l) \<Rightarrow> \<lambda>xs. dll h l xs) (xs @ [n]) \<and>
      (case s' of (h, l) \<Rightarrow> dom h) = (case s of (h, l) \<Rightarrow> dom h)"
    using dll_push_back [of "fst s" "snd s" xs n] by (auto simp: split_beta dom_def)
next
  fix s :: "node_heap \<times> hash_node_list" and x xs
  assume "(case s of (h, l) \<Rightarrow> \<lambda>xs. dll h l xs) (x # xs)"
  then show "\<exists>s'. (case s of (h, l) \<Rightarrow> pop_front_list_node h l) = Inr (Some x, s') \<and>
      (case s' of (h, l) \<Rightarrow> \<lambda>xs. dll h l xs) xs \<and>
      (case s' of (h, l) \<Rightarrow> dom h) = (case s of (h, l) \<Rightarrow> dom h)"
    using dll_pop_front [of "fst s" "snd s" x xs] by (auto simp: split_beta)
next
  fix s :: "node_heap \<times> hash_node_list"
  assume "(case s of (h, l) \<Rightarrow> \<lambda>xs. dll h l xs) []"
  then show "(case s of (h, l) \<Rightarrow> pop_front_list_node h l) = Inr (None, s)"
    using dll_pop_front_empty [of "fst s" "snd s"] by (auto simp: split_beta)
next
  fix s :: "node_heap \<times> hash_node_list" and as n bs
  assume "(case s of (h, l) \<Rightarrow> \<lambda>xs. dll h l xs) (as @ n # bs)"
  then show "\<exists>s'. (case s of (h, l) \<Rightarrow> \<lambda>n. remove_list_node h l (Some n)) n = Inr s' \<and>
      (case s' of (h, l) \<Rightarrow> \<lambda>xs. dll h l xs) (as @ bs) \<and>
      (case s' of (h, l) \<Rightarrow> dom h) = (case s of (h, l) \<Rightarrow> dom h)"
    using dll_remove [of "fst s" "snd s" as n bs] by (auto simp: split_beta)
qed

section \<open>Properties\<close>

text \<open>C37. Removing a node from anywhere in a well-formed list (alone, first, last, inside) relinks its
  neighbours: the list stays well formed, keeps the other nodes in order, and counts one less.\<close>
theorem remove_list_node_correct:
  assumes "dll h l (as @ n # bs)"
  shows "\<exists>h' l'. remove_list_node h l (Some n) = Inr (h', l') \<and> dll h' l' (as @ bs)"
  using hash_list.remove_holds [of "(h, l)" as n bs] assms by auto

text \<open>Nodes appended to a new list come out in the order they went in, with no fault.\<close>
theorem hash_list_fifo:
  assumes "distinct ns" "set ns \<subseteq> dom h"
  shows "\<exists>s' s''. push_all (\<lambda>(h, l) n. push_back_list_node h l (Some n)) (h, new_list) ns = Inr s' \<and>
    pop_n (\<lambda>(h, l). pop_front_list_node h l) s' (length ns) = Inr (map Some ns, s'')"
  using hash_list.push_all_pop_n [of "(h, new_list)" ns] assms dll_new by auto

abbreviation blank_node :: hash_node where
  "blank_node \<equiv> \<lparr>hn_inode = None, hn_lbn = 0, hn_is_valid = False, hn_mutex = False,
     hn_prev = None, hn_next = None\<rparr>"

lemma dll_two:
  "dll [1 \<mapsto> blank_node\<lparr>hn_next := Some 2\<rparr>, 2 \<mapsto> blank_node\<lparr>hn_prev := Some 1\<rparr>]
     \<lparr>list_head = Some 1, list_tail = Some 2, list_count = 2\<rparr> ([] @ 1 # [2])"
  by (simp add: dll_def)

theorem remove_list_node_correct_witness:
  "\<exists>h' l'. remove_list_node
      [1 \<mapsto> blank_node\<lparr>hn_next := Some 2\<rparr>, 2 \<mapsto> blank_node\<lparr>hn_prev := Some 1\<rparr>]
      \<lparr>list_head = Some 1, list_tail = Some 2, list_count = 2\<rparr> (Some 1) = Inr (h', l') \<and> dll h' l' [2]"
  using remove_list_node_correct [OF dll_two] by simp

theorem hash_list_fifo_witness:
  "\<exists>s' s''. push_all (\<lambda>(h, l) n. push_back_list_node h l (Some n))
      ([1 \<mapsto> blank_node, 2 \<mapsto> blank_node], new_list) [2, 1] = Inr s' \<and>
    pop_n (\<lambda>(h, l). pop_front_list_node h l) s' 2 = Inr ([Some 2, Some 1], s'')"
proof -
  have "distinct [2, 1 :: nat]" "set [2, 1 :: nat] \<subseteq> dom [1 \<mapsto> blank_node, 2 \<mapsto> blank_node]" by auto
  from hash_list_fifo [OF this] show ?thesis
    by (simp only: list.size add_0 One_nat_def [symmetric] one_add_one list.map)
qed

text \<open>The list does not survive appending a node it already ends in: the node becomes its own
  predecessor and the count runs ahead of the links, so no sequence of nodes describes the list.\<close>
theorem push_back_twice_breaks_list:
  assumes "dll h l (xs @ [n])"
  shows "\<exists>h' l'. push_back_list_node h l (Some n) = Inr (h', l') \<and>
    hn_prev (the (h' n)) = Some n \<and> (\<forall>ys. \<not> dll h' l' ys)"
proof -
  obtain nd where nd: "h n = Some nd" "list_tail l = Some n"
    using assms by (auto simp: dll_def dseg_append)
  define h' where "h' = h(n \<mapsto> nd\<lparr>hn_next := Some n\<rparr>, n \<mapsto> nd\<lparr>hn_next := Some n, hn_prev := Some n, hn_next := None\<rparr>)"
  define l' where "l' = l\<lparr>list_tail := Some n, list_count := list_count l + 1\<rparr>"
  have push: "push_back_list_node h l (Some n) = Inr (h', l')"
    using nd by (simp add: push_back_list_node_def h'_def l'_def)
  have self: "hn_prev (the (h' n)) = Some n" by (simp add: h'_def)
  have "\<not> dll h' l' ys" for ys
  proof
    assume d: "dll h' l' ys"
    then obtain zs where ys: "ys = zs @ [n]"
      by (cases ys rule: rev_cases) (auto simp: dll_def l'_def)
    with d self have "last_of zs None = Some n" by (auto simp: dll_def dseg_append)
    then have "n \<in> set zs" by (auto simp: last_of_def split: if_splits)
    with d ys show False by (simp add: dll_def)
  qed
  with push self show ?thesis by blast
qed

theorem push_back_twice_breaks_list_witness:
  "\<exists>h' l'. push_back_list_node [1 \<mapsto> blank_node] \<lparr>list_head = Some 1, list_tail = Some 1, list_count = 1\<rparr>
      (Some 1) = Inr (h', l') \<and> hn_prev (the (h' 1)) = Some 1 \<and> (\<forall>ys. \<not> dll h' l' ys)"
proof -
  have "dll [1 \<mapsto> blank_node] \<lparr>list_head = Some 1, list_tail = Some 1, list_count = 1\<rparr> ([] @ [1])"
    by (simp add: dll_def)
  from push_back_twice_breaks_list [OF this] show ?thesis .
qed

end
