(* ===== verification/LFList.thy ===== *)
theory LFList
  imports Prelude
begin

unbundle bit_operations_syntax

text \<open>
  The singly linked list with logical removal of \<^verbatim>\<open>include/ut0lflist.h\<close> and
  \<^verbatim>\<open>src/ut0lflist.cc\<close>, instantiated at \<open>uint64_t\<close> as the source does, run by one thread;
  \<open>LFList_Conc\<close> interleaves any number of them.
  Pointers are 64-bit words; the top bit of a node's \<open>next\<close> pointer marks the node removed.
  The two nested loops of \<open>search\<close> may never return, so they are partial functions: \<open>None\<close> is
  a search that spins for ever. A compare-and-swap of one thread succeeds exactly when the
  word compared is still there.
\<close>

section \<open>Marked pointers\<close>

definition BITWISE_0 :: u64 where "BITWISE_0 = 0x7fffffffffffffff"
definition BITWISE_1 :: u64 where "BITWISE_1 = 0x8000000000000000"

definition set_mark :: "u64 \<Rightarrow> u64" where "set_mark p = p OR BITWISE_1"
definition get_ref :: "u64 \<Rightarrow> u64" where "get_ref p = p AND BITWISE_0"
definition get_mark :: "u64 \<Rightarrow> u64" where "get_mark p = p AND BITWISE_1"

lemma BITWISE_1_push: "BITWISE_1 = push_bit 63 1"
  by (simp add: BITWISE_1_def push_bit_eq_mult)

lemma BITWISE_0_mask: "BITWISE_0 = mask 63"
  by (simp add: BITWISE_0_def mask_eq_exp_minus_1)

lemma bit_BITWISE_1: "bit BITWISE_1 n \<longleftrightarrow> n = 63"
  unfolding BITWISE_1_push bit_push_bit_iff bit_1_iff by auto

lemma bit_BITWISE_0: "bit BITWISE_0 n \<longleftrightarrow> n < 63"
  unfolding BITWISE_0_mask bit_mask_iff by auto

text \<open>An address: a pointer with the mark bit clear.\<close>

definition is_ref :: "u64 \<Rightarrow> bool" where "is_ref p \<longleftrightarrow> \<not> bit p 63"

lemma get_mark_ref: "is_ref p \<Longrightarrow> get_mark p = 0"
  by (rule bit_word_eqI) (auto simp: get_mark_def is_ref_def bit_simps bit_BITWISE_1)

lemma get_mark_set: "get_mark (set_mark p) \<noteq> 0"
proof -
  have "bit (get_mark (set_mark p)) 63"
    by (simp add: get_mark_def set_mark_def bit_simps bit_BITWISE_1)
  then show ?thesis by auto
qed

lemma get_ref_ref: "is_ref p \<Longrightarrow> get_ref p = p"
proof (rule bit_word_eqI)
  fix n assume "is_ref p" "n < LENGTH(64)"
  then show "bit (get_ref p) n = bit p n"
    by (cases "n = 63") (auto simp: get_ref_def is_ref_def bit_simps bit_BITWISE_0)
qed

lemma get_ref_set: "is_ref p \<Longrightarrow> get_ref (set_mark p) = p"
proof (rule bit_word_eqI)
  fix n assume "is_ref p" "n < LENGTH(64)"
  then show "bit (get_ref (set_mark p)) n = bit p n"
    by (cases "n = 63") (auto simp: get_ref_def set_mark_def is_ref_def bit_simps bit_BITWISE_0 bit_BITWISE_1)
qed

lemma is_ref_0 [simp]: "is_ref 0"
  by (simp add: is_ref_def)

lemmas mark_simps = get_mark_ref get_mark_set get_ref_ref get_ref_set

section \<open>The list and its operations\<close>

record lfl_node =
  data :: u64
  nxt :: u64

type_synonym lfl_heap = "u64 \<Rightarrow> lfl_node option"

record lflist =
  head :: u64
  tail :: u64
  cnt :: u64

text \<open>Dereferencing: the null pointer and any address without a node is a fault.\<close>

definition ld :: "lfl_heap \<Rightarrow> u64 \<Rightarrow> lfl_node res" where
  "ld h a = (if a = 0 then Inl NullDeref else
     (case h a of None \<Rightarrow> Inl NullDeref | Some nd \<Rightarrow> Inr nd))"

lemma ld_simps [simp]: "ld h 0 = Inl NullDeref" "a \<noteq> 0 \<Longrightarrow> h a = Some nd \<Longrightarrow> ld h a = Inr nd"
  by (simp_all add: ld_def)

text \<open>
  The inner loop of \<open>search\<close>: from node \<open>t\<close> with its \<open>next\<close> already read, until a valid node with
  the data, the tail, or null. Returns \<open>t\<close>, \<open>*left_node\<close> and \<open>left_node_next\<close>.
\<close>

partial_function (option) scan ::
    "lfl_heap \<Rightarrow> u64 \<Rightarrow> u64 \<Rightarrow> u64 \<Rightarrow> u64 \<Rightarrow> u64 \<Rightarrow> u64 \<Rightarrow> (u64 \<times> u64 \<times> u64) res option" where
  "scan h last_p d t t_next left left_next =
     (if get_mark t_next = 0 \<and> ld h t = Inl NullDeref then Some (Inl NullDeref)
      else if get_mark t_next \<noteq> 0 \<or> rbind (ld h t) (\<lambda>nd. Inr (data nd)) \<noteq> Inr d then
        let left' = (if get_mark t_next = 0 then t else left);
            left_next' = (if get_mark t_next = 0 then t_next else left_next);
            t' = get_ref t_next
        in if t' = last_p \<or> t' = 0 then Some (Inr (t', left', left_next'))
           else (case ld h t' of Inl e \<Rightarrow> Some (Inl e)
                 | Inr nd \<Rightarrow> scan h last_p d t' (nxt nd) left' left_next')
      else Some (Inr (t, left, left_next)))"

text \<open>
  The outer loop. \<open>left\<close> is \<open>*left_node\<close>, which the caller initialised to null; both it and
  \<open>left_node_next\<close> keep their values when the search starts over.
\<close>

partial_function (option) search_loop ::
    "lfl_heap \<Rightarrow> lflist \<Rightarrow> u64 \<Rightarrow> u64 \<Rightarrow> u64 \<Rightarrow> (lfl_heap \<times> u64 \<times> u64) res option" where
  "search_loop h l d left left_next =
     (case ld h (head l) of Inl e \<Rightarrow> Some (Inl e)
      | Inr hn \<Rightarrow>
        (case scan h (tail l) d (head l) (nxt hn) left left_next of None \<Rightarrow> None
         | Some (Inl e) \<Rightarrow> Some (Inl e)
         | Some (Inr (t, left', left_next')) \<Rightarrow>
            if t = 0 then search_loop h l d left' left_next'
            else if left_next' = t then
              (case ld h t of Inl e \<Rightarrow> Some (Inl e)
               | Inr r \<Rightarrow> if get_mark (nxt r) = 0 then Some (Inr (h, t, left'))
                          else search_loop h l d left' left_next')
            else
              (case ld h left' of Inl e \<Rightarrow> Some (Inl e)
               | Inr lf \<Rightarrow>
                 if nxt lf = left_next' then
                   let h' = h(left' \<mapsto> lf\<lparr>nxt := t\<rparr>) in
                   (case ld h' t of Inl e \<Rightarrow> Some (Inl e)
                    | Inr r \<Rightarrow> if get_mark (nxt r) = 0 then Some (Inr (h', t, left'))
                               else search_loop h' l d left' left_next')
                 else search_loop h l d left' left_next')))"

definition search :: "lfl_heap \<Rightarrow> lflist \<Rightarrow> u64 \<Rightarrow> u64 \<Rightarrow> (lfl_heap \<times> u64 \<times> u64) res option" where
  "search h l d left = search_loop h l d left 0"

text \<open>
  \<open>remove\<close> run by one thread: nothing intervenes between \<open>search\<close> and the compare-and-swap, so
  the \<open>succ\<close> read unmarked is marked at once; a marked one starts the loop again.
\<close>

partial_function (option) lfl_remove ::
    "lfl_heap \<Rightarrow> lflist \<Rightarrow> u64 \<Rightarrow> u64 \<Rightarrow> (lfl_heap \<times> lflist \<times> int) res option" where
  "lfl_remove h l d pred =
     (case search h l d pred of None \<Rightarrow> None
      | Some (Inl e) \<Rightarrow> Some (Inl e)
      | Some (Inr (h', cur, pred')) \<Rightarrow>
        (case ld h' cur of Inl e \<Rightarrow> Some (Inl e)
         | Inr c \<Rightarrow>
           if nxt c = 0 \<or> data c \<noteq> d then Some (Inr (h', l, 0))
           else if get_mark (nxt c) = 0 then
             Some (Inr (h'(cur \<mapsto> c\<lparr>nxt := set_mark (nxt c)\<rparr>), l\<lparr>cnt := cnt l - 1\<rparr>, 1))
           else lfl_remove h' l d pred'))"

definition append_node :: "lfl_heap \<Rightarrow> lflist \<Rightarrow> u64 \<Rightarrow> (lfl_heap \<times> lflist) res" where
  "append_node h l new_node =
     (let old = tail l; l1 = l\<lparr>tail := new_node\<rparr> in
      rbind (ld h old) (\<lambda>nd. Inr (h(old \<mapsto> nd\<lparr>nxt := new_node\<rparr>), l1\<lparr>cnt := cnt l1 + 1\<rparr>)))"

text \<open>The constructor: one dummy node, of data 0, at the address \<open>a\<close> that \<open>new\<close> returns.\<close>

definition new_lflist :: "lfl_heap \<Rightarrow> u64 \<Rightarrow> lfl_heap \<times> lflist" where
  "new_lflist h a = (h(a \<mapsto> \<lparr>data = 0, nxt = 0\<rparr>), \<lparr>head = a, tail = a, cnt = 0\<rparr>)"

section \<open>Linked nodes\<close>

text \<open>
  A list in memory as the sequence of its nodes: address, data, removed or not; the dummy head
  comes first. \<open>linked\<close> says that each \<open>next\<close> pointer is the next node's address (null for the
  last), marked when the node is removed.
\<close>

type_synonym lfl_item = "u64 \<times> u64 \<times> bool"

definition addr :: "lfl_item \<Rightarrow> u64" where "addr x = fst x"
definition val :: "lfl_item \<Rightarrow> u64" where "val x = fst (snd x)"
definition removed :: "lfl_item \<Rightarrow> bool" where "removed x = snd (snd x)"

definition first_addr :: "lfl_item list \<Rightarrow> u64" where
  "first_addr ns = (case ns of [] \<Rightarrow> 0 | x # _ \<Rightarrow> addr x)"

definition link :: "bool \<Rightarrow> u64 \<Rightarrow> u64" where
  "link m p = (if m then set_mark p else p)"

fun linked :: "lfl_heap \<Rightarrow> lfl_item list \<Rightarrow> u64 \<Rightarrow> bool" where
  "linked h [] e = True"
| "linked h (x # xs) e =
     (h (addr x) = Some \<lparr>data = val x, nxt = link (removed x) (if xs = [] then e else first_addr xs)\<rparr> \<and>
      linked h xs e)"

definition addrs_ok :: "lfl_item list \<Rightarrow> bool" where
  "addrs_ok ns \<longleftrightarrow> distinct (map addr ns) \<and> (\<forall>x \<in> set ns. is_ref (addr x) \<and> addr x \<noteq> 0)"

text \<open>The whole list: head first, valid and with data 0; the tail last and valid.\<close>

definition lfl :: "lfl_heap \<Rightarrow> lflist \<Rightarrow> lfl_item list \<Rightarrow> bool" where
  "lfl h l ns \<longleftrightarrow> ns \<noteq> [] \<and> linked h ns 0 \<and> addrs_ok ns \<and> head l = addr (hd ns) \<and>
     tail l = addr (last ns) \<and> \<not> removed (hd ns) \<and> val (hd ns) = 0 \<and> \<not> removed (last ns)"

text \<open>What the list holds: the data of the nodes after the head that are not removed.\<close>

definition live :: "lfl_item list \<Rightarrow> u64 list" where
  "live ns = map val (filter (\<lambda>x. \<not> removed x) (tl ns))"

lemma first_addr_simps [simp]: "first_addr (x # xs) = addr x" "first_addr [] = 0"
  "xs \<noteq> [] \<Longrightarrow> first_addr (xs @ ys) = first_addr xs"
  by (auto simp: first_addr_def split: list.splits)

lemma linked_append:
  "linked h (xs @ ys) e \<longleftrightarrow> linked h xs (if ys = [] then e else first_addr ys) \<and> linked h ys e"
  by (induction xs) auto

lemma linked_frame: "a \<notin> addr ` set xs \<Longrightarrow> linked (h(a \<mapsto> nd)) xs e = linked h xs e"
  by (induction xs) auto

lemma linked_mem: "linked h (xs @ x # ys) e \<Longrightarrow>
   h (addr x) = Some \<lparr>data = val x, nxt = link (removed x) (if ys = [] then e else first_addr ys)\<rparr>"
  by (simp add: linked_append)

lemma addrs_ok_append: "addrs_ok (xs @ ys) \<longleftrightarrow> addrs_ok xs \<and> addrs_ok ys \<and>
    addr ` set xs \<inter> addr ` set ys = {}"
  by (auto simp: addrs_ok_def)

lemma addrs_ok_Cons: "addrs_ok (x # xs) \<longleftrightarrow> is_ref (addr x) \<and> addr x \<noteq> 0 \<and> addr x \<notin> addr ` set xs \<and>
    addrs_ok xs"
  by (auto simp: addrs_ok_def)

lemma link_simps:
  "is_ref p \<Longrightarrow> get_mark (link m p) = 0 \<longleftrightarrow> \<not> m" "is_ref p \<Longrightarrow> get_ref (link m p) = p"
  by (auto simp: link_def mark_simps)

section \<open>What search finds\<close>

text \<open>
  The split a search makes of the list: \<open>l\<close> is a valid node without the data, all nodes between
  it and \<open>r\<close> are removed, and \<open>r\<close> is the first valid node with the data before the tail, or the
  tail itself.
\<close>

definition search_split :: "u64 \<Rightarrow> lfl_item list \<Rightarrow> lfl_item list \<Rightarrow> lfl_item \<Rightarrow> lfl_item list \<Rightarrow>
    lfl_item \<Rightarrow> lfl_item list \<Rightarrow> bool" where
  "search_split d ns us l ms r vs \<longleftrightarrow> ns = us @ l # ms @ r # vs \<and> \<not> removed l \<and> val l \<noteq> d \<and>
     (\<forall>x \<in> set us. removed x \<or> val x \<noteq> d) \<and> (\<forall>x \<in> set ms. removed x) \<and> \<not> removed r \<and>
     (vs = [] \<or> val r = d)"

lemma scan_step:
  assumes "h (addr x) = Some \<lparr>data = val x, nxt = link (removed x) p\<rparr>" "addr x \<noteq> 0" "is_ref p"
  shows "scan h e d (addr x) (link (removed x) p) L LN =
    (if \<not> removed x \<and> val x = d then Some (Inr (addr x, L, LN))
     else let L' = (if removed x then L else addr x); LN' = (if removed x then LN else link (removed x) p) in
       if p = e \<or> p = 0 then Some (Inr (p, L', LN'))
       else (case ld h p of Inl e' \<Rightarrow> Some (Inl e') | Inr nd \<Rightarrow> scan h e d p (nxt nd) L' LN'))"
  using assms by (subst scan.simps) (simp add: link_simps Let_def)

lemma scan_ok:
  assumes "ns = us @ l # ms @ x # rest" "rest \<noteq> []" "linked h ns 0" "addrs_ok ns"
    and "\<not> removed l" "val l \<noteq> d" "\<forall>y \<in> set us. removed y \<or> val y \<noteq> d" "\<forall>y \<in> set ms. removed y"
    and "\<not> removed (last ns)" "e = addr (last ns)"
  shows "\<exists>us' l' ms' r vs. search_split d ns us' l' ms' r vs \<and>
    scan h e d (addr x) (link (removed x) (first_addr rest)) (addr l) (first_addr (ms @ [x])) =
      Some (Inr (addr r, addr l', first_addr (ms' @ [r])))"
  using assms
proof (induction rest arbitrary: us l ms x)
  case Nil
  then show ?case by simp
next
  case (Cons y rest)
  let ?ns = "us @ l # ms @ x # y # rest"
  have x: "h (addr x) = Some \<lparr>data = val x, nxt = link (removed x) (addr y)\<rparr>"
    using Cons.prems(1,3) linked_mem [of h "us @ l # ms" x "y # rest" 0] by simp
  have ok: "addr x \<noteq> 0" "addr y \<noteq> 0" "is_ref (addr y)" "addrs_ok (y # rest)"
    using Cons.prems(1,4) by (auto simp: addrs_ok_append addrs_ok_Cons)
  have e: "e = addr (last (y # rest))" using Cons.prems(1,10) by simp
  show ?case
  proof (cases "\<not> removed x \<and> val x = d")
    case True
    then have "search_split d ns us l ms x (y # rest)"
      using Cons.prems by (auto simp: search_split_def)
    moreover have "scan h e d (addr x) (link (removed x) (first_addr (y # rest))) (addr l)
        (first_addr (ms @ [x])) = Some (Inr (addr x, addr l, first_addr (ms @ [x])))"
      using True scan_step [of h x "addr y", OF x ok(1,3)] by simp
    ultimately show ?thesis by blast
  next
    case False
    define us1 l1 ms1 where "us1 = (if removed x then us else us @ l # ms)"
      and "l1 = (if removed x then l else x)" and "ms1 = (if removed x then ms @ [x] else [])"
    have ns1: "ns = us1 @ l1 # ms1 @ y # rest"
      using Cons.prems(1) by (simp add: us1_def l1_def ms1_def)
    have inv: "\<not> removed l1" "val l1 \<noteq> d" "\<forall>z \<in> set us1. removed z \<or> val z \<noteq> d" "\<forall>z \<in> set ms1. removed z"
      using Cons.prems(5-8) False by (auto simp: us1_def l1_def ms1_def)
    have LN: "(if removed x then addr l else addr x) = addr l1"
      "(if removed x then first_addr (ms @ [x]) else link (removed x) (addr y)) = first_addr (ms1 @ [y])"
      by (cases ms; simp add: l1_def ms1_def link_def)+
    have step: "scan h e d (addr x) (link (removed x) (addr y)) (addr l) (first_addr (ms @ [x])) =
       (if addr y = e then Some (Inr (addr y, addr l1, first_addr (ms1 @ [y])))
        else (case ld h (addr y) of Inl e' \<Rightarrow> Some (Inl e')
              | Inr nd \<Rightarrow> scan h e d (addr y) (nxt nd) (addr l1) (first_addr (ms1 @ [y]))))"
      unfolding scan_step [of h x "addr y", OF x ok(1,3)] if_not_P [OF False] Let_def LN
      by (simp add: ok(2))
    show ?thesis
    proof (cases "rest = []")
      case True
      then have "search_split d ns us1 l1 ms1 y []"
        using ns1 inv Cons.prems(9) by (auto simp: search_split_def)
      moreover have "scan h e d (addr x) (link (removed x) (first_addr (y # rest))) (addr l)
          (first_addr (ms @ [x])) = Some (Inr (addr y, addr l1, first_addr (ms1 @ [y])))"
        using step True e by simp
      ultimately show ?thesis by blast
    next
      case rest: False
      have "last rest \<in> set rest" using rest by simp
      then have "addr y \<noteq> e" using ok(4) e rest by (auto simp: addrs_ok_Cons)
      moreover have "ld h (addr y) = Inr \<lparr>data = val y, nxt = link (removed y) (first_addr rest)\<rparr>"
        using linked_mem [of h "us1 @ l1 # ms1" y rest 0] ns1 Cons.prems(3) rest ok(2) by simp
      ultimately have "scan h e d (addr x) (link (removed x) (addr y)) (addr l) (first_addr (ms @ [x])) =
         scan h e d (addr y) (link (removed y) (first_addr rest)) (addr l1) (first_addr (ms1 @ [y]))"
        using step by simp
      then show ?thesis
        using Cons.IH [OF ns1 rest Cons.prems(3,4) inv Cons.prems(9,10)] by simp
    qed
  qed
qed

text \<open>The whole inner loop, from the head.\<close>

lemma scan_from_head:
  assumes l: "lfl h l ns" and "tl ns \<noteq> []" "d \<noteq> 0"
  shows "\<exists>us l' ms r vs. search_split d ns us l' ms r vs \<and>
    scan h (tail l) d (head l) (first_addr (tl ns)) L LN = Some (Inr (addr r, addr l', first_addr (ms @ [r])))"
proof -
  obtain x y rest where ns: "ns = x # y # rest" using assms(1,2) by (cases ns; cases "tl ns") (auto simp: lfl_def)
  note f = l [unfolded lfl_def ns, simplified]
  have x: "h (addr x) = Some \<lparr>data = val x, nxt = link (removed x) (addr y)\<rparr>" using f by simp
  have ok: "addr x \<noteq> 0" "addr y \<noteq> 0" "is_ref (addr y)" "addrs_ok (y # rest)"
    using f by (auto simp: addrs_ok_Cons)
  have step: "scan h (tail l) d (head l) (addr y) L LN =
     (if addr y = tail l then Some (Inr (addr y, addr x, addr y))
      else (case ld h (addr y) of Inl e' \<Rightarrow> Some (Inl e')
            | Inr nd \<Rightarrow> scan h (tail l) d (addr y) (nxt nd) (addr x) (addr y)))"
    using scan_step [of h x "addr y" "tail l" d L LN, OF x ok(1,3)] f assms(3) ok(2) by (simp add: Let_def link_def)
  show ?thesis
  proof (cases "rest = []")
    case True
    then have "search_split d ns [] x [] y []"
      using ns f assms(3) by (simp add: search_split_def)
    moreover have "scan h (tail l) d (head l) (first_addr (tl ns)) L LN =
        Some (Inr (addr y, addr x, first_addr ([] @ [y])))"
      using step True f ns by simp
    ultimately show ?thesis by blast
  next
    case rest: False
    have "last rest \<in> set rest" using rest by simp
    then have "addr y \<noteq> tail l" using ok(4) f rest by (auto simp: addrs_ok_Cons)
    moreover have "ld h (addr y) = Inr \<lparr>data = val y, nxt = link (removed y) (first_addr rest)\<rparr>"
      using f rest ok(2) by simp
    ultimately have "scan h (tail l) d (head l) (addr y) L LN =
        scan h (tail l) d (addr y) (link (removed y) (first_addr rest)) (addr x) (first_addr ([] @ [y]))"
      using step by simp
    moreover have "ns = [] @ x # [] @ y # rest" "linked h ns 0" "addrs_ok ns" "\<not> removed x" "val x \<noteq> d"
      "\<not> removed (last ns)" "tail l = addr (last ns)"
      using ns f l assms(3) by (simp_all add: lfl_def)
    ultimately show ?thesis
      using scan_ok [of ns "[]" x "[]" y rest h d "tail l"] rest ns by simp
  qed
qed

lemma search_ok:
  assumes l: "lfl h l ns" and "tl ns \<noteq> []" "d \<noteq> 0"
  shows "\<exists>us l' ms r vs h'. search_split d ns us l' ms r vs \<and>
    search h l d left = Some (Inr (h', addr r, addr l')) \<and> lfl h' l (us @ l' # r # vs)"
proof -
  obtain us l' ms r vs where s: "search_split d ns us l' ms r vs"
    and sc: "scan h (tail l) d (head l) (first_addr (tl ns)) left 0 =
       Some (Inr (addr r, addr l', first_addr (ms @ [r])))"
    using scan_from_head [OF assms] by blast
  have ns: "ns = us @ l' # ms @ r # vs" and vs: "\<not> removed r" "\<not> removed l'"
    using s by (simp_all add: search_split_def)
  have lk: "linked h ns 0" "addrs_ok ns" using l by (simp_all add: lfl_def)
  have hd: "ld h (head l) = Inr \<lparr>data = val (hd ns), nxt = first_addr (tl ns)\<rparr>"
    using l assms(2) by (cases ns) (auto simp: lfl_def link_def addrs_ok_Cons)
  have nz: "addr r \<noteq> 0" "addr l' \<noteq> 0" "addr l' \<noteq> addr r"
    using lk(2) ns by (auto simp: addrs_ok_append addrs_ok_Cons)
  have ref: "is_ref (if vs = [] then 0 else first_addr vs)"
    using lk(2) ns by (cases vs) (auto simp: addrs_ok_append addrs_ok_Cons)
  have r: "h (addr r) = Some \<lparr>data = val r, nxt = if vs = [] then 0 else first_addr vs\<rparr>"
    using linked_mem [of h "us @ l' # ms" r vs 0] lk(1) ns vs by (simp add: link_def)
  note loop = search_loop.simps [of h l d left 0]
  show ?thesis
  proof (cases "ms = []")
    case True
    then have "search h l d left = Some (Inr (h, addr r, addr l'))"
      unfolding search_def loop using hd sc nz r ref by (simp add: get_mark_ref)
    moreover have "lfl h l (us @ l' # r # vs)" using l ns True by simp
    ultimately show ?thesis using s by blast
  next
    case False
    let ?lf = "\<lparr>data = val l', nxt = first_addr ms\<rparr>"
    let ?h' = "h(addr l' \<mapsto> ?lf\<lparr>nxt := addr r\<rparr>)"
    have lf: "h (addr l') = Some ?lf"
      using linked_mem [of h us l' "ms @ r # vs" 0] lk(1) ns vs False by (simp add: link_def)
    have ne: "first_addr ms \<noteq> addr r"
      using lk(2) ns False by (cases ms) (auto simp: addrs_ok_append addrs_ok_Cons)
    have "search h l d left = Some (Inr (?h', addr r, addr l'))"
      unfolding search_def loop using hd sc nz r ref lf ne False
      by (simp add: get_mark_ref Let_def)
    moreover have "lfl ?h' l (us @ l' # r # vs)"
    proof -
      have "linked ?h' (us @ l' # r # vs) 0"
        using lk ns vs 
        by (auto simp: linked_append linked_frame addrs_ok_append addrs_ok_Cons link_def image_Un)
      moreover have "addrs_ok (us @ l' # r # vs)"
        using lk(2) ns by (auto simp: addrs_ok_append addrs_ok_Cons)
      ultimately show ?thesis
        using l ns by (cases us) (auto simp: lfl_def)
    qed
    ultimately show ?thesis using s by blast
  qed
qed


section \<open>Remove and append\<close>

text \<open>Of the nodes that hold live data, all but the last can be removed.\<close>

definition live_inner :: "lfl_item list \<Rightarrow> u64 list" where
  "live_inner ns = map val (filter (\<lambda>x. \<not> removed x) (butlast (tl ns)))"

lemma live_split:
  assumes s: "search_split d ns us l ms r vs"
  shows "live (us @ l # r # vs) = live ns"
    "live ns = map val (filter (\<lambda>x. \<not> removed x) (tl (us @ [l]))) @ val r # map val (filter (\<lambda>x. \<not> removed x) vs)"
    "d \<notin> val ` set (filter (\<lambda>x. \<not> removed x) (tl (us @ [l])))"
    "d \<in> set (live_inner ns) \<longleftrightarrow> vs \<noteq> []"
proof -
  have ns: "ns = us @ l # ms @ r # vs" and p: "\<not> removed r" "\<not> removed l" "val l \<noteq> d" "vs = [] \<or> val r = d"
    "\<forall>x \<in> set us. removed x \<or> val x \<noteq> d" and ms: "filter (\<lambda>x. \<not> removed x) ms = []"
    using s by (auto simp: search_split_def filter_empty_conv)
  show "live (us @ l # r # vs) = live ns"
    "live ns = map val (filter (\<lambda>x. \<not> removed x) (tl (us @ [l]))) @ val r # map val (filter (\<lambda>x. \<not> removed x) vs)"
    using ns p ms by (cases us; simp add: live_def)+
  show nd: "d \<notin> val ` set (filter (\<lambda>x. \<not> removed x) (tl (us @ [l])))"
    using p by (cases us) auto
  have "tl ns = tl (us @ [l]) @ ms @ r # vs" using ns by (cases us) auto
  then show "d \<in> set (live_inner ns) \<longleftrightarrow> vs \<noteq> []"
    using nd p ms by (auto simp: live_inner_def butlast_append)
qed

lemma remove_ok:
  assumes l: "lfl h l ns" and "tl ns \<noteq> []" "d \<noteq> 0"
  shows "\<exists>h' l' ns'. lfl_remove h l d left = Some (Inr (h', l', if d \<in> set (live_inner ns) then 1 else 0)) \<and>
    lfl h' l' ns' \<and> cnt l' = (if d \<in> set (live_inner ns) then cnt l - 1 else cnt l) \<and>
    live ns' = (if d \<in> set (live_inner ns) then remove1 d (live ns) else live ns) \<and>
    (d \<in> set (live_inner ns) \<longrightarrow> (\<exists>x \<in> set ns'. removed x))"
proof -
  obtain us p ms r vs h' where s: "search_split d ns us p ms r vs"
    and found: "search h l d left = Some (Inr (h', addr r, addr p))" and l': "lfl h' l (us @ p # r # vs)"
    using search_ok [OF assms] by blast
  note live = live_split [OF s]
  have lk: "linked h' (us @ p # r # vs) 0" "addrs_ok (us @ p # r # vs)" using l' by (simp_all add: lfl_def)
  have r: "h' (addr r) = Some \<lparr>data = val r, nxt = (if vs = [] then 0 else first_addr vs)\<rparr>"
    using linked_mem [of h' "us @ [p]" r vs 0] lk(1) s by (simp add: link_def search_split_def)
  have nz: "addr r \<noteq> 0" using lk(2) by (auto simp: addrs_ok_append addrs_ok_Cons)
  note rm = lfl_remove.simps [of h l d left]
  show ?thesis
  proof (cases "vs = []")
    case True
    then have "lfl_remove h l d left = Some (Inr (h', l, 0))"
      unfolding rm using found r nz by simp
    then show ?thesis using live True l' by auto
  next
    case False
    let ?h'' = "h'(addr r \<mapsto> \<lparr>data = d, nxt = set_mark (first_addr vs)\<rparr>)"
    let ?r = "(addr r, val r, True)"
    have d: "val r = d" using s False by (simp add: search_split_def)
    have v: "is_ref (first_addr vs)" "first_addr vs \<noteq> 0"
      using lk(2) False by (cases vs; auto simp: addrs_ok_append addrs_ok_Cons)+
    have "lfl_remove h l d left = Some (Inr (?h'', l\<lparr>cnt := cnt l - 1\<rparr>, 1))"
      unfolding rm using found r nz False d v by (simp add: get_mark_ref)
    moreover have "lfl ?h'' (l\<lparr>cnt := cnt l - 1\<rparr>) (us @ p # ?r # vs)"
    proof -
      have sel: "addr ?r = addr r" "val ?r = val r" "removed ?r" by (simp_all add: addr_def val_def removed_def)
      have "linked ?h'' (us @ p # ?r # vs) 0"
        using lk False d sel
        by (auto simp: linked_append linked_frame addrs_ok_append addrs_ok_Cons image_Un link_def)
      moreover have "addrs_ok (us @ p # ?r # vs)"
        using lk(2) sel by (auto simp: addrs_ok_append addrs_ok_Cons)
      ultimately show ?thesis
        using l' False sel by (cases us) (auto simp: lfl_def)
    qed
    moreover have "live (us @ p # ?r # vs) = remove1 d (live ns)"
      using live(2,3) d s False by (cases us) (auto simp: live_def remove1_append removed_def search_split_def)
    moreover have "\<exists>x \<in> set (us @ p # ?r # vs). removed x" by (simp add: removed_def)
    ultimately show ?thesis using live(4) False by (intro exI conjI) (assumption | simp)+
  qed
qed

lemma append_ok:
  assumes l: "lfl h l ns" and n: "h n = Some \<lparr>data = d, nxt = 0\<rparr>" "is_ref n" "n \<noteq> 0" "n \<notin> addr ` set ns"
  shows "\<exists>h' l'. append_node h l n = Inr (h', l') \<and> lfl h' l' (ns @ [(n, d, False)]) \<and> cnt l' = cnt l + 1"
proof -
  obtain xs x where ns: "ns = xs @ [x]" using l by (cases ns rule: rev_cases) (auto simp: lfl_def)
  let ?n = "(n, d, False)"
  have sel: "addr ?n = n" "val ?n = d" "\<not> removed ?n" by (simp_all add: addr_def val_def removed_def)
  have x: "h (addr x) = Some \<lparr>data = val x, nxt = 0\<rparr>" "addr x \<noteq> 0" "tail l = addr x" "addr x \<noteq> n"
    using l ns n(4) by (auto simp: lfl_def linked_append link_def addrs_ok_append addrs_ok_Cons)
  let ?h = "h(addr x \<mapsto> \<lparr>data = val x, nxt = n\<rparr>)"
  have app: "append_node h l n = Inr (?h, l\<lparr>tail := n, cnt := cnt l + 1\<rparr>)"
    using x by (simp add: append_node_def Let_def)
  have "linked ?h (xs @ [x, ?n]) 0"
    using l ns n x sel by (auto simp: lfl_def linked_append linked_frame link_def addrs_ok_append addrs_ok_Cons)
  moreover have "addrs_ok (xs @ [x, ?n])"
    using l ns n sel by (auto simp: lfl_def addrs_ok_append addrs_ok_Cons)
  ultimately have "lfl ?h (l\<lparr>tail := n, cnt := cnt l + 1\<rparr>) (ns @ [?n])"
    using l ns sel by (cases xs) (auto simp: lfl_def)
  with app show ?thesis by auto
qed

section \<open>Searches that do not return\<close>

lemma search_loop_empty:
  assumes "search_loop h l d left left_next = Some r"
  shows "\<not> (lfl h l [x] \<and> d \<noteq> 0)"
proof (rule search_loop.raw_induct [where P = "\<lambda>h l d left left_next r. \<forall>x. \<not> (lfl h l [x] \<and> d \<noteq> 0)",
    OF _ assms, THEN spec], intro allI notI)
  fix f h l d left left_next r and x
  assume IH: "\<And>h l d left left_next r. f h l d left left_next = Some r \<Longrightarrow> \<forall>x. \<not> (lfl h l [x] \<and> d \<noteq> 0)"
    and body: "(case ld h (head l) of Inl e \<Rightarrow> Some (Inl e)
      | Inr hn \<Rightarrow>
        (case scan h (tail l) d (head l) (nxt hn) left left_next of None \<Rightarrow> None
         | Some (Inl e) \<Rightarrow> Some (Inl e)
         | Some (Inr (t, left', left_next')) \<Rightarrow>
            if t = 0 then f h l d left' left_next'
            else if left_next' = t then
              (case ld h t of Inl e \<Rightarrow> Some (Inl e)
               | Inr r \<Rightarrow> if get_mark (nxt r) = 0 then Some (Inr (h, t, left'))
                          else f h l d left' left_next')
            else
              (case ld h left' of Inl e \<Rightarrow> Some (Inl e)
               | Inr lf \<Rightarrow>
                 if nxt lf = left_next' then
                   let h' = h(left' \<mapsto> lf\<lparr>nxt := t\<rparr>) in
                   (case ld h' t of Inl e \<Rightarrow> Some (Inl e)
                    | Inr r \<Rightarrow> if get_mark (nxt r) = 0 then Some (Inr (h', t, left'))
                               else f h' l d left' left_next')
                 else f h l d left' left_next'))) = Some r"
    and bad: "lfl h l [x] \<and> d \<noteq> 0"
  have x: "h (addr x) = Some \<lparr>data = 0, nxt = 0\<rparr>" "addr x \<noteq> 0" "head l = addr x"
    using bad by (auto simp: lfl_def link_def addrs_ok_Cons)
  then have "scan h (tail l) d (head l) 0 left left_next = Some (Inr (0, head l, 0))"
    using bad by (subst scan.simps) (simp add: get_mark_ref get_ref_ref Let_def)
  with body x have "f h l d (head l) 0 = Some r" by simp
  then have "\<not> (lfl h l [x] \<and> d \<noteq> 0)" using IH by blast
  with bad show False by simp
qed

section \<open>Properties\<close>

text \<open>C21. \<open>search\<close> for a non-zero value in a list with at least one node returns: it finds the first valid
  node with the value before the tail, or else the tail, unlinks the removed nodes just before it,
  and leaves the list well formed with the same live data.\<close>
theorem lflist_search_correct:
  assumes "lfl h l ns" "tl ns \<noteq> []" "d \<noteq> 0"
  shows "\<exists>us p ms r vs h'. search_split d ns us p ms r vs \<and>
    search h l d left = Some (Inr (h', addr r, addr p)) \<and> lfl h' l (us @ p # r # vs) \<and>
    live (us @ p # r # vs) = live ns"
  using search_ok [OF assms, of left] live_split(1) by blast

text \<open>C38. \<open>remove\<close> returns on such a list: it takes the first live occurrence of the value out of the list
  and returns 1 when a node other than the tail holds it; otherwise it returns 0 and changes no
  live data. In particular the value of the last node cannot be removed.\<close>
theorem lflist_remove_correct:
  assumes "lfl h l ns" "tl ns \<noteq> []" "d \<noteq> 0"
  shows "\<exists>h' l' ns'. lfl_remove h l d 0 = Some (Inr (h', l', if d \<in> set (live_inner ns) then 1 else 0)) \<and>
    lfl h' l' ns' \<and> cnt l' = (if d \<in> set (live_inner ns) then cnt l - 1 else cnt l) \<and>
    live ns' = (if d \<in> set (live_inner ns) then remove1 d (live ns) else live ns)"
  using remove_ok [OF assms] by blast

text \<open>Appending a fresh node puts its value at the end of the live data and counts it.\<close>
theorem lflist_append_correct:
  assumes "lfl h l ns" "h n = Some \<lparr>data = d, nxt = 0\<rparr>" "is_ref n" "n \<noteq> 0" "n \<notin> addr ` set ns"
  shows "\<exists>h' l' ns'. append_node h l n = Inr (h', l') \<and> lfl h' l' ns' \<and> live ns' = live ns @ [d] \<and>
    cnt l' = cnt l + 1"
proof -
  have "live (ns @ [(n, d, False)]) = live ns @ [d]"
    using assms(1) by (cases ns) (auto simp: live_def lfl_def removed_def val_def)
  then show ?thesis using append_ok [OF assms] by blast
qed

text \<open>On a list without nodes \<open>search\<close>, and with it \<open>remove\<close>, of any non-zero value never returns:
  the inner loop ends at null each time and the outer loop starts over.\<close>
theorem lflist_search_empty_diverges:
  assumes "lfl h l [x]" "d \<noteq> 0"
  shows "search h l d left = None \<and> lfl_remove h l d left = None"
proof -
  have "search h l d left = None"
    using search_loop_empty [of h l d left 0] assms
    by (cases "search_loop h l d left 0") (auto simp: search_def)
  then show ?thesis by (simp add: lfl_remove.simps [of h l d left])
qed

text \<open>The value 0 is the dummy head's own data: removing it stops the traversal before any left node
  is recorded, and the compare-and-swap dereferences the null \<open>pred\<close>.\<close>
theorem lflist_remove_zero_faults:
  assumes "lfl h l ns"
  shows "lfl_remove h l 0 0 = Some (Inl NullDeref)"
proof -
  obtain x xs where ns: "ns = x # xs" using assms by (cases ns) (auto simp: lfl_def)
  have x: "h (addr x) = Some \<lparr>data = 0, nxt = (if xs = [] then 0 else first_addr xs)\<rparr>" "addr x \<noteq> 0"
    "head l = addr x" "is_ref (if xs = [] then 0 else first_addr xs)"
    using assms ns by (cases xs; auto simp: lfl_def link_def addrs_ok_Cons)+
  have "scan h (tail l) 0 (head l) (if xs = [] then 0 else first_addr xs) 0 0 = Some (Inr (head l, 0, 0))"
    using x by (subst scan.simps) (simp add: get_mark_ref)
  then have "search h l 0 0 = Some (Inl NullDeref)"
    unfolding search_def search_loop.simps [of h l 0 0 0] using x by simp
  then show ?thesis by (simp add: lfl_remove.simps [of h l 0 0])
qed


lemma is_ref_small: assumes "unat p < 2 ^ 63" shows "is_ref p"
proof -
  have "take_bit 63 (unat p) = unat p" using assms by (simp add: take_bit_nat_eq_self)
  then have "\<not> bit (unat p) 63" by (metis bit_take_bit_iff less_irrefl)
  then show ?thesis by (simp add: is_ref_def bit_unsigned_iff)
qed

text \<open>A list of three nodes after the head, the middle one removed, for the witnesses.\<close>

definition demo_items :: "lfl_item list" where
  "demo_items = [(8, 0, False), (16, 5, False), (24, 6, True), (32, 5, False)]"

definition demo_heap :: lfl_heap where
  "demo_heap = [8 \<mapsto> \<lparr>data = 0, nxt = 16\<rparr>, 16 \<mapsto> \<lparr>data = 5, nxt = 24\<rparr>,
     24 \<mapsto> \<lparr>data = 6, nxt = set_mark 32\<rparr>, 32 \<mapsto> \<lparr>data = 5, nxt = 0\<rparr>, 40 \<mapsto> \<lparr>data = 9, nxt = 0\<rparr>]"

definition demo_list :: lflist where
  "demo_list = \<lparr>head = 8, tail = 32, cnt = 2\<rparr>"

lemma demo_lfl: "lfl demo_heap demo_list demo_items"
  by (simp add: lfl_def demo_heap_def demo_list_def demo_items_def addr_def val_def removed_def
      link_def addrs_ok_def is_ref_small first_addr_def)

lemma demo_sides: "tl demo_items \<noteq> []" "5 \<in> set (live_inner demo_items)" "live demo_items = [5, 5]"
  by (simp_all add: demo_items_def live_inner_def live_def removed_def val_def)

theorem lflist_search_correct_witness:
  "\<exists>us p ms r vs h'. search_split 6 demo_items us p ms r vs \<and>
    search demo_heap demo_list 6 0 = Some (Inr (h', addr r, addr p)) \<and> live (us @ p # r # vs) = [5, 5]"
  using lflist_search_correct [OF demo_lfl demo_sides(1), of 6 0] unfolding demo_sides(3) by force

theorem lflist_remove_correct_witness:
  "\<exists>h' l' ns'. lfl_remove demo_heap demo_list 5 0 = Some (Inr (h', l', 1)) \<and> lfl h' l' ns' \<and>
     live ns' = [5] \<and> cnt l' = 1"
  using lflist_remove_correct [OF demo_lfl demo_sides(1), of 5] demo_sides(2,3)
  by (simp add: demo_list_def) blast

theorem lflist_append_correct_witness:
  "\<exists>h' l' ns'. append_node demo_heap demo_list 40 = Inr (h', l') \<and> lfl h' l' ns' \<and>
     live ns' = [5, 5, 9]"
proof -
  have "demo_heap 40 = Some \<lparr>data = 9, nxt = 0\<rparr>" "is_ref 40" "(40 :: u64) \<noteq> 0" "40 \<notin> addr ` set demo_items"
    by (simp_all add: demo_heap_def is_ref_small demo_items_def addr_def)
  from lflist_append_correct [OF demo_lfl this] show ?thesis by (auto simp: demo_sides(3))
qed

lemma new_lfl: "a \<noteq> 0 \<Longrightarrow> is_ref a \<Longrightarrow> new_lflist h a = (h', l) \<Longrightarrow> lfl h' l [(a, 0, False)]"
  by (auto simp: new_lflist_def lfl_def addrs_ok_def addr_def val_def removed_def link_def)

theorem lflist_search_empty_diverges_witness:
  "search (fst (new_lflist Map.empty 8)) (snd (new_lflist Map.empty 8)) 5 0 = None"
proof -
  have "lfl (fst (new_lflist Map.empty 8)) (snd (new_lflist Map.empty 8)) [(8, 0, False)]"
    by (rule new_lfl) (simp_all add: is_ref_small)
  from lflist_search_empty_diverges [OF this, of 5] show ?thesis by simp
qed

theorem lflist_remove_zero_faults_witness: "lfl_remove demo_heap demo_list 0 0 = Some (Inl NullDeref)"
  using lflist_remove_zero_faults [OF demo_lfl] .

section \<open>The destructor\<close>

text \<open>
  \<open>delete\<close> takes a node out of the heap, so that reading through a pointer to it later is a fault.
  The loop follows the \<open>next\<close> pointers as they are, marks included.
\<close>

partial_function (option) delete_nodes :: "lfl_heap \<Rightarrow> u64 \<Rightarrow> lfl_heap res option" where
  "delete_nodes h cur =
     (if cur = 0 then Some (Inr h)
      else case ld h cur of Inl e \<Rightarrow> Some (Inl e)
        | Inr nd \<Rightarrow> delete_nodes (h(cur := None)) (nxt nd))"

definition destroy_lflist :: "lfl_heap \<Rightarrow> lflist \<Rightarrow> lfl_heap res option" where
  "destroy_lflist h l =
     (case ld h (head l) of Inl e \<Rightarrow> Some (Inl e)
      | Inr hn \<Rightarrow> (case delete_nodes h (nxt hn) of None \<Rightarrow> None
          | Some (Inl e) \<Rightarrow> Some (Inl e)
          | Some (Inr h') \<Rightarrow> Some (Inr (h'(head l := None)))))"

lemma linked_delete: "a \<notin> addr ` set xs \<Longrightarrow> linked (h(a := None)) xs e = linked h xs e"
  by (induction xs) auto

lemma delete_nodes_ok:
  assumes "linked h xs 0" "addrs_ok xs" "\<forall>a. h a \<noteq> None \<longrightarrow> is_ref a"
  shows "delete_nodes h (first_addr xs) =
    Some (if \<exists>x \<in> set xs. removed x then Inl NullDeref else Inr (h |` (- addr ` set xs)))"
  using assms
proof (induction xs arbitrary: h)
  case Nil
  have "h |` UNIV = h" by (rule ext) (simp add: restrict_map_def)
  then show ?case by (subst delete_nodes.simps) simp
next
  case (Cons x xs)
  let ?n = "if xs = [] then 0 else first_addr xs" and ?h = "h(addr x := None)"
  have x: "addr x \<noteq> 0" "addr x \<notin> addr ` set xs" "addrs_ok xs"
    "h (addr x) = Some \<lparr>data = val x, nxt = link (removed x) ?n\<rparr>" "linked h xs 0"
    using Cons.prems by (auto simp: addrs_ok_Cons)
  then have step: "delete_nodes h (addr x) = delete_nodes ?h (link (removed x) ?n)"
    by (subst delete_nodes.simps) simp
  show ?case
  proof (cases "removed x")
    case True
    have "\<not> is_ref (set_mark ?n)" by (simp add: is_ref_def set_mark_def bit_simps bit_BITWISE_1)
    then have "set_mark ?n \<noteq> 0" "?h (set_mark ?n) = None" using Cons.prems(3) by auto
    then have "delete_nodes ?h (set_mark ?n) = Some (Inl NullDeref)" by (subst delete_nodes.simps) (simp add: ld_def)
    with True step show ?thesis by (simp add: link_def)
  next
    case False
    have n: "?n = first_addr xs" by (cases xs) simp_all
    have "delete_nodes ?h (first_addr xs) =
        Some (if \<exists>x \<in> set xs. removed x then Inl NullDeref else Inr (?h |` (- addr ` set xs)))"
    proof (rule Cons.IH)
      show "linked ?h xs 0" using linked_delete [OF x(2), of h 0] x(5) by simp
      show "\<forall>a. ?h a \<noteq> None \<longrightarrow> is_ref a" using Cons.prems(3) by simp
    qed (rule x(3))
    moreover have "?h |` (- addr ` set xs) = h |` (- addr ` set (x # xs))"
      by (rule ext) (auto simp: restrict_map_def)
    ultimately show ?thesis using False step n by (simp add: link_def)
  qed
qed

lemma lflist_destroy_ok:
  assumes "lfl h l ns" "\<forall>a. h a \<noteq> None \<longrightarrow> is_ref a"
  shows "destroy_lflist h l =
    Some (if \<exists>x \<in> set ns. removed x then Inl NullDeref else Inr (h |` (- addr ` set ns)))"
proof -
  obtain x xs where ns: "ns = x # xs" using assms(1) by (cases ns) (auto simp: lfl_def)
  let ?n = "if xs = [] then 0 else first_addr xs"
  have n: "?n = first_addr xs" by (cases xs) simp_all
  have x: "h (addr x) = Some \<lparr>data = 0, nxt = ?n\<rparr>" "addr x \<noteq> 0" "head l = addr x" "\<not> removed x"
    "linked h xs 0" "addrs_ok xs"
    using assms(1) ns by (auto simp: lfl_def link_def addrs_ok_Cons)
  have "(h |` (- addr ` set xs))(addr x := None) = h |` (- addr ` set (x # xs))"
    by (rule ext) (auto simp: restrict_map_def)
  then show ?thesis
    using delete_nodes_ok [OF x(5,6) assms(2)] x(1-4) ns unfolding n by (simp add: destroy_lflist_def)
qed

text \<open>C39. The destructor frees the nodes of the list and nothing else, when no node that is still linked
  is marked as removed. Otherwise it follows the marked pointer of such a node and faults: no node
  lies at an address with the top bit set.\<close>
theorem lflist_destroy_correct:
  assumes "lfl h l ns" "\<forall>a. h a \<noteq> None \<longrightarrow> is_ref a"
  shows "destroy_lflist h l =
    Some (if \<exists>x \<in> set ns. removed x then Inl NullDeref else Inr (h |` (- addr ` set ns)))"
  using lflist_destroy_ok [OF assms] .

text \<open>So a list cannot be destroyed right after a value was removed from it: only a later search unlinks
  the node, and that search leaves it allocated.\<close>
theorem lflist_destroy_after_remove:
  assumes "lfl h l ns" "tl ns \<noteq> []" "d \<noteq> 0" "d \<in> set (live_inner ns)"
    and "lfl_remove h l d 0 = Some (Inr (h', l', r))" "\<forall>a. h' a \<noteq> None \<longrightarrow> is_ref a"
  shows "destroy_lflist h' l' = Some (Inl NullDeref)"
proof -
  obtain ns' where "lfl h' l' ns'" "\<exists>x \<in> set ns'. removed x"
    using remove_ok [OF assms(1-3), of 0] assms(4,5) by auto
  with lflist_destroy_ok [OF _ assms(6)] show ?thesis by simp
qed

theorem lflist_destroy_correct_witness:
  "destroy_lflist demo_heap demo_list = Some (Inl NullDeref) \<and>
   destroy_lflist (fst (new_lflist Map.empty 8)) (snd (new_lflist Map.empty 8)) = Some (Inr Map.empty)"
proof
  have "\<forall>a. demo_heap a \<noteq> None \<longrightarrow> is_ref a" by (auto simp: demo_heap_def is_ref_small split: if_splits)
  from lflist_destroy_correct [OF demo_lfl this] show "destroy_lflist demo_heap demo_list = Some (Inl NullDeref)"
    by (simp add: demo_items_def removed_def)
  have "lfl (fst (new_lflist Map.empty 8)) (snd (new_lflist Map.empty 8)) [(8, 0, False)]"
    by (rule new_lfl) (simp_all add: is_ref_small)
  from lflist_destroy_correct [OF this] show
    "destroy_lflist (fst (new_lflist Map.empty 8)) (snd (new_lflist Map.empty 8)) = Some (Inr Map.empty)"
    by (auto simp: new_lflist_def is_ref_small removed_def addr_def restrict_map_def)
qed

end
