(* ===== verification/LFList_Conc.thy ===== *)
theory LFList_Conc
  imports LFList
begin

text \<open>
  The list of \<open>LFList\<close> under any interleaving of appends, searches and removes by any number of
  threads. Each thread is at one of the points between two accesses to shared memory; a step is
  one such access. A ghost list records the nodes in the order in which the appenders exchanged
  the tail, and two history variables record, for each call under way, whether at some moment since
  the call began no node appended and not removed held the value it looks for, and whether the first
  node that held it had no successor.

  A thread's call is given a value to look for; \<open>left_node\<close> and \<open>left_node_next\<close> of \<open>search\<close> are
  kept in a \<open>walk\<close>. The data of a node never changes, so reading it is part of the step that
  reads the node's \<open>next\<close>. A node removed is never deleted (only the destructor deletes), so
  no address is used twice.
\<close>

section \<open>Threads and steps\<close>

record walk =
  removing :: bool   \<comment> \<open>the search is part of a \<open>remove\<close>\<close>
  want :: u64        \<comment> \<open>the data looked for\<close>
  lft :: u64         \<comment> \<open>\<open>*left_node\<close>, or \<open>pred\<close> in \<open>remove\<close>\<close>
  lft_next :: u64    \<comment> \<open>\<open>left_node_next\<close>\<close>

datatype lpc =
    Rest
  | Link u64 u64           \<comment> \<open>tail exchanged: old tail, new node\<close>
  | CountUp                \<comment> \<open>node linked, not yet counted\<close>
  | ReadNext walk u64      \<comment> \<open>about to read \<open>t->next\<close>\<close>
  | TailTest walk u64      \<comment> \<open>about to compare \<open>t\<close> with the tail\<close>
  | Leave walk u64         \<comment> \<open>inner loop left with \<open>right_node = t\<close>\<close>
  | MarkTest walk u64      \<comment> \<open>about to look at the mark of \<open>right_node\<close>\<close>
  | Found u64 u64          \<comment> \<open>\<open>search\<close> returned the node\<close>
  | NullTest walk u64      \<comment> \<open>\<open>remove\<close>: about to look at \<open>curr->next\<close> and \<open>curr->data\<close>\<close>
  | ReadSucc walk u64      \<comment> \<open>about to read \<open>succ\<close>\<close>
  | MarkCas walk u64 u64   \<comment> \<open>about to mark \<open>curr->next\<close>, if still \<open>succ\<close>\<close>
  | CountDown u64          \<comment> \<open>node marked, not yet counted\<close>
  | Removed u64 bool       \<comment> \<open>\<open>remove\<close> returned\<close>
  | Crash "u64 option"     \<comment> \<open>null pointer dereferenced, by a search for the value\<close>

text \<open>One access of a thread: \<open>advance\<close> gives the heap, the list header and its next point.\<close>

fun advance :: "lfl_heap \<Rightarrow> lflist \<Rightarrow> lpc \<Rightarrow> lfl_heap \<times> lflist \<times> lpc" where
  "advance h l Rest = (h, l, Rest)"
| "advance h l (Link old a) =
     (case ld h old of Inl _ \<Rightarrow> (h, l, Crash None)
      | Inr nd \<Rightarrow> (h(old \<mapsto> nd\<lparr>nxt := a\<rparr>), l, CountUp))"
| "advance h l CountUp = (h, l\<lparr>cnt := cnt l + 1\<rparr>, Rest)"
| "advance h l (ReadNext w t) =
     (case ld h t of Inl _ \<Rightarrow> (h, l, Crash (Some (want w)))
      | Inr nd \<Rightarrow>
        if get_mark (nxt nd) = 0 \<and> data nd = want w then (h, l, Leave w t)
        else (h, l, TailTest (if get_mark (nxt nd) = 0 then w\<lparr>lft := t, lft_next := nxt nd\<rparr> else w)
                      (get_ref (nxt nd))))"
| "advance h l (TailTest w t) =
     (if t = tail l \<or> t = 0
      then (if t = 0 then (h, l, ReadNext w (head l)) else (h, l, Leave w t))
      else (h, l, ReadNext w t))"
| "advance h l (Leave w t) =
     (if lft_next w = t then (h, l, MarkTest w t)
      else (case ld h (lft w) of Inl _ \<Rightarrow> (h, l, Crash (Some (want w)))
        | Inr nd \<Rightarrow> if nxt nd = lft_next w then (h(lft w \<mapsto> nd\<lparr>nxt := t\<rparr>), l, MarkTest w t)
                   else (h, l, ReadNext w (head l))))"
| "advance h l (MarkTest w t) =
     (case ld h t of Inl _ \<Rightarrow> (h, l, Crash (Some (want w)))
      | Inr nd \<Rightarrow> if get_mark (nxt nd) = 0
                 then (h, l, if removing w then NullTest w t else Found (want w) t)
                 else (h, l, ReadNext w (head l)))"
| "advance h l (Found d t) = (h, l, Rest)"
| "advance h l (NullTest w t) =
     (case ld h t of Inl _ \<Rightarrow> (h, l, Crash (Some (want w)))
      | Inr nd \<Rightarrow> if nxt nd = 0 \<or> data nd \<noteq> want w then (h, l, Removed (want w) False)
                 else (h, l, ReadSucc w t))"
| "advance h l (ReadSucc w t) =
     (case ld h t of Inl _ \<Rightarrow> (h, l, Crash (Some (want w)))
      | Inr nd \<Rightarrow> if get_mark (nxt nd) = 0 then (h, l, MarkCas w t (nxt nd))
                 else (h, l, ReadNext (w\<lparr>lft_next := 0\<rparr>) (head l)))"
| "advance h l (MarkCas w t succ') =
     (case ld h t of Inl _ \<Rightarrow> (h, l, Crash (Some (want w)))
      | Inr nd \<Rightarrow> if nxt nd = succ' then (h(t \<mapsto> nd\<lparr>nxt := set_mark succ'\<rparr>), l, CountDown (want w))
                 else (h, l, ReadNext (w\<lparr>lft_next := 0\<rparr>) (head l)))"
| "advance h l (CountDown d) = (h, l\<lparr>cnt := cnt l - 1\<rparr>, Removed d True)"
| "advance h l (Removed d b) = (h, l, Rest)"
| "advance h l (Crash x) = (h, l, Crash x)"

record lfl_sys =
  heap :: lfl_heap
  lst :: lflist
  lpcs :: "lpc list"
  order :: "u64 list"          \<comment> \<open>ghost: head, then the nodes as their appenders exchanged the tail\<close>
  absent :: "nat \<Rightarrow> bool"      \<comment> \<open>ghost: since the call began, no node of the list once held the value looked for\<close>
  unlinked :: "nat \<Rightarrow> bool"    \<comment> \<open>ghost: since the call began, the first node that held it once had no successor\<close>

definition nx :: "lfl_heap \<Rightarrow> u64 \<Rightarrow> u64" where
  "nx h a = (case h a of None \<Rightarrow> 0 | Some nd \<Rightarrow> nxt nd)"

definition dat :: "lfl_heap \<Rightarrow> u64 \<Rightarrow> u64" where
  "dat h a = (case h a of None \<Rightarrow> 0 | Some nd \<Rightarrow> data nd)"

definition marked :: "lfl_heap \<Rightarrow> u64 \<Rightarrow> bool" where
  "marked h a \<longleftrightarrow> get_mark (nx h a) \<noteq> 0"

text \<open>What the list holds: the data of all nodes appended and not removed, linked already or not.\<close>

definition lfl_values :: "lfl_heap \<Rightarrow> u64 list \<Rightarrow> u64 list" where
  "lfl_values h ord = map (dat h) (filter (\<lambda>a. \<not> marked h a) (tl ord))"

text \<open>
  The list holds the value, and the first node that does has a null \<open>next\<close>: it is the last node,
  or its successor's appender has not linked it yet.
\<close>

definition first_unlinked :: "lfl_heap \<Rightarrow> u64 list \<Rightarrow> u64 \<Rightarrow> bool" where
  "first_unlinked h ord d \<longleftrightarrow> (\<exists>p < length ord. 0 < p \<and> dat h (ord ! p) = d \<and> nx h (ord ! p) = 0 \<and>
     (\<forall>k. 0 < k \<and> k < p \<longrightarrow> marked h (ord ! k) \<or> dat h (ord ! k) \<noteq> d))"

fun sought :: "lpc \<Rightarrow> u64 option" where
  "sought (ReadNext w t) = Some (want w)"
| "sought (TailTest w t) = Some (want w)"
| "sought (Leave w t) = Some (want w)"
| "sought (MarkTest w t) = Some (want w)"
| "sought (Found d t) = Some d"
| "sought (NullTest w t) = Some (want w)"
| "sought (ReadSucc w t) = Some (want w)"
| "sought (MarkCas w t x) = Some (want w)"
| "sought (CountDown d) = Some d"
| "sought (Removed d b) = Some d"
| "sought _ = None"

definition gone :: "lfl_heap \<Rightarrow> u64 list \<Rightarrow> lpc \<Rightarrow> bool" where
  "gone h ord pc \<longleftrightarrow> (case sought pc of None \<Rightarrow> False | Some d \<Rightarrow> d \<notin> set (lfl_values h ord))"

definition loose :: "lfl_heap \<Rightarrow> u64 list \<Rightarrow> lpc \<Rightarrow> bool" where
  "loose h ord pc \<longleftrightarrow> (case sought pc of None \<Rightarrow> False | Some d \<Rightarrow> first_unlinked h ord d)"

text \<open>The history variables after a step from \<open>s\<close> to \<open>s'\<close>.\<close>

definition watch :: "lfl_sys \<Rightarrow> lfl_sys \<Rightarrow> lfl_sys" where
  "watch s s' = s'\<lparr>
     absent := (\<lambda>t. (lpcs s ! t \<noteq> Rest \<and> absent s t) \<or> gone (heap s') (order s') (lpcs s' ! t)),
     unlinked := (\<lambda>t. (lpcs s ! t \<noteq> Rest \<and> unlinked s t) \<or> loose (heap s') (order s') (lpcs s' ! t))\<rparr>"

inductive lfl_step :: "lfl_sys \<Rightarrow> lfl_sys \<Rightarrow> bool" where
  call_append: "t < length (lpcs s) \<Longrightarrow> lpcs s ! t = Rest \<Longrightarrow> a \<noteq> 0 \<Longrightarrow> is_ref a \<Longrightarrow> heap s a = None \<Longrightarrow>
    lfl_step s (watch s (s\<lparr>heap := (heap s)(a \<mapsto> \<lparr>data = v, nxt = 0\<rparr>),
      lst := (lst s)\<lparr>tail := a\<rparr>, lpcs := (lpcs s)[t := Link (tail (lst s)) a],
      order := order s @ [a]\<rparr>))"
| call_search: "t < length (lpcs s) \<Longrightarrow> lpcs s ! t = Rest \<Longrightarrow>
    w = \<lparr>removing = r, want = d, lft = 0, lft_next = 0\<rparr> \<Longrightarrow>
    lfl_step s (watch s (s\<lparr>lpcs := (lpcs s)[t := ReadNext w (head (lst s))]\<rparr>))"
| thread_step: "t < length (lpcs s) \<Longrightarrow> lpcs s ! t \<noteq> Rest \<Longrightarrow>
    advance (heap s) (lst s) (lpcs s ! t) = (h, l, pc) \<Longrightarrow>
    lfl_step s (watch s (s\<lparr>heap := h, lst := l, lpcs := (lpcs s)[t := pc]\<rparr>))"

definition lfl_start :: "lfl_sys \<Rightarrow> bool" where
  "lfl_start s \<longleftrightarrow> (\<exists>a n. a \<noteq> 0 \<and> is_ref a \<and> new_lflist Map.empty a = (heap s, lst s) \<and>
     order s = [a] \<and> lpcs s = replicate n Rest)"

section \<open>The invariant\<close>

text \<open>
  A \<open>next\<close> pointer is null or leads forward, and only over removed nodes; the tail is the last
  node whose appender exchanged it.
\<close>

definition next_ok :: "lfl_heap \<Rightarrow> u64 list \<Rightarrow> nat \<Rightarrow> bool" where
  "next_ok h ord i \<longleftrightarrow> nx h (ord ! i) = 0 \<or>
     (\<exists>m j. i < j \<and> j < length ord \<and> nx h (ord ! i) = link m (ord ! j) \<and>
        (\<forall>k. i < k \<and> k < j \<longrightarrow> marked h (ord ! k)))"

definition list_ok :: "lfl_heap \<Rightarrow> lflist \<Rightarrow> u64 list \<Rightarrow> bool" where
  "list_ok h l ord \<longleftrightarrow> ord \<noteq> [] \<and> distinct ord \<and>
     (\<forall>a \<in> set ord. is_ref a \<and> a \<noteq> 0 \<and> h a \<noteq> None) \<and> (\<forall>i < length ord. next_ok h ord i) \<and>
     head l = ord ! 0 \<and> tail l = last ord \<and> \<not> marked h (ord ! 0) \<and> dat h (ord ! 0) = 0"

text \<open>What a walk knows at the node of index \<open>p\<close>.\<close>

definition passed :: "lfl_heap \<Rightarrow> u64 list \<Rightarrow> walk \<Rightarrow> nat \<Rightarrow> bool" where
  "passed h ord w p \<longleftrightarrow> p < length ord \<and> want w \<noteq> 0 \<and>
     (\<forall>k < p. marked h (ord ! k) \<or> dat h (ord ! k) \<noteq> want w)"

definition left_ok :: "lfl_heap \<Rightarrow> u64 list \<Rightarrow> walk \<Rightarrow> nat \<Rightarrow> bool" where
  "left_ok h ord w p \<longleftrightarrow> (\<exists>q r. q < r \<and> r \<le> p \<and> lft w = ord ! q \<and> lft_next w = ord ! r \<and>
     (\<forall>k. q < k \<and> k < p \<longrightarrow> marked h (ord ! k)))"

text \<open>A search for 0 never gets past the head.\<close>

definition stuck_at_head :: "u64 list \<Rightarrow> walk \<Rightarrow> u64 \<Rightarrow> bool" where
  "stuck_at_head ord w t \<longleftrightarrow> want w = 0 \<and> t = ord ! 0 \<and> lft w = 0 \<and> lft_next w = 0"

fun lpc_ok :: "lfl_heap \<Rightarrow> u64 list \<Rightarrow> bool \<Rightarrow> bool \<Rightarrow> lpc \<Rightarrow> bool" where
  "lpc_ok h ord A B (Link old a) = (\<exists>i. Suc i < length ord \<and> old = ord ! i \<and> a = ord ! Suc i \<and> nx h old = 0)"
| "lpc_ok h ord A B (ReadNext w t) = (stuck_at_head ord w t \<or>
     (\<exists>p. t = ord ! p \<and> passed h ord w p \<and> (p = 0 \<or> left_ok h ord w p)))"
| "lpc_ok h ord A B (TailTest w t) = ((t = 0 \<and> want w \<noteq> 0) \<or>
     (\<exists>p > 0. t = ord ! p \<and> passed h ord w p \<and> left_ok h ord w p))"
| "lpc_ok h ord A B (Leave w t) = (stuck_at_head ord w t \<or>
     (\<exists>p > 0. t = ord ! p \<and> passed h ord w p \<and> left_ok h ord w p \<and> (dat h t = want w \<or> A)))"
| "lpc_ok h ord A B (MarkTest w t) =
     (\<exists>p > 0. t = ord ! p \<and> passed h ord w p \<and> (dat h t = want w \<or> A))"
| "lpc_ok h ord A B (Found d t) = (t \<in> set (tl ord) \<and> (dat h t = d \<or> A))"
| "lpc_ok h ord A B (NullTest w t) =
     (\<exists>p > 0. t = ord ! p \<and> passed h ord w p \<and> (dat h t = want w \<or> A))"
| "lpc_ok h ord A B (ReadSucc w t) =
     (\<exists>p > 0. t = ord ! p \<and> p < length ord \<and> want w \<noteq> 0 \<and> dat h t = want w \<and> nx h t \<noteq> 0)"
| "lpc_ok h ord A B (MarkCas w t x) =
     (\<exists>p > 0. t = ord ! p \<and> p < length ord \<and> want w \<noteq> 0 \<and> dat h t = want w \<and> x \<noteq> 0 \<and> get_mark x = 0)"
| "lpc_ok h ord A B (Removed d b) = (b \<or> A \<or> B)"
| "lpc_ok h ord A B (Crash x) = (x = Some 0)"
| "lpc_ok h ord A B _ = True"

text \<open>Every node without a successor, the tail apart, is being linked by exactly one thread.\<close>

definition links_ok :: "lfl_heap \<Rightarrow> u64 list \<Rightarrow> lpc list \<Rightarrow> bool" where
  "links_ok h ord pcs \<longleftrightarrow>
     (\<forall>i. Suc i < length ord \<and> nx h (ord ! i) = 0 \<longrightarrow> Link (ord ! i) (ord ! Suc i) \<in> set pcs) \<and>
     (\<forall>t t' old a b. t < length pcs \<and> t' < length pcs \<and> pcs ! t = Link old a \<and> pcs ! t' = Link old b \<longrightarrow> t = t')"

text \<open>What a thread has yet to add to the counter.\<close>

fun debt :: "lpc \<Rightarrow> u64" where
  "debt (Link old a) = 1"
| "debt CountUp = 1"
| "debt (CountDown d) = - 1"
| "debt _ = 0"

definition count_ok :: "lfl_heap \<Rightarrow> lflist \<Rightarrow> u64 list \<Rightarrow> lpc list \<Rightarrow> bool" where
  "count_ok h l ord pcs \<longleftrightarrow> cnt l + sum_list (map debt pcs) = of_nat (length (lfl_values h ord))"

definition lfl_inv :: "lfl_sys \<Rightarrow> bool" where
  "lfl_inv s \<longleftrightarrow> list_ok (heap s) (lst s) (order s) \<and> links_ok (heap s) (order s) (lpcs s) \<and>
     count_ok (heap s) (lst s) (order s) (lpcs s) \<and>
     (\<forall>t < length (lpcs s). lpc_ok (heap s) (order s) (absent s t) (unlinked s t) (lpcs s ! t))"

section \<open>Reading and writing nodes\<close>

lemma upd_simps [simp]:
  "nx (h(a \<mapsto> nd)) b = (if b = a then nxt nd else nx h b)"
  "dat (h(a \<mapsto> nd)) b = (if b = a then data nd else dat h b)"
  "marked (h(a \<mapsto> nd)) b = (if b = a then get_mark (nxt nd) \<noteq> 0 else marked h b)"
  by (simp_all add: nx_def dat_def marked_def)

lemma get_mark_0 [simp]: "get_mark 0 = 0"
  by (simp add: get_mark_ref)

lemma marked_nx: "marked h a \<Longrightarrow> nx h a \<noteq> 0"
  by (auto simp: marked_def)

lemma some_node: "h a \<noteq> None \<Longrightarrow> h a = Some \<lparr>data = dat h a, nxt = nx h a\<rparr>"
  by (cases "h a") (auto simp: nx_def dat_def)

lemma list_okD:
  assumes "list_ok h l ord" "i < length ord"
  shows "is_ref (ord ! i)" "ord ! i \<noteq> 0" "h (ord ! i) = Some \<lparr>data = dat h (ord ! i), nxt = nx h (ord ! i)\<rparr>"
    "next_ok h ord i"
  using assms some_node nth_mem [OF assms(2)] by (auto simp: list_ok_def)

lemma list_ok_ld:
  "list_ok h l ord \<Longrightarrow> i < length ord \<Longrightarrow> ld h (ord ! i) = Inr \<lparr>data = dat h (ord ! i), nxt = nx h (ord ! i)\<rparr>"
  by (simp add: list_okD)

lemma list_ok_head: "list_ok h l ord \<Longrightarrow>
    0 < length ord \<and> head l = ord ! 0 \<and> \<not> marked h (ord ! 0) \<and> dat h (ord ! 0) = 0"
  by (simp add: list_ok_def)

lemma list_ok_eq:
  "list_ok h l ord \<Longrightarrow> i < length ord \<Longrightarrow> j < length ord \<Longrightarrow> ord ! i = ord ! j \<longleftrightarrow> i = j"
  by (auto simp: list_ok_def nth_eq_iff_index_eq)

lemma list_ok_last:
  assumes "list_ok h l ord"
  shows "tail l = ord ! (length ord - 1)" "nx h (ord ! (length ord - 1)) = 0"
proof -
  have ne: "ord \<noteq> []" and t: "tail l = last ord" using assms by (simp_all add: list_ok_def)
  show "tail l = ord ! (length ord - 1)" using t ne by (simp add: last_conv_nth)
  have "next_ok h ord (length ord - 1)" using list_okD(4) [OF assms] ne by simp
  then show "nx h (ord ! (length ord - 1)) = 0" by (auto simp: next_ok_def)
qed

lemma next_cases:
  assumes "list_ok h l ord" "i < length ord"
  obtains "nx h (ord ! i) = 0"
  | j where "i < j" "j < length ord" "nx h (ord ! i) = link (marked h (ord ! i)) (ord ! j)"
      "\<And>k. i < k \<Longrightarrow> k < j \<Longrightarrow> marked h (ord ! k)" "get_ref (nx h (ord ! i)) = ord ! j"
proof (cases "nx h (ord ! i) = 0")
  case False
  then obtain m j where j: "i < j" "j < length ord" "nx h (ord ! i) = link m (ord ! j)"
      "\<And>k. i < k \<Longrightarrow> k < j \<Longrightarrow> marked h (ord ! k)"
    using list_okD(4) [OF assms] by (auto simp: next_ok_def)
  have r: "is_ref (ord ! j)" by (rule list_okD(1) [OF assms(1) j(2)])
  have "marked h (ord ! i) = m" using j(3) r by (simp add: marked_def link_simps)
  moreover have "get_ref (nx h (ord ! i)) = ord ! j" using j(3) r by (simp add: link_simps)
  ultimately show ?thesis using that(2) j by blast
qed (rule that(1))

text \<open>What a step of any thread keeps for all the others.\<close>

definition grows :: "lfl_heap \<Rightarrow> u64 list \<Rightarrow> lfl_heap \<Rightarrow> u64 list \<Rightarrow> bool" where
  "grows h ord h' ord' \<longleftrightarrow> (\<exists>xs. ord' = ord @ xs) \<and>
     (\<forall>a \<in> set ord. dat h' a = dat h a \<and> (marked h a \<longrightarrow> marked h' a) \<and> (nx h a \<noteq> 0 \<longrightarrow> nx h' a \<noteq> 0))"

lemma grows_refl [simp]: "grows h ord h ord"
  by (simp add: grows_def)

lemma growsD:
  assumes "grows h ord h' ord'" "i < length ord"
  shows "i < length ord'" "ord' ! i = ord ! i" "dat h' (ord ! i) = dat h (ord ! i)"
    "marked h (ord ! i) \<Longrightarrow> marked h' (ord ! i)" "nx h (ord ! i) \<noteq> 0 \<Longrightarrow> nx h' (ord ! i) \<noteq> 0"
  using assms nth_mem [OF assms(2)] by (auto simp: grows_def nth_append)

lemma passed_grows:
  assumes g: "grows h ord h' ord'" and ok: "passed h ord w p"
  shows "passed h' ord' w p"
proof -
  have p: "p < length ord" "want w \<noteq> 0" using ok by (simp_all add: passed_def)
  have "marked h' (ord' ! k) \<or> dat h' (ord' ! k) \<noteq> want w" if "k < p" for k
  proof -
    have k: "k < length ord" using that p by simp
    have "marked h (ord ! k) \<or> dat h (ord ! k) \<noteq> want w" using ok that by (simp add: passed_def)
    then show ?thesis using growsD(2-4) [OF g k] by argo
  qed
  then show ?thesis using p growsD(1) [OF g] by (simp add: passed_def)
qed

lemma passed_nth: "passed h ord w p \<Longrightarrow> p < length ord"
  by (simp add: passed_def)

lemma left_ok_grows:
  assumes g: "grows h ord h' ord'" and p: "p < length ord" and ok: "left_ok h ord w p"
  shows "left_ok h' ord' w p"
proof -
  obtain q r where q: "q < r" "r \<le> p" "lft w = ord ! q" "lft_next w = ord ! r"
      "\<And>k. q < k \<Longrightarrow> k < p \<Longrightarrow> marked h (ord ! k)"
    using ok by (auto simp: left_ok_def)
  have "lft w = ord' ! q" "lft_next w = ord' ! r" using q(1-4) p growsD(2) [OF g] by simp_all
  moreover have "marked h' (ord' ! k)" if "q < k" "k < p" for k
    using q(5) [OF that] growsD(2,4) [OF g, of k] that p by simp
  ultimately show ?thesis using q(1,2) unfolding left_ok_def by blast
qed

lemma stuck_grows: "grows h ord h' ord' \<Longrightarrow> ord \<noteq> [] \<Longrightarrow> stuck_at_head ord w t \<Longrightarrow> stuck_at_head ord' w t"
  using growsD(2) [of h ord h' ord' 0] by (simp add: stuck_at_head_def)

lemma walk_grows:
  assumes "grows h ord h' ord'" "passed h ord w p"
  shows "p < length ord' \<and> ord' ! p = ord ! p \<and> passed h' ord' w p \<and> dat h' (ord ! p) = dat h (ord ! p) \<and>
    (left_ok h ord w p \<longrightarrow> left_ok h' ord' w p)"
  using assms passed_grows left_ok_grows growsD [OF assms(1) passed_nth [OF assms(2)]]
    passed_nth [OF assms(2)] by blast

lemma lpc_ok_grows:
  assumes g: "grows h ord h' ord'" and ne: "ord \<noteq> []" and A: "A \<longrightarrow> A'" and B: "B \<longrightarrow> B'" and ok: "lpc_ok h ord A B pc"
    and old: "\<And>old a. pc = Link old a \<Longrightarrow> nx h' old = nx h old"
  shows "lpc_ok h' ord' A' B' pc"
proof -
  note st = stuck_grows [OF g ne]
  have W: "ord' ! p = ord ! p" "passed h' ord' w p" "dat h' (ord ! p) = dat h (ord ! p)"
    "left_ok h ord w p \<Longrightarrow> left_ok h' ord' w p" if "passed h ord w p" for w p
    using walk_grows [OF g that] by blast+
  show ?thesis
  proof (cases pc)
    case (Link old a)
    obtain i where "Suc i < length ord" "old = ord ! i" "a = ord ! Suc i" "nx h old = 0"
      using ok unfolding Link lpc_ok.simps by blast
    then show ?thesis using old [OF Link] growsD(1,2) [OF g] unfolding Link lpc_ok.simps
      by (metis Suc_lessD)
  next
    case (ReadNext w t)
    then show ?thesis using ok st [of w t] W [of w] unfolding ReadNext lpc_ok.simps by metis
  next
    case (TailTest w t)
    then show ?thesis using ok W [of w] unfolding TailTest lpc_ok.simps by metis
  next
    case (Leave w t)
    then show ?thesis using ok A st [of w t] W [of w] unfolding Leave lpc_ok.simps by metis
  next
    case (MarkTest w t)
    then show ?thesis using ok A W [of w] unfolding MarkTest lpc_ok.simps by metis
  next
    case (NullTest w t)
    then show ?thesis using ok A W [of w] unfolding NullTest lpc_ok.simps by metis
  next
    case (ReadSucc w t)
    then show ?thesis using ok growsD [OF g] unfolding ReadSucc lpc_ok.simps by metis
  next
    case (MarkCas w t x)
    then show ?thesis using ok growsD [OF g] unfolding MarkCas lpc_ok.simps by metis
  next
    case (Found d t)
    then show ?thesis using ok A g ne by (cases ord) (auto simp: grows_def)
  qed (use ok A B in auto)
qed

section \<open>The three writes\<close>

text \<open>
  A write to the \<open>next\<close> of node \<open>i\<close> that leads forward, over removed nodes only, and keeps a mark
  that is set: linking, unlinking and marking are all of this kind.
\<close>

abbreviation set_nx :: "lfl_heap \<Rightarrow> u64 \<Rightarrow> u64 \<Rightarrow> lfl_heap" where
  "set_nx h a x \<equiv> h(a \<mapsto> \<lparr>data = dat h a, nxt = x\<rparr>)"

lemma write_next:
  assumes ok: "list_ok h l ord" and ij: "i < j" "j < length ord" and x: "x = link m (ord ! j)"
    and between: "\<And>k. i < k \<Longrightarrow> k < j \<Longrightarrow> marked h (ord ! k)"
    and m: "i = 0 \<Longrightarrow> \<not> m" "marked h (ord ! i) \<Longrightarrow> m"
  shows "list_ok (set_nx h (ord ! i) x) l ord" "grows h ord (set_nx h (ord ! i) x) ord" "x \<noteq> 0"
    "get_mark x \<noteq> 0 \<longleftrightarrow> m"
proof -
  let ?h = "set_nx h (ord ! i) x"
  have i: "i < length ord" using ij by simp
  have j: "is_ref (ord ! j)" "ord ! j \<noteq> 0" using list_okD(1,2) [OF ok ij(2)] .
  show gm: "get_mark x \<noteq> 0 \<longleftrightarrow> m" by (simp add: x j link_simps)
  have "get_ref x = ord ! j" by (simp add: x j link_simps)
  then show x0: "x \<noteq> 0" using j get_ref_ref [of 0] by auto
  show g: "grows h ord ?h ord"
    using m(2) gm x0 by (auto simp: grows_def)
  have "next_ok ?h ord k" if k: "k < length ord" for k
  proof (cases "k = i")
    case True
    have "ord ! k' \<noteq> ord ! i" if "i < k'" "k' < j" for k'
      using list_ok_eq [OF ok i, of k'] that ij(2) by simp
    then show ?thesis
      unfolding next_ok_def True using ij between x by (intro disjI2 exI [of _ m] exI [of _ j]) auto
  next
    case False
    then have ne: "ord ! k \<noteq> ord ! i" using list_ok_eq [OF ok k i] by simp
    show ?thesis
    proof (rule next_cases [OF ok k])
      assume "nx h (ord ! k) = 0"
      then show ?thesis using ne by (simp add: next_ok_def)
    next
      fix j' assume j': "k < j'" "j' < length ord" "nx h (ord ! k) = link (marked h (ord ! k)) (ord ! j')"
        "\<And>n. k < n \<Longrightarrow> n < j' \<Longrightarrow> marked h (ord ! n)"
      have "marked ?h (ord ! n)" if "k < n" "n < j'" for n
        using growsD(4) [OF g, of n] j'(4) [OF that] that j'(2) by simp
      moreover have "nx ?h (ord ! k) = nx h (ord ! k)" using ne by simp
      ultimately show ?thesis unfolding next_ok_def using j'(1-3) by metis
    qed
  qed
  moreover have "i = 0 \<or> ord ! 0 \<noteq> ord ! i" using list_ok_eq [OF ok _ i, of 0] i by (cases ord) auto
  ultimately show "list_ok ?h l ord"
    using ok gm m(1) by (auto simp: list_ok_def)
qed

lemma values_same:
  assumes "grows h ord h' ord" "\<And>a. a \<in> set ord \<Longrightarrow> marked h' a \<Longrightarrow> marked h a"
  shows "lfl_values h' ord = lfl_values h ord"
proof -
  have sub: "set (tl ord) \<subseteq> set ord" by (cases ord) auto
  have eq: "marked h' a = marked h a" if "a \<in> set (tl ord)" for a
    using that sub assms by (auto simp: grows_def)
  have "filter (\<lambda>a. \<not> marked h' a) (tl ord) = filter (\<lambda>a. \<not> marked h a) (tl ord)"
    using eq by (intro filter_cong) auto
  then show ?thesis
    using assms(1) sub unfolding lfl_values_def by (auto simp: grows_def)
qed

lemma values_mark:
  assumes ok: "list_ok h l ord" and i: "0 < i" "i < length ord" and "\<not> marked h (ord ! i)"
    and x: "get_mark x \<noteq> 0"
  shows "\<exists>us vs. lfl_values h ord = us @ dat h (ord ! i) # vs \<and>
    lfl_values (set_nx h (ord ! i) x) ord = us @ vs"
proof -
  let ?h = "set_nx h (ord ! i) x"
  obtain a rest where ord: "ord = a # rest" using i by (cases ord) auto
  obtain n where n: "i = Suc n" using i by (cases i) auto
  define as bs where "as = take n rest" and "bs = drop (Suc n) rest"
  have rest: "rest = as @ ord ! i # bs"
    using i ord n unfolding as_def bs_def by (simp add: id_take_nth_drop)
  have "distinct rest" using ok ord by (simp add: list_ok_def)
  then have out: "ord ! i \<notin> set as" "ord ! i \<notin> set bs" using rest by (metis distinct_append distinct.simps(2) disjoint_insert(1) list.simps(15))+
  have "filter (\<lambda>a. \<not> marked ?h a) xs = filter (\<lambda>a. \<not> marked h a) xs"
      "map (dat ?h) (filter (\<lambda>a. \<not> marked h a) xs) = map (dat h) (filter (\<lambda>a. \<not> marked h a) xs)"
    if "ord ! i \<notin> set xs" for xs
    using that by (auto intro!: filter_cong simp: )
  note same = this [OF out(1)] this [OF out(2)]
  have tl: "tl ord = as @ ord ! i # bs" using rest ord by simp
  have "lfl_values h ord = map (dat h) (filter (\<lambda>a. \<not> marked h a) as) @ dat h (ord ! i) #
      map (dat h) (filter (\<lambda>a. \<not> marked h a) bs)"
    unfolding lfl_values_def tl using assms(4) by simp
  moreover have "marked ?h (ord ! i)" using x by simp
  then have "lfl_values ?h ord = map (dat h) (filter (\<lambda>a. \<not> marked h a) as) @
      map (dat h) (filter (\<lambda>a. \<not> marked h a) bs)"
    unfolding lfl_values_def tl
    by (simp only: filter_append filter.simps map_append same if_False not_True_eq_False simp_thms)
  ultimately show ?thesis by blast
qed

text \<open>A new node behind the tail.\<close>

lemma add_node:
  assumes ok: "list_ok h l ord" and a: "a \<noteq> 0" "is_ref a" "h a = None"
    and h': "h' = h(a \<mapsto> \<lparr>data = v, nxt = 0\<rparr>)"
  shows "list_ok h' (l\<lparr>tail := a\<rparr>) (ord @ [a])" "grows h ord h' (ord @ [a])"
    "lfl_values h' (ord @ [a]) = lfl_values h ord @ [v]"
  unfolding h'
proof -
  let ?h = "h(a \<mapsto> \<lparr>data = v, nxt = 0\<rparr>)"
  have ne: "ord \<noteq> []" and fresh: "a \<notin> set ord" using ok a(3) by (auto simp: list_ok_def)
  have out: "b \<noteq> a" if "b \<in> set ord" for b using fresh that by blast
  show g: "grows h ord ?h (ord @ [a])" using out by (simp add: grows_def)
  have "next_ok ?h (ord @ [a]) k" if k: "k < Suc (length ord)" for k
  proof (cases "k < length ord")
    case False
    then show ?thesis using k by (simp add: next_ok_def nth_append)
  next
    case True
    have o: "ord ! n \<noteq> a" if "n < length ord" for n using out that by simp
    show ?thesis
    proof (rule next_cases [OF ok True])
      assume "nx h (ord ! k) = 0"
      then show ?thesis using True o by (simp add: next_ok_def nth_append)
    next
      fix j assume j: "k < j" "j < length ord" "nx h (ord ! k) = link (marked h (ord ! k)) (ord ! j)"
        "\<And>n. k < n \<Longrightarrow> n < j \<Longrightarrow> marked h (ord ! n)"
      then show ?thesis unfolding next_ok_def using True o
        by (intro disjI2 exI [of _ "marked h (ord ! k)"] exI [of _ j]) (auto simp: nth_append)
    qed
  qed
  then show "list_ok ?h (l\<lparr>tail := a\<rparr>) (ord @ [a])"
    using ok a fresh out by (auto simp: list_ok_def nth_append)
  have "filter (\<lambda>b. \<not> marked ?h b) (tl ord) = filter (\<lambda>b. \<not> marked h b) (tl ord)"
    using fresh by (intro filter_cong) (auto dest: list.set_sel(2) [OF ne])
  then show "lfl_values ?h (ord @ [a]) = lfl_values h ord @ [v]"
    using ne fresh by (auto simp: lfl_values_def dest: list.set_sel(2) [OF ne])
qed

text \<open>What a walk knows that came to the last node, or to a node with the value and no successor.\<close>

lemma not_in_values:
  assumes ok: "list_ok h l ord" and p: "passed h ord w (length ord - 1)" and d: "dat h (ord ! (length ord - 1)) \<noteq> want w"
  shows "want w \<notin> set (lfl_values h ord)"
proof
  assume "want w \<in> set (lfl_values h ord)"
  then obtain a where a: "a \<in> set (tl ord)" "\<not> marked h a" "dat h a = want w" by (auto simp: lfl_values_def)
  then have "a \<in> set ord" using ok by (auto simp: list_ok_def dest: list.set_sel(2))
  then obtain k where k: "k < length ord" "a = ord ! k" by (auto simp: in_set_conv_nth)
  then have "k < length ord - 1 \<or> k = length ord - 1" by linarith
  then show False using p d a(2,3) k(2) unfolding passed_def by blast
qed

lemma passed_unlinked:
  "passed h ord w p \<Longrightarrow> 0 < p \<Longrightarrow> dat h (ord ! p) = want w \<Longrightarrow> nx h (ord ! p) = 0 \<Longrightarrow> first_unlinked h ord (want w)"
  unfolding first_unlinked_def passed_def by blast

section \<open>What one access of a thread does\<close>

definition step_ok :: "lfl_heap \<Rightarrow> lflist \<Rightarrow> u64 list \<Rightarrow> bool \<Rightarrow> bool \<Rightarrow> lpc \<Rightarrow> lfl_heap \<Rightarrow> lflist \<Rightarrow> lpc \<Rightarrow> bool" where
  "step_ok h l ord A B pc h' l' pc' \<longleftrightarrow>
     list_ok h' l' ord \<and> grows h ord h' ord \<and> lpc_ok h' ord (A \<or> gone h' ord pc') (B \<or> loose h' ord pc') pc' \<and>
     (\<forall>a b. pc' \<noteq> Link a b) \<and> (\<forall>a b. pc = Link a b \<longrightarrow> nx h' a \<noteq> 0) \<and>
     (\<forall>a. nx h a = 0 \<longrightarrow> nx h' a = 0 \<or> (\<exists>b. pc = Link a b)) \<and>
     cnt l' + debt pc' + of_nat (length (lfl_values h ord)) = cnt l + debt pc + of_nat (length (lfl_values h' ord)) \<and>
     (lfl_values h' ord = lfl_values h ord \<or>
      (\<exists>d us vs. pc' = CountDown d \<and> lfl_values h ord = us @ d # vs \<and> lfl_values h' ord = us @ vs))"

lemma step_stay:
  assumes "list_ok h l ord" "lpc_ok h ord (A \<or> gone h ord pc') (B \<or> loose h ord pc') pc'" "debt pc = debt pc'"
    "\<And>a b. pc \<noteq> Link a b" "\<And>a b. pc' \<noteq> Link a b"
  shows "step_ok h l ord A B pc h l pc'"
  using assms by (simp add: step_ok_def)

lemma restart: "list_ok h l ord \<Longrightarrow> want w \<noteq> 0 \<Longrightarrow> lpc_ok h ord A B (ReadNext w (head l))"
  using list_ok_head by (auto simp: passed_def intro!: exI [of _ 0])

lemma step_read:
  assumes ok: "list_ok h l ord" and pc: "lpc_ok h ord A B (ReadNext w t)"
    and r: "advance h l (ReadNext w t) = (h', l', pc')"
  shows "step_ok h l ord A B (ReadNext w t) h' l' pc'"
proof (cases "stuck_at_head ord w t")
  case True
  then have t: "t = ord ! 0" "want w = 0" by (simp_all add: stuck_at_head_def)
  have "pc' = Leave w t" "h' = h" "l' = l"
    using r list_ok_ld [OF ok, of 0] list_ok_head [OF ok] t by (auto simp: marked_def)
  then show ?thesis using ok True by (auto intro!: step_stay)
next
  case False
  then obtain p where p: "t = ord ! p" "passed h ord w p" "p = 0 \<or> left_ok h ord w p" using pc by auto
  note pl = passed_nth [OF p(2)]
  have want: "want w \<noteq> 0" using p(2) by (simp add: passed_def)
  have ld: "ld h t = Inr \<lparr>data = dat h t, nxt = nx h t\<rparr>" using list_ok_ld [OF ok pl] p(1) by simp
  show ?thesis
  proof (cases "\<not> marked h t \<and> dat h t = want w")
    case True
    then have "p \<noteq> 0" using list_ok_head [OF ok] p(1) want by (metis)
    moreover have "pc' = Leave w t" "h' = h" "l' = l" using r ld True by (auto simp: marked_def)
    ultimately show ?thesis using ok p True by (auto intro!: step_stay exI [of _ p])
  next
    case go: False
    define w' where "w' = (if marked h t then w else w\<lparr>lft := t, lft_next := nx h t\<rparr>)"
    have e: "pc' = TailTest w' (get_ref (nx h t))" "h' = h" "l' = l"
      using r ld go by (auto simp: marked_def w'_def split: if_splits)
    have w': "want w' = want w" by (simp add: w'_def)
    have "lpc_ok h ord A B (TailTest w' (get_ref (nx h t)))"
    proof (rule next_cases [OF ok pl])
      assume "nx h (ord ! p) = 0"
      then show ?thesis using want w' p(1) by (simp add: get_ref_ref)
    next
      fix j assume j: "p < j" "j < length ord" "nx h (ord ! p) = link (marked h (ord ! p)) (ord ! j)"
        "\<And>k. p < k \<Longrightarrow> k < j \<Longrightarrow> marked h (ord ! k)" "get_ref (nx h (ord ! p)) = ord ! j"
      have "marked h (ord ! k) \<or> dat h (ord ! k) \<noteq> want w" if "k < j" for k
      proof (cases k p rule: linorder_cases)
        case less
        then show ?thesis using p(2) by (simp add: passed_def)
      next
        case equal
        then show ?thesis using go p(1) by auto
      next
        case greater
        then show ?thesis using j(4) that by blast
      qed
      then have "passed h ord w' j" using j(2) want w' by (simp add: passed_def)
      moreover have "left_ok h ord w' j"
      proof (cases "marked h t")
        case True
        then have "left_ok h ord w p" using p(1,3) list_ok_head [OF ok] by auto
        then obtain q s where q: "q < s" "s \<le> p" "lft w = ord ! q" "lft_next w = ord ! s"
          "\<forall>k. q < k \<and> k < p \<longrightarrow> marked h (ord ! k)" by (auto simp: left_ok_def)
        have "marked h (ord ! k)" if "q < k" "k < j" for k
          using q(5) j(4) True p(1) that by (cases k p rule: linorder_cases) auto
        moreover have "w' = w" using True by (simp add: w'_def)
        ultimately show ?thesis using q(1-4) j(1) unfolding left_ok_def by (meson less_imp_le order_trans)
      next
        case False
        then have "lft w' = ord ! p" "lft_next w' = ord ! j" using j(3) p(1) by (simp_all add: w'_def link_def)
        then show ?thesis unfolding left_ok_def using j(1,4) by blast
      qed
      ultimately show ?thesis using j(1,5) p(1) by (auto intro!: exI [of _ j])
    qed
    moreover have "lpc_ok h ord X Y (TailTest w' x) = lpc_ok h ord A B (TailTest w' x)" for X Y x by simp
    ultimately show ?thesis unfolding e by (intro step_stay [OF ok]) auto
  qed
qed

lemma step_tail:
  assumes ok: "list_ok h l ord" and pc: "lpc_ok h ord A B (TailTest w t)"
    and r: "advance h l (TailTest w t) = (h', l', pc')"
  shows "step_ok h l ord A B (TailTest w t) h' l' pc'"
proof (cases "t = 0")
  case True
  then have "want w \<noteq> 0" using pc by (auto simp: passed_def)
  moreover have "pc' = ReadNext w (head l)" "h' = h" "l' = l" using r True by auto
  ultimately show ?thesis using restart [OF ok] by (auto intro!: step_stay [OF ok] simp del: lpc_ok.simps)
next
  case False
  then obtain p where p: "0 < p" "t = ord ! p" "passed h ord w p" "left_ok h ord w p" using pc by auto
  show ?thesis
  proof (cases "t = tail l")
    case True
    have "0 < length ord" using passed_nth [OF p(3)] by auto
    then have "p = length ord - 1"
      using True p(2) list_ok_last(1) [OF ok] list_ok_eq [OF ok passed_nth [OF p(3)]] by simp
    then have "dat h t = want w \<or> gone h ord (Leave w t)"
      using not_in_values [OF ok, of w] p(2,3) by (auto simp: gone_def)
    moreover have "pc' = Leave w t" "h' = h" "l' = l" using r True False by auto
    ultimately show ?thesis using p by (auto intro!: step_stay [OF ok] exI [of _ p])
  next
    case other: False
    have "pc' = ReadNext w t" "h' = h" "l' = l" using r other False by auto
    then show ?thesis using p by (auto intro!: step_stay [OF ok] exI [of _ p])
  qed
qed

lemma step_leave:
  assumes ok: "list_ok h l ord" and pc: "lpc_ok h ord A B (Leave w t)"
    and r: "advance h l (Leave w t) = (h', l', pc')"
  shows "step_ok h l ord A B (Leave w t) h' l' pc'"
proof (cases "stuck_at_head ord w t")
  case True
  then have "pc' = Crash (Some 0)" "h' = h" "l' = l"
    using r list_okD(2) [OF ok, of 0] list_ok_head [OF ok] by (auto simp: stuck_at_head_def)
  then show ?thesis by (auto intro!: step_stay [OF ok])
next
  case False
  then obtain p where p: "0 < p" "t = ord ! p" "passed h ord w p" "left_ok h ord w p" "dat h t = want w \<or> A"
    using pc by auto
  note pl = passed_nth [OF p(3)]
  have want: "want w \<noteq> 0" using p(3) by (simp add: passed_def)
  show ?thesis
  proof (cases "lft_next w = t")
    case True
    then have "pc' = MarkTest w t" "h' = h" "l' = l" using r by auto
    then show ?thesis using p by (auto intro!: step_stay [OF ok] exI [of _ p])
  next
    case ne: False
    obtain q s where q: "q < s" "s \<le> p" "lft w = ord ! q" "lft_next w = ord ! s"
      "\<And>k. q < k \<Longrightarrow> k < p \<Longrightarrow> marked h (ord ! k)" using p(4) by (auto simp: left_ok_def)
    have ql: "q < length ord" "s < length ord" using q(1,2) pl by simp_all
    have ld: "ld h (lft w) = Inr \<lparr>data = dat h (ord ! q), nxt = nx h (ord ! q)\<rparr>"
      using list_ok_ld [OF ok ql(1)] q(3) by simp
    show ?thesis
    proof (cases "nx h (ord ! q) = ord ! s")
      case True
      have e: "pc' = MarkTest w t" "h' = set_nx h (ord ! q) t" "l' = l"
        using r ld ne True q(3,4) by auto
      have um: "\<not> marked h (ord ! q)" "nx h (ord ! q) \<noteq> 0"
        using True list_okD(1,2) [OF ok ql(2)] by (simp_all add: marked_def get_mark_ref)
      have "t = link False (ord ! p)" by (simp add: p(2) link_def)
      from write_next [OF ok less_le_trans [OF q(1,2)] pl this q(5)] um
      have W: "list_ok h' l ord" "grows h ord h' ord" "get_mark t = 0" by (simp_all add: e(2))
      have "lfl_values h' ord = lfl_values h ord" using W(3) by (intro values_same [OF W(2)]) (auto simp: e(2) split: if_splits)
      moreover have "lpc_ok h' ord X Y (MarkTest w t)" if "A \<longrightarrow> X" for X Y
        using p passed_grows [OF W(2) p(3)] growsD(3) [OF W(2) pl] that by auto
      ultimately show ?thesis using W um(2) unfolding step_ok_def e(1,3) by (auto simp: e(2) simp del: lpc_ok.simps)
    next
      case other: False
      have "pc' = ReadNext w (head l)" "h' = h" "l' = l" using r ld ne other q(3,4) by auto
      then show ?thesis using restart [OF ok want] by (auto intro!: step_stay [OF ok] simp del: lpc_ok.simps)
    qed
  qed
qed

lemma nth_in_tl: "0 < p \<Longrightarrow> p < length xs \<Longrightarrow> xs ! p \<in> set (tl xs)"
  by (cases xs) (auto simp: nth_Cons')

lemma step_mark:
  assumes ok: "list_ok h l ord" and pc: "lpc_ok h ord A B (MarkTest w t)"
    and r: "advance h l (MarkTest w t) = (h', l', pc')"
  shows "step_ok h l ord A B (MarkTest w t) h' l' pc'"
proof -
  obtain p where p: "0 < p" "t = ord ! p" "passed h ord w p" "dat h t = want w \<or> A" using pc by auto
  note pl = passed_nth [OF p(3)]
  have ld: "ld h t = Inr \<lparr>data = dat h t, nxt = nx h t\<rparr>" using list_ok_ld [OF ok pl] p(2) by simp
  have want: "want w \<noteq> 0" using p(3) by (simp add: passed_def)
  consider "pc' = NullTest w t" | "pc' = Found (want w) t" | "pc' = ReadNext w (head l)"
    using r ld by (auto split: if_splits)
  moreover have e: "h' = h" "l' = l" using r ld by (auto split: if_splits)
  ultimately show ?thesis
  proof cases
    case 1
    then show ?thesis using p unfolding e by (auto intro!: step_stay [OF ok] exI [of _ p])
  next
    case 2
    then show ?thesis using p nth_in_tl [OF p(1) pl] unfolding e by (auto intro!: step_stay [OF ok])
  next
    case 3
    then show ?thesis unfolding e using restart [OF ok want]
      by (auto intro!: step_stay [OF ok] simp del: lpc_ok.simps)
  qed
qed

lemma step_null:
  assumes ok: "list_ok h l ord" and pc: "lpc_ok h ord A B (NullTest w t)"
    and r: "advance h l (NullTest w t) = (h', l', pc')"
  shows "step_ok h l ord A B (NullTest w t) h' l' pc'"
proof -
  obtain p where p: "0 < p" "t = ord ! p" "passed h ord w p" "dat h t = want w \<or> A" using pc by auto
  note pl = passed_nth [OF p(3)]
  have ld: "ld h t = Inr \<lparr>data = dat h t, nxt = nx h t\<rparr>" using list_ok_ld [OF ok pl] p(2) by simp
  have e: "h' = h" "l' = l" using r ld by (auto split: if_splits)
  show ?thesis
  proof (cases "nx h t = 0 \<or> dat h t \<noteq> want w")
    case True
    then have "pc' = Removed (want w) False" using r ld by auto
    moreover have "A \<or> loose h ord (Removed (want w) False)"
      using True p passed_unlinked [OF p(3,1)] by (auto simp: loose_def)
    ultimately show ?thesis unfolding e by (auto intro!: step_stay [OF ok])
  next
    case False
    then have "pc' = ReadSucc w t" using r ld by auto
    then show ?thesis using p False pl unfolding e
      by (auto intro!: step_stay [OF ok] exI [of _ p] simp: passed_def)
  qed
qed

lemma step_succ:
  assumes ok: "list_ok h l ord" and pc: "lpc_ok h ord A B (ReadSucc w t)"
    and r: "advance h l (ReadSucc w t) = (h', l', pc')"
  shows "step_ok h l ord A B (ReadSucc w t) h' l' pc'"
proof -
  obtain p where p: "0 < p" "t = ord ! p" "p < length ord" "want w \<noteq> 0" "dat h t = want w" "nx h t \<noteq> 0"
    using pc by auto
  have ld: "ld h t = Inr \<lparr>data = dat h t, nxt = nx h t\<rparr>" using list_ok_ld [OF ok p(3)] p(2) by simp
  have e: "h' = h" "l' = l" using r ld by (auto split: if_splits)
  show ?thesis
  proof (cases "get_mark (nx h t) = 0")
    case True
    then have "pc' = MarkCas w t (nx h t)" using r ld by auto
    then show ?thesis using p True unfolding e by (auto intro!: step_stay [OF ok])
  next
    case False
    then have "pc' = ReadNext (w\<lparr>lft_next := 0\<rparr>) (head l)" using r ld by auto
    then show ?thesis using restart [OF ok, of "w\<lparr>lft_next := 0\<rparr>"] p(4) unfolding e
      by (auto intro!: step_stay [OF ok] simp del: lpc_ok.simps)
  qed
qed

lemma step_cas:
  assumes ok: "list_ok h l ord" and pc: "lpc_ok h ord A B (MarkCas w t x)"
    and r: "advance h l (MarkCas w t x) = (h', l', pc')"
  shows "step_ok h l ord A B (MarkCas w t x) h' l' pc'"
proof -
  obtain p where p: "0 < p" "t = ord ! p" "p < length ord" "want w \<noteq> 0" "dat h t = want w" "x \<noteq> 0"
      "get_mark x = 0"
    using pc by auto
  have ld: "ld h t = Inr \<lparr>data = dat h t, nxt = nx h t\<rparr>" using list_ok_ld [OF ok p(3)] p(2) by simp
  show ?thesis
  proof (cases "nx h t = x")
    case False
    then have "pc' = ReadNext (w\<lparr>lft_next := 0\<rparr>) (head l)" "h' = h" "l' = l" using r ld by auto
    then show ?thesis using restart [OF ok, of "w\<lparr>lft_next := 0\<rparr>"] p(4)
      by (auto intro!: step_stay [OF ok] simp del: lpc_ok.simps)
  next
    case True
    have e: "pc' = CountDown (want w)" "h' = set_nx h (ord ! p) (set_mark x)" "l' = l"
      using r ld True p(2) by auto
    have um: "\<not> marked h (ord ! p)" using True p(2,7) by (simp add: marked_def)
    obtain j where j: "p < j" "j < length ord" "nx h (ord ! p) = link False (ord ! j)"
        "\<And>k. p < k \<Longrightarrow> k < j \<Longrightarrow> marked h (ord ! k)"
      using next_cases [OF ok p(3)] True p(2,6) um by (metis (full_types))
    then have "set_mark x = link True (ord ! j)" using True p(2) by (simp add: link_def)
    from write_next [OF ok j(1,2) this j(4)] p(1)
    have W: "list_ok h' l ord" "grows h ord h' ord" "get_mark (set_mark x) \<noteq> 0" by (simp_all add: e(2))
    obtain us vs where "lfl_values h ord = us @ want w # vs" "lfl_values h' ord = us @ vs"
      using values_mark [OF ok p(1,3) um W(3)] p(2,5) by (auto simp: e(2))
    then show ?thesis using W(1,2) True p(2,6) unfolding step_ok_def e(1,3)
      by (auto simp: e(2))
  qed
qed

lemma step_link:
  assumes ok: "list_ok h l ord" and pc: "lpc_ok h ord A B (Link old a)"
    and r: "advance h l (Link old a) = (h', l', pc')"
  shows "step_ok h l ord A B (Link old a) h' l' pc'"
proof -
  obtain i where i: "Suc i < length ord" "old = ord ! i" "a = ord ! Suc i" "nx h old = 0" using pc by auto
  have il: "i < length ord" using i(1) by simp
  have e: "pc' = CountUp" "h' = set_nx h (ord ! i) a" "l' = l" using r list_ok_ld [OF ok il] i(2) by auto
  have "a = link False (ord ! Suc i)" by (simp add: i(3) link_def)
  from write_next [OF ok lessI i(1) this] i(2,4)
  have W: "list_ok h' l ord" "grows h ord h' ord" "a \<noteq> 0" "get_mark a = 0" by (auto simp: e(2) marked_def)
  have "lfl_values h' ord = lfl_values h ord" using W(4) by (intro values_same [OF W(2)]) (auto simp: e(2) split: if_splits)
  then show ?thesis using W(1-3) i(2) unfolding step_ok_def e(1,3) by (auto simp: e(2))
qed

lemma advance_ok:
  assumes ok: "list_ok h l ord" and pc: "lpc_ok h ord A B pc" and "pc \<noteq> Rest"
    and r: "advance h l pc = (h', l', pc')"
  shows "step_ok h l ord A B pc h' l' pc'"
proof -
  have cnt: "list_ok h (l\<lparr>cnt := n\<rparr>) ord" for n using ok by (simp add: list_ok_def)
  show ?thesis
    using assms
  proof (cases pc)
    case CountUp
    then show ?thesis using r ok cnt by (auto simp: step_ok_def)
  next
    case (CountDown d)
    then show ?thesis using r ok cnt by (auto simp: step_ok_def)
  next
    case (Found d t)
    then show ?thesis using r ok by (auto intro!: step_stay)
  next
    case (Removed d b)
    then show ?thesis using r ok by (auto intro!: step_stay)
  next
    case (Crash x)
    then show ?thesis using r pc ok by (auto intro!: step_stay)
  qed (use step_read [OF ok] step_tail [OF ok] step_leave [OF ok] step_mark [OF ok] step_null [OF ok]
      step_succ [OF ok] step_cas [OF ok] step_link [OF ok]
      in \<open>auto simp del: lpc_ok.simps advance.simps(2,4-7,9-11)\<close>)
qed

end
