(* ===== verification/LFList_Runs.thy ===== *)
theory LFList_Runs
  imports LFList_Conc
begin

text \<open>
  What the interleaved list of \<open>LFList_Conc\<close> does over whole runs: the invariant, the values it
  holds, the list it leaves when all calls have returned, and what becomes of a search while an
  appender is half way.
\<close>

section \<open>Every step of the system keeps the invariant\<close>

lemma sum_list_move:
  fixes xs :: "'a :: ab_group_add list"
  shows "t < length xs \<Longrightarrow> sum_list (xs[t := x]) = sum_list xs - xs ! t + x"
proof (induction xs arbitrary: t)
  case (Cons y ys)
  then show ?case by (cases t) (auto simp: algebra_simps)
qed simp

lemma balance:
  fixes a :: "'a :: ab_group_add"
  assumes "a + s = n" "s' = s - d + d'" "c + d' + n = a + d + n'"
  shows "c + s' = n'"
proof -
  have "(c + s') + (a + d) = (c + d' + n)" using assms(1,2) by (auto simp: algebra_simps)
  also have "\<dots> = n' + (a + d)" using assms(3) by (simp add: algebra_simps)
  finally show ?thesis by simp
qed

text \<open>
  One thread moves from \<open>pc\<close> to \<open>pc'\<close>, and the shared state and the history variable with it.
\<close>

lemma inv_move:
  assumes inv: "lfl_inv s" and t: "t < length (lpcs s)"
    and S: "heap s' = h'" "lst s' = l'" "order s' = ord'" "lpcs s' = (lpcs s)[t := pc']"
    and ok: "list_ok h' l' ord'" and g: "grows (heap s) (order s) h' ord'"
    and pc': "lpc_ok h' ord' (absent s' t) (unlinked s' t) pc'"
    and A: "\<And>u. lpcs s ! u \<noteq> Rest \<Longrightarrow> absent s u \<Longrightarrow> absent s' u"
    and B: "\<And>u. lpcs s ! u \<noteq> Rest \<Longrightarrow> unlinked s u \<Longrightarrow> unlinked s' u"
    and others: "\<And>u old a. u < length (lpcs s) \<Longrightarrow> u \<noteq> t \<Longrightarrow> lpcs s ! u = Link old a \<Longrightarrow> nx h' old = nx (heap s) old"
    and links: "links_ok h' ord' ((lpcs s)[t := pc'])"
    and c: "cnt l' + debt pc' + of_nat (length (lfl_values (heap s) (order s))) =
      cnt (lst s) + debt (lpcs s ! t) + of_nat (length (lfl_values h' ord'))"
  shows "lfl_inv s'"
proof -
  note I = inv [unfolded lfl_inv_def]
  have ne: "order s \<noteq> []" using I by (simp add: list_ok_def)
  have "lpc_ok h' ord' (absent s' u) (unlinked s' u) ((lpcs s)[t := pc'] ! u)" if u: "u < length (lpcs s)" for u
  proof (cases "u = t")
    case True
    then show ?thesis using pc' u by simp
  next
    case False
    show ?thesis
    proof (cases "lpcs s ! u = Rest")
      case True
      then show ?thesis using False by simp
    next
      case run: False
      have "lpc_ok h' ord' (absent s' u) (unlinked s' u) (lpcs s ! u)"
        using I u A [OF run] B [OF run] by (intro lpc_ok_grows [OF g ne, of "absent s u" _ "unlinked s u"] others [OF u False]) auto
      then show ?thesis using False by simp
    qed
  qed
  moreover have "count_ok h' l' ord' ((lpcs s)[t := pc'])"
  proof -
    have "cnt (lst s) + sum_list (map debt (lpcs s)) = of_nat (length (lfl_values (heap s) (order s)))"
      using I by (simp add: count_ok_def)
    moreover have "sum_list (map debt ((lpcs s)[t := pc'])) =
        sum_list (map debt (lpcs s)) - debt (lpcs s ! t) + debt pc'"
      using t by (simp add: map_update sum_list_move)
    ultimately show ?thesis unfolding count_ok_def using c by (rule balance)
  qed
  ultimately show ?thesis using ok links by (simp add: lfl_inv_def S)
qed

lemma links_move:
  assumes l: "links_ok h ord pcs" and g: "grows h ord h' ord" and t: "t < length pcs"
    and pc': "\<And>a b. pc' \<noteq> Link a b" and linked: "\<And>a b. pcs ! t = Link a b \<Longrightarrow> nx h' a \<noteq> 0"
  shows "links_ok h' ord (pcs[t := pc'])"
proof -
  have "Link (ord ! i) (ord ! Suc i) \<in> set (pcs[t := pc'])" if i: "Suc i < length ord" "nx h' (ord ! i) = 0" for i
  proof -
    have "nx h (ord ! i) = 0" using growsD(5) [OF g, of i] i by auto
    then have "Link (ord ! i) (ord ! Suc i) \<in> set pcs" using l i(1) by (simp add: links_ok_def)
    then obtain u where u: "u < length pcs" "pcs ! u = Link (ord ! i) (ord ! Suc i)" by (auto simp: in_set_conv_nth)
    then have "u \<noteq> t" using linked i(2) by auto
    then have "pcs[t := pc'] ! u = Link (ord ! i) (ord ! Suc i)" using u by simp
    then show ?thesis using u(1) by (metis length_list_update nth_mem)
  qed
  moreover have "u = u'" if "u < length pcs" "u' < length pcs" "pcs[t := pc'] ! u = Link old a"
    "pcs[t := pc'] ! u' = Link old b" for u u' old a b
  proof -
    have "u \<noteq> t" "u' \<noteq> t" using that pc' t by auto
    then show ?thesis using that l unfolding links_ok_def by (metis nth_list_update_neq)
  qed
  ultimately show ?thesis unfolding links_ok_def length_list_update by blast
qed

lemma links_append:
  assumes ok: "list_ok h l ord" and l: "links_ok h ord pcs" and t: "t < length pcs" "pcs ! t = Rest"
    and a: "a \<notin> set ord" and same: "\<And>b. b \<noteq> a \<Longrightarrow> nx h' b = nx h b"
    and pcs: "\<And>u. u < length pcs \<Longrightarrow> lpc_ok h ord (A u) (B u) (pcs ! u)"
  shows "links_ok h' (ord @ [a]) (pcs[t := Link (tail l) a])"
proof -
  let ?n = "length ord - 1"
  have n: "?n < length ord" "tail l = ord ! ?n" using ok list_ok_last(1) [OF ok] by (simp_all add: list_ok_def)
  have one: "Link ((ord @ [a]) ! i) ((ord @ [a]) ! Suc i) \<in> set (pcs[t := Link (tail l) a])"
    if i: "Suc i < length (ord @ [a])" "nx h' ((ord @ [a]) ! i) = 0" for i
  proof (cases "Suc i < length ord")
    case False
    then have "i = ?n" "Suc i = length ord" using i n(1) by auto
    then show ?thesis using n t(1) by (simp add: nth_append set_update_memI)
  next
    case True
    then have oi: "(ord @ [a]) ! i = ord ! i" "(ord @ [a]) ! Suc i = ord ! Suc i" "ord ! i \<noteq> a"
      using a nth_mem [of i ord] by (auto simp: nth_append)
    then have "nx h (ord ! i) = 0" using i(2) same by simp
    then have "Link (ord ! i) (ord ! Suc i) \<in> set pcs" using l True by (simp add: links_ok_def)
    then obtain u where u: "u < length pcs" "pcs ! u = Link (ord ! i) (ord ! Suc i)" by (auto simp: in_set_conv_nth)
    then have "u \<noteq> t" using t(2) by auto
    then have "pcs[t := Link (tail l) a] ! u = Link (ord ! i) (ord ! Suc i)" using u by simp
    then show ?thesis unfolding oi using u(1) by (metis length_list_update nth_mem)
  qed
  have no: False if u: "u < length pcs" "pcs ! u = Link (tail l) b" for u b
  proof -
    obtain i where "Suc i < length ord" "tail l = ord ! i" using pcs [OF u(1)] u(2) by auto
    then show False using n list_ok_eq [OF ok n(1), of i] by simp
  qed
  have "u = u'" if "u < length pcs" "u' < length pcs" "pcs[t := Link (tail l) a] ! u = Link old b"
    "pcs[t := Link (tail l) a] ! u' = Link old c" for u u' old b c
  proof (cases "u = t \<or> u' = t")
    case True
    then show ?thesis using that no t(1) by (metis lpc.inject(1) nth_list_update_eq nth_list_update_neq)
  next
    case False
    then show ?thesis using that l unfolding links_ok_def by (metis nth_list_update_neq)
  qed
  then show ?thesis unfolding links_ok_def length_list_update using one by blast
qed

lemma watch_simps [simp]:
  "heap (watch s s') = heap s'" "lst (watch s s') = lst s'" "lpcs (watch s s') = lpcs s'"
  "order (watch s s') = order s'"
  by (simp_all add: watch_def)

lemma absent_watch:
  "absent (watch s s') t \<longleftrightarrow> (lpcs s ! t \<noteq> Rest \<and> absent s t) \<or> gone (heap s') (order s') (lpcs s' ! t)"
  "unlinked (watch s s') t \<longleftrightarrow> (lpcs s ! t \<noteq> Rest \<and> unlinked s t) \<or> loose (heap s') (order s') (lpcs s' ! t)"
  by (simp_all add: watch_def)

text \<open>What a step does to the values held.\<close>

definition values_step :: "lfl_sys \<Rightarrow> lfl_sys \<Rightarrow> bool" where
  "values_step s s' \<longleftrightarrow>
     lfl_values (heap s') (order s') = lfl_values (heap s) (order s) \<or>
     (\<exists>t v. t < length (lpcs s) \<and> lpcs s ! t = Rest \<and> lpcs s' ! t = Link (tail (lst s)) (tail (lst s')) \<and>
        lfl_values (heap s') (order s') = lfl_values (heap s) (order s) @ [v] \<and> dat (heap s') (tail (lst s')) = v) \<or>
     (\<exists>t d us vs. t < length (lpcs s) \<and> lpcs s ! t \<noteq> CountDown d \<and> lpcs s' ! t = CountDown d \<and>
        lfl_values (heap s) (order s) = us @ d # vs \<and> lfl_values (heap s') (order s') = us @ vs)"

lemma lfl_step_inv:
  assumes inv: "lfl_inv s" and st: "lfl_step s s'"
  shows "lfl_inv s' \<and> values_step s s'"
proof -
  note I = inv [unfolded lfl_inv_def]
  have ok: "list_ok (heap s) (lst s) (order s)" and lk: "links_ok (heap s) (order s) (lpcs s)" using I by auto
  have pcs: "lpc_ok (heap s) (order s) (absent s u) (unlinked s u) (lpcs s ! u)" if "u < length (lpcs s)" for u
    using I that by blast
  from st show ?thesis
  proof cases
    case (call_append t a v)
    let ?h = "(heap s)(a \<mapsto> \<lparr>data = v, nxt = 0\<rparr>)"
    note N = add_node [OF ok call_append(4-6) refl, of v]
    have fresh: "a \<notin> set (order s)" using ok call_append(6) by (auto simp: list_ok_def)
    let ?n = "length (order s) - 1"
    have n: "?n < length (order s)" "tail (lst s) = order s ! ?n" "nx (heap s) (tail (lst s)) = 0"
      using ok list_ok_last [OF ok] by (simp_all add: list_ok_def)
    have ne: "tail (lst s) \<noteq> a" using n(1,2) fresh nth_mem by force
    have pc': "lpc_ok ?h (order s @ [a]) X Y (Link (tail (lst s)) a)" for X Y
      using n ne by (auto simp: nth_append intro!: exI [of _ ?n])
    have "lfl_inv s'"
      by (rule inv_move [OF inv call_append(2) _ _ _ _ N(1,2) pc'])
         (use links_append [OF ok lk call_append(2,3) fresh _ pcs, of ?h] N(3) call_append pcs fresh
          in \<open>auto simp: absent_watch nth_append nx_def\<close>)
    moreover have "values_step s s'"
      unfolding values_step_def using call_append(1-3) N(3) by (auto intro!: exI [of _ t])
    ultimately show ?thesis ..
  next
    case (call_search t w r d)
    have pc': "lpc_ok (heap s) (order s) X Y (ReadNext w (head (lst s)))" for X Y
    proof (cases "d = 0")
      case True
      then show ?thesis using call_search(4) list_ok_head [OF ok] by (simp add: stuck_at_head_def)
    next
      case False
      then show ?thesis using call_search(4) by (intro restart [OF ok]) simp
    qed
    have "lfl_inv s'"
      by (rule inv_move [OF inv call_search(2) _ _ _ _ ok grows_refl pc'])
         (use links_move [OF lk grows_refl call_search(2)] call_search in \<open>auto simp: absent_watch\<close>)
    then show ?thesis using call_search(1) by (simp add: values_step_def)
  next
    case (thread_step t h l pc)
    have S: "step_ok (heap s) (lst s) (order s) (absent s t) (unlinked s t) (lpcs s ! t) h l pc"
      by (rule advance_ok [OF ok pcs [OF thread_step(2)] thread_step(3,4)])
    note D = S [unfolded step_ok_def]
    have "lfl_inv s'"
    proof (rule inv_move [OF inv thread_step(2), of s' h l "order s" pc])
      show "lpc_ok h (order s) (absent s' t) (unlinked s' t) pc"
        using D thread_step(1-3) by (simp add: absent_watch)
      fix u old a assume u: "u < length (lpcs s)" "u \<noteq> t" "lpcs s ! u = Link old a"
      have z: "nx (heap s) old = 0" using pcs [OF u(1)] u(3) by auto
      have "\<not> (\<exists>b. lpcs s ! t = Link old b)"
        using lk u thread_step(2) unfolding links_ok_def by blast
      then show "nx h old = nx (heap s) old" using D z by auto
    qed (use D thread_step links_move [OF lk _ thread_step(2), of h pc] in \<open>auto simp: absent_watch\<close>)
    moreover have "values_step s s'"
    proof (cases "\<exists>d. lpcs s ! t = CountDown d")
      case True
      then show ?thesis using thread_step(1,4) by (auto simp: values_step_def)
    next
      case False
      then show ?thesis using D thread_step(1,2) unfolding values_step_def by fastforce
    qed
    ultimately show ?thesis ..
  qed
qed

lemma lfl_start_inv:
  assumes "lfl_start s"
  shows "lfl_inv s"
proof -
  obtain a n where a: "a \<noteq> 0" "is_ref a" "heap s = [a \<mapsto> \<lparr>data = 0, nxt = 0\<rparr>]"
      "lst s = \<lparr>head = a, tail = a, cnt = 0\<rparr>" "order s = [a]" "lpcs s = replicate n Rest"
    using assms by (auto simp: lfl_start_def new_lflist_def)
  have "sum_list (map debt (replicate n Rest)) = 0" by (simp add: map_replicate sum_list_replicate)
  then show ?thesis
    using a by (auto simp: lfl_inv_def list_ok_def next_ok_def links_ok_def count_ok_def lfl_values_def)
qed

interpretation lfl_runs: invariant_system lfl_start lfl_step "\<lambda>_. True" "\<lambda>_. lfl_inv"
  by unfold_locales (auto intro: lfl_start_inv dest: lfl_step_inv)

section \<open>A list at rest\<close>

text \<open>When every node is linked, the nodes that can be reached from one of them form a list.\<close>

abbreviation item :: "lfl_heap \<Rightarrow> u64 \<Rightarrow> lfl_item" where
  "item h a \<equiv> (a, dat h a, marked h a)"

lemma chain:
  assumes ok: "list_ok h l ord" and all: "\<And>i. Suc i < length ord \<Longrightarrow> nx h (ord ! i) \<noteq> 0"
    and "i < length ord"
  shows "\<exists>as. as \<noteq> [] \<and> hd as = ord ! i \<and> last as = last ord \<and> linked h (map (item h) as) 0 \<and> distinct as \<and>
    set as \<subseteq> set (drop i ord) \<and> filter (\<lambda>a. \<not> marked h a) as = filter (\<lambda>a. \<not> marked h a) (drop i ord)"
  using assms(3)
proof (induction "length ord - i" arbitrary: i rule: less_induct)
  case less
  note node = list_okD(3) [OF ok less.prems]
  have drop: "drop i ord = ord ! i # drop (Suc i) ord" using less.prems by (simp add: Cons_nth_drop_Suc)
  show ?case
  proof (rule next_cases [OF ok less.prems])
    assume z: "nx h (ord ! i) = 0"
    then have "Suc i = length ord" using all [of i] less.prems by (meson Suc_lessI)
    then have "last ord = ord ! i" "drop i ord = [ord ! i]"
      using less.prems drop by (auto simp: last_conv_nth) (metis diff_Suc_1 last_conv_nth list.size(3) nat.distinct(1))
    then show ?thesis using node z
      by (intro exI [of _ "[ord ! i]"]) (auto simp: addr_def val_def removed_def link_def marked_def)
  next
    fix j assume j: "i < j" "j < length ord" "nx h (ord ! i) = link (marked h (ord ! i)) (ord ! j)"
      "\<And>k. i < k \<Longrightarrow> k < j \<Longrightarrow> marked h (ord ! k)"
    have "length ord - j < length ord - i" using j(1,2) by simp
    then obtain as where as: "as \<noteq> []" "hd as = ord ! j" "last as = last ord" "linked h (map (item h) as) 0"
      "distinct as" "set as \<subseteq> set (drop j ord)"
      "filter (\<lambda>a. \<not> marked h a) as = filter (\<lambda>a. \<not> marked h a) (drop j ord)"
      using less.hyps j(2) by blast
    have "first_addr (map (item h) as) = ord ! j"
      using as(1,2) by (cases as) (auto simp: addr_def)
    then have lk: "linked h (map (item h) (ord ! i # as)) 0"
      using node j(3) as(1,4) by (simp add: addr_def val_def removed_def)
    have sub: "set (drop j ord) \<subseteq> set (drop (Suc i) ord)" using j(1) by (intro set_drop_subset_set_drop) simp
    have "distinct (drop i ord)" using ok by (simp add: list_ok_def distinct_drop)
    then have "ord ! i \<notin> set as" using drop as(6) sub by auto
    moreover have "filter (\<lambda>a. \<not> marked h a) (drop (Suc i) ord) = filter (\<lambda>a. \<not> marked h a) (drop j ord)"
    proof -
      have "drop (Suc i) ord = take (j - Suc i) (drop (Suc i) ord) @ drop j ord"
        using append_take_drop_id [of "j - Suc i" "drop (Suc i) ord"] j(1) by simp
      moreover have "filter (\<lambda>a. \<not> marked h a) (take (j - Suc i) (drop (Suc i) ord)) = []"
        using j by (auto simp: filter_empty_conv in_set_conv_nth)
      ultimately show ?thesis by (metis append_Nil filter_append)
    qed
    ultimately show ?thesis
      using as lk sub drop by (intro exI [of _ "ord ! i # as"]) auto
  qed
qed

lemma at_rest:
  assumes inv: "lfl_inv s" and rest: "\<forall>t < length (lpcs s). lpcs s ! t = Rest"
  shows "\<exists>ns. lfl (heap s) (lst s) ns \<and> live ns = lfl_values (heap s) (order s) \<and>
    cnt (lst s) = of_nat (length (live ns))"
proof -
  let ?h = "heap s" and ?ord = "order s"
  note I = inv [unfolded lfl_inv_def]
  have ok: "list_ok ?h (lst s) ?ord" using I by blast
  obtain n where pcs: "lpcs s = replicate n Rest"
    using rest replicate_eqI [of "lpcs s" _ Rest] by (metis in_set_conv_nth)
  have all: "nx ?h (?ord ! i) \<noteq> 0" if "Suc i < length ?ord" for i
  proof
    assume "nx ?h (?ord ! i) = 0"
    then have "Link (?ord ! i) (?ord ! Suc i) \<in> set (lpcs s)" using I that by (simp add: links_ok_def)
    then show False using rest by (auto simp: in_set_conv_nth)
  qed
  have h0: "0 < length ?ord" "head (lst s) = ?ord ! 0" "\<not> marked ?h (?ord ! 0)" "dat ?h (?ord ! 0) = 0"
    using list_ok_head [OF ok] by auto
  obtain as where as: "as \<noteq> []" "hd as = ?ord ! 0" "last as = last ?ord" "linked ?h (map (item ?h) as) 0"
    "distinct as" "set as \<subseteq> set ?ord" "filter (\<lambda>a. \<not> marked ?h a) as = filter (\<lambda>a. \<not> marked ?h a) ?ord"
    using chain [OF ok all h0(1)] by auto
  obtain as' where as': "as = ?ord ! 0 # as'" using as(1,2) by (cases as) auto
  obtain ord' where ord': "?ord = ?ord ! 0 # ord'" using h0(1) by (cases ?ord) auto
  let ?ns = "map (item ?h) as"
  have addrs: "map addr ?ns = as" by (simp add: addr_def comp_def)
  have z: "nx ?h (last ?ord) = 0" using list_ok_last(2) [OF ok] h0(1) by (simp add: last_conv_nth)
  have "hd ?ns = item ?h (?ord ! 0)" "last ?ns = item ?h (last ?ord)"
    using as(1-3) by (simp_all add: hd_map last_map)
  moreover have "\<forall>x \<in> set ?ns. is_ref (addr x) \<and> addr x \<noteq> 0"
    using ok as(6) by (auto simp: list_ok_def addr_def)
  moreover have "tail (lst s) = last ?ord" "\<not> marked ?h (last ?ord)"
    using ok z by (simp_all add: list_ok_def marked_def)
  ultimately have "lfl ?h (lst s) ?ns"
    unfolding lfl_def addrs_ok_def addrs using as(1,4,5) h0(2-4)
    by (simp add: addr_def val_def removed_def)
  moreover have "filter (\<lambda>a. \<not> marked ?h a) as' = filter (\<lambda>a. \<not> marked ?h a) (tl ?ord)"
  proof -
    have "filter (\<lambda>a. \<not> marked ?h a) as = ?ord ! 0 # filter (\<lambda>a. \<not> marked ?h a) as'"
      using h0(3) by (simp add: as')
    moreover have "filter (\<lambda>a. \<not> marked ?h a) ?ord = ?ord ! 0 # filter (\<lambda>a. \<not> marked ?h a) (tl ?ord)"
      using h0(3) by (subst ord', subst filter.simps(2)) (metis list.sel(3) ord')
    ultimately show ?thesis using as(7) by simp
  qed
  then have "live ?ns = lfl_values ?h ?ord"
    unfolding live_def lfl_values_def as' by (simp add: filter_map comp_def removed_def val_def)
  moreover have "sum_list (map debt (lpcs s)) = 0"
    by (simp add: pcs sum_list_replicate)
  then have "cnt (lst s) = of_nat (length (lfl_values ?h ?ord))" using I by (simp add: count_ok_def)
  ultimately show ?thesis by (intro exI [of _ ?ns] conjI) simp_all
qed

section \<open>An appender that stops half way\<close>

lemma lfl_step_grows:
  assumes inv: "lfl_inv s" and st: "lfl_step s s'"
  shows "grows (heap s) (order s) (heap s') (order s')" "length (lpcs s') = length (lpcs s)"
proof -
  have ok: "list_ok (heap s) (lst s) (order s)" using inv by (simp add: lfl_inv_def)
  have pcs: "lpc_ok (heap s) (order s) (absent s u) (unlinked s u) (lpcs s ! u)" if "u < length (lpcs s)" for u
    using inv that by (simp add: lfl_inv_def)
  from st have "grows (heap s) (order s) (heap s') (order s') \<and> length (lpcs s') = length (lpcs s)"
  proof cases
    case (call_append t a v)
    then show ?thesis using add_node(2) [OF ok call_append(4-6) refl, of v] by simp
  next
    case (thread_step t h l pc)
    then show ?thesis using advance_ok [OF ok pcs [OF thread_step(2)] thread_step(3,4)] by (simp add: step_ok_def)
  qed simp
  then show "grows (heap s) (order s) (heap s') (order s')" "length (lpcs s') = length (lpcs s)" by simp_all
qed

text \<open>
  Thread \<open>u\<close> has exchanged the tail and not yet linked its node behind node \<open>i\<close>; thread \<open>t\<close>
  searches at node \<open>i\<close> or before, where there is no \<open>d\<close>.
\<close>

definition stalled :: "lfl_sys \<Rightarrow> nat \<Rightarrow> nat \<Rightarrow> bool" where
  "stalled s u i \<longleftrightarrow> u < length (lpcs s) \<and> Suc i < length (order s) \<and>
     lpcs s ! u = Link (order s ! i) (order s ! Suc i)"

definition short_of :: "lfl_sys \<Rightarrow> nat \<Rightarrow> u64 \<Rightarrow> nat \<Rightarrow> bool" where
  "short_of s t d i \<longleftrightarrow> t < length (lpcs s) \<and> (\<forall>k \<le> i. dat (heap s) (order s ! k) \<noteq> d) \<and>
     (\<exists>w. want w = d \<and> (lpcs s ! t = TailTest w 0 \<or>
        (\<exists>p \<le> i. lpcs s ! t = ReadNext w (order s ! p) \<or> lpcs s ! t = TailTest w (order s ! p))))"

lemma stalled_null:
  assumes inv: "lfl_inv s" and st: "stalled s u i"
  shows "nx (heap s) (order s ! i) = 0"
proof -
  have u: "u < length (lpcs s)" "lpcs s ! u = Link (order s ! i) (order s ! Suc i)"
    using st by (simp_all add: stalled_def)
  have "lpc_ok (heap s) (order s) (absent s u) (unlinked s u) (lpcs s ! u)" using inv u(1) by (simp add: lfl_inv_def)
  then show ?thesis using u(2) by auto
qed

text \<open>One access of the searching thread.\<close>

lemma short_advance:
  assumes ok: "list_ok h l ord" and i: "Suc i < length ord" and z: "nx h (ord ! i) = 0"
    and d: "\<forall>k \<le> i. dat h (ord ! k) \<noteq> want w"
    and pc: "pc = TailTest w 0 \<or> (\<exists>p \<le> i. pc = ReadNext w (ord ! p) \<or> pc = TailTest w (ord ! p))"
    and r: "advance h l pc = (h', l', pc')"
  shows "\<exists>w'. want w' = want w \<and> (pc' = TailTest w' 0 \<or>
    (\<exists>p \<le> i. pc' = ReadNext w' (ord ! p) \<or> pc' = TailTest w' (ord ! p)))"
proof -
  have hd: "head l = ord ! 0" using list_ok_head [OF ok] by simp
  consider "pc = TailTest w 0" | p where "p \<le> i" "pc = ReadNext w (ord ! p)" | p where "p \<le> i" "pc = TailTest w (ord ! p)"
    using pc by blast
  then show ?thesis
  proof cases
    case 1
    then show ?thesis using r hd by (auto intro!: exI [of _ w])
  next
    case (2 p)
    have pl: "p < length ord" using 2(1) i by simp
    have D: "dat h (ord ! p) \<noteq> want w" using d 2(1) by simp
    obtain w' where w': "want w' = want w" "pc' = TailTest w' (get_ref (nx h (ord ! p)))"
    proof
      show "want (if marked h (ord ! p) then w else w\<lparr>lft := ord ! p, lft_next := nx h (ord ! p)\<rparr>) = want w" by simp
      show "pc' = TailTest (if marked h (ord ! p) then w else w\<lparr>lft := ord ! p, lft_next := nx h (ord ! p)\<rparr>)
          (get_ref (nx h (ord ! p)))"
        using r 2(2) D list_ok_ld [OF ok pl] by (auto simp: marked_def)
    qed
    show ?thesis
    proof (rule next_cases [OF ok pl])
      assume "nx h (ord ! p) = 0"
      then show ?thesis using w' by (auto simp: get_ref_ref)
    next
      fix j assume j: "p < j" "j < length ord" "nx h (ord ! p) = link (marked h (ord ! p)) (ord ! j)"
        "\<And>k. p < k \<Longrightarrow> k < j \<Longrightarrow> marked h (ord ! k)" "get_ref (nx h (ord ! p)) = ord ! j"
      have "p \<noteq> i" using z j(3) list_okD(1,2) [OF ok j(2)] get_ref_ref [of 0] j(5) by auto
      then have "j \<le> i" using j(4) [of i] 2(1) z by (auto simp: marked_def not_less intro: leI)
      then show ?thesis using w' j(5) by auto
    qed
  next
    case (3 p)
    have pl: "p < length ord" using 3(1) i by simp
    have "ord ! p \<noteq> tail l"
      using list_ok_last(1) [OF ok] list_ok_eq [OF ok pl, of "length ord - 1"] 3(1) i by simp
    then have "pc' = ReadNext w (ord ! p)" using r 3(2) list_okD(2) [OF ok pl] by auto
    then show ?thesis using 3(1) by blast
  qed
qed

lemma stalled_step:
  assumes inv: "lfl_inv s" and st: "lfl_step s s'" and u: "stalled s u i" "lpcs s' ! u = lpcs s ! u"
    and t: "short_of s t d i"
  shows "lfl_inv s' \<and> stalled s' u i \<and> short_of s' t d i"
proof -
  have inv': "lfl_inv s'" using lfl_step_inv [OF inv st] by blast
  note g = lfl_step_grows [OF inv st]
  have il: "Suc i < length (order s)" using u(1) by (simp add: stalled_def)
  have ok: "list_ok (heap s) (lst s) (order s)" using inv by (simp add: lfl_inv_def)
  have same: "order s' ! k = order s ! k" "dat (heap s') (order s ! k) = dat (heap s) (order s ! k)"
    if "k \<le> Suc i" for k
    using growsD(2,3) [OF g(1), of k] that il by simp_all
  have "stalled s' u i"
    using u same [of i] same [of "Suc i"] growsD(1) [OF g(1) il] g(2) by (simp add: stalled_def)
  obtain w where w: "want w = d" "lpcs s ! t = TailTest w 0 \<or>
      (\<exists>p \<le> i. lpcs s ! t = ReadNext w (order s ! p) \<or> lpcs s ! t = TailTest w (order s ! p))"
    and tl: "t < length (lpcs s)" and d: "\<forall>k \<le> i. dat (heap s) (order s ! k) \<noteq> d"
    using t by (auto simp: short_of_def)
  have "lpcs s ! t \<noteq> Rest" using w(2) by auto
  from st have "\<exists>w'. want w' = d \<and> (lpcs s' ! t = TailTest w' 0 \<or>
      (\<exists>p \<le> i. lpcs s' ! t = ReadNext w' (order s ! p) \<or> lpcs s' ! t = TailTest w' (order s ! p)))"
  proof cases
    case (call_append t' a v)
    then have "lpcs s' ! t = lpcs s ! t" using \<open>lpcs s ! t \<noteq> Rest\<close> by (cases "t = t'") auto
    then show ?thesis using w by auto
  next
    case (call_search t' w' r d')
    then have "lpcs s' ! t = lpcs s ! t" using \<open>lpcs s ! t \<noteq> Rest\<close> by (cases "t = t'") auto
    then show ?thesis using w by auto
  next
    case (thread_step t' h l pc)
    show ?thesis
    proof (cases "t' = t")
      case True
      then have "lpcs s' ! t = pc" using thread_step(1) tl by simp
      then show ?thesis
        using short_advance [OF ok il stalled_null [OF inv u(1)] _ w(2)] d w(1) thread_step(4) True by auto
    next
      case False
      then show ?thesis using thread_step(1) w by auto
    qed
  qed
  moreover have "order s' ! k = order s ! k" "dat (heap s') (order s' ! k) = dat (heap s) (order s ! k)"
    if "k \<le> i" for k using same [of k] that by simp_all
  ultimately have "short_of s' t d i"
    using tl g(2) d by (simp add: short_of_def cong: conj_cong)
  then show ?thesis using inv' \<open>stalled s' u i\<close> by blast
qed


lemma stalled_forever:
  assumes "lfl_inv s" "stalled s u i" "short_of s t d i"
    and more: "(\<lambda>x y. lfl_step x y \<and> lpcs y ! u = lpcs x ! u)\<^sup>*\<^sup>* s s'"
  shows "short_of s' t d i"
proof -
  from more have "lfl_inv s' \<and> stalled s' u i \<and> short_of s' t d i"
    by (induction) (use assms(1-3) stalled_step in blast)+
  then show ?thesis by blast
qed

section \<open>The list under every interleaving\<close>

text \<open>C28. The interleaved list refines a sequence of values: every step of every thread either leaves the
  values held alone, or adds the value of a new node at the end as an appender exchanges the tail, or
  takes out one value as a remove that looked for it marks its node. No value is lost, doubled
  or taken out twice, whatever the interleaving.\<close>
theorem lflist_steps_refine:
  assumes "reach lfl_start lfl_step n s" "lfl_step s s'"
  shows "values_step s s'"
  using lfl_step_inv [OF lfl_runs.reach_inv [OF assms(1)] assms(2)] by simp

text \<open>C29. Whenever no call is under way, the nodes form a well-formed list as the theorems about
  single calls require it; what it holds is the sequence of values that the steps built up,
  and the counter is its length.\<close>
theorem lflist_at_rest:
  assumes "reach lfl_start lfl_step n s" "\<forall>t < length (lpcs s). lpcs s ! t = Rest"
  shows "\<exists>ns. lfl (heap s) (lst s) ns \<and> live ns = lfl_values (heap s) (order s) \<and>
    cnt (lst s) = of_nat (length (live ns))"
  using at_rest [OF lfl_runs.reach_inv [OF assms(1)] assms(2)] by simp

text \<open>C30. A remove that returns 0 did so for one of two reasons, each true at some moment of its call:
  no node appended and not removed held the value, wherever it stands and whether it is linked
  already or not; or the first node that held the value was there but had no successor, being the
  last or one whose successor's appender is half way. (The second is the defect of the test for
  \<open>not found\<close>: the value is in the list.) A search that returns a node returns one that was appended
  and holds the value, unless at some moment of its call no node did. And a null pointer is dereferenced
  only by a call that looks for 0, the data of the dummy head.\<close>
theorem lflist_miss_justified:
  assumes "reach lfl_start lfl_step n s" "t < length (lpcs s)"
  shows "(lpcs s ! t = Removed d False \<longrightarrow> absent s t \<or> unlinked s t) \<and>
    (lpcs s ! t = Found d a \<longrightarrow> a \<in> set (tl (order s)) \<and> (dat (heap s) a = d \<or> absent s t)) \<and>
    (lpcs s ! t = Crash x \<longrightarrow> x = Some 0)"
proof -
  have "lfl_inv s" using lfl_runs.reach_inv [OF assms(1)] by simp
  then have "lpc_ok (heap s) (order s) (absent s t) (unlinked s t) (lpcs s ! t)" using assms(2) by (simp add: lfl_inv_def)
  then show ?thesis by auto
qed

text \<open>C31. The list is called latch-free, but a search waits for appenders: while one of them has
  exchanged the tail and not yet linked its node behind node \<open>i\<close>, a search for a value that is at
  none of the nodes up to \<open>i\<close> goes round and round, whatever the other threads do.\<close>
theorem lflist_search_waits:
  assumes run: "reach lfl_start lfl_step n s" and u: "stalled s u i"
    and t: "t < length (lpcs s)" "lpcs s ! t = ReadNext w (head (lst s))"
    and d: "\<forall>k \<le> i. dat (heap s) (order s ! k) \<noteq> want w"
    and more: "(\<lambda>x y. lfl_step x y \<and> lpcs y ! u = lpcs x ! u)\<^sup>*\<^sup>* s s'"
  shows "\<exists>w' p. want w' = want w \<and> (lpcs s' ! t = ReadNext w' p \<or> lpcs s' ! t = TailTest w' p)"
proof -
  have inv: "lfl_inv s" using lfl_runs.reach_inv [OF run] by simp
  then have "list_ok (heap s) (lst s) (order s)" by (simp add: lfl_inv_def)
  then have "short_of s t (want w) i"
    unfolding short_of_def using t d list_ok_head by (intro conjI exI [of _ w]) auto
  from stalled_forever [OF inv u this more] show ?thesis by (auto simp: short_of_def)
qed

text \<open>Runs for the witnesses: a thread's access, an append and a search as functions.\<close>

definition run_thread :: "nat \<Rightarrow> lfl_sys \<Rightarrow> lfl_sys" where
  "run_thread t s = watch s (case advance (heap s) (lst s) (lpcs s ! t) of (h, l, pc) \<Rightarrow>
     s\<lparr>heap := h, lst := l, lpcs := (lpcs s)[t := pc]\<rparr>)"

definition run_append :: "nat \<Rightarrow> u64 \<Rightarrow> u64 \<Rightarrow> lfl_sys \<Rightarrow> lfl_sys" where
  "run_append t a v s = watch s (s\<lparr>heap := (heap s)(a \<mapsto> \<lparr>data = v, nxt = 0\<rparr>),
     lst := (lst s)\<lparr>tail := a\<rparr>, lpcs := (lpcs s)[t := Link (tail (lst s)) a], order := order s @ [a]\<rparr>)"

definition run_search :: "nat \<Rightarrow> bool \<Rightarrow> u64 \<Rightarrow> lfl_sys \<Rightarrow> lfl_sys" where
  "run_search t r d s = watch s (s\<lparr>lpcs := (lpcs s)[t :=
     ReadNext \<lparr>removing = r, want = d, lft = 0, lft_next = 0\<rparr> (head (lst s))]\<rparr>)"

lemma reach_run:
  assumes "reach lfl_start lfl_step n s" "t < length (lpcs s)"
  shows "lpcs s ! t \<noteq> Rest \<Longrightarrow> reach lfl_start lfl_step (Suc n) (run_thread t s)"
    "lpcs s ! t = Rest \<Longrightarrow> a \<noteq> 0 \<Longrightarrow> is_ref a \<Longrightarrow> heap s a = None \<Longrightarrow>
       reach lfl_start lfl_step (Suc n) (run_append t a v s)"
    "lpcs s ! t = Rest \<Longrightarrow> reach lfl_start lfl_step (Suc n) (run_search t r d s)"
  unfolding run_thread_def run_append_def run_search_def
  using assms reach_step [OF assms(1) lfl_step.call_search [OF assms(2) _ refl]]
  by (auto intro!: reach_step [OF assms(1)] lfl_step.call_append lfl_step.thread_step split: prod.split)

lemma run_simps [simp]:
  "heap (run_append t a v s) = (heap s)(a \<mapsto> \<lparr>data = v, nxt = 0\<rparr>)"
  "lst (run_append t a v s) = (lst s)\<lparr>tail := a\<rparr>"
  "lpcs (run_append t a v s) = (lpcs s)[t := Link (tail (lst s)) a]"
  "order (run_append t a v s) = order s @ [a]"
  "heap (run_search t r d s) = heap s" "lst (run_search t r d s) = lst s" "order (run_search t r d s) = order s"
  "lpcs (run_search t r d s) = (lpcs s)[t := ReadNext \<lparr>removing = r, want = d, lft = 0, lft_next = 0\<rparr> (head (lst s))]"
  "heap (run_thread t s) = fst (advance (heap s) (lst s) (lpcs s ! t))"
  "lst (run_thread t s) = fst (snd (advance (heap s) (lst s) (lpcs s ! t)))"
  "lpcs (run_thread t s) = (lpcs s)[t := snd (snd (advance (heap s) (lst s) (lpcs s ! t)))]"
  "order (run_thread t s) = order s"
  by (simp_all add: run_append_def run_search_def run_thread_def split: prod.split)

text \<open>Two threads and an empty list; then thread 0 has appended 5, or stops half way.\<close>

definition lflc_start :: lfl_sys where
  "lflc_start = \<lparr>heap = [8 \<mapsto> \<lparr>data = 0, nxt = 0\<rparr>], lst = \<lparr>head = 8, tail = 8, cnt = 0\<rparr>,
     lpcs = [Rest, Rest], order = [8], absent = (\<lambda>_. False), unlinked = (\<lambda>_. False)\<rparr>"

definition lflc_half :: lfl_sys where "lflc_half = run_append 0 16 5 lflc_start"
definition lflc_one :: lfl_sys where "lflc_one = run_thread 0 (run_thread 0 lflc_half)"

lemma lflc_start_reach: "reach lfl_start lfl_step 0 lflc_start"
  by (rule reach_start) (auto simp: lfl_start_def lflc_start_def new_lflist_def is_ref_small
      intro!: exI [of _ "8 :: u64"] exI [of _ "Suc (Suc 0)"])

lemma lflc_half_reach: "reach lfl_start lfl_step 1 lflc_half"
  using reach_run(2) [OF lflc_start_reach, of 0 16 5]
  by (simp add: lflc_half_def lflc_start_def is_ref_small)

lemma lflc_one_reach: "reach lfl_start lfl_step 3 lflc_one"
proof -
  have a: "reach lfl_start lfl_step 2 (run_thread 0 lflc_half)"
    using reach_run(1) [OF lflc_half_reach, of 0] by (simp add: lflc_half_def lflc_start_def numeral_2_eq_2)
  have "reach lfl_start lfl_step (Suc 2) lflc_one"
    unfolding lflc_one_def by (rule reach_run(1) [OF a]) (simp_all add: lflc_half_def lflc_start_def)
  then show ?thesis by (simp add: numeral_3_eq_3 numeral_2_eq_2)
qed

theorem lflist_steps_refine_witness:
  "values_step lflc_start lflc_half \<and> lfl_values (heap lflc_half) (order lflc_half) = [5]"
proof -
  have "lfl_step lflc_start lflc_half"
    unfolding lflc_half_def run_append_def
    by (rule lfl_step.call_append) (simp_all add: lflc_start_def is_ref_small)
  from lflist_steps_refine [OF lflc_start_reach this] show ?thesis
    by (simp add: lfl_values_def lflc_half_def lflc_start_def)
qed

theorem lflist_at_rest_witness:
  "\<exists>ns. lfl (heap lflc_one) (lst lflc_one) ns \<and> live ns = [5] \<and> cnt (lst lflc_one) = 1"
proof -
  have r: "\<forall>t < length (lpcs lflc_one). lpcs lflc_one ! t = Rest"
    by (auto simp: lflc_one_def lflc_half_def lflc_start_def less_Suc_eq)
  have "lfl_values (heap lflc_one) (order lflc_one) = [5]"
    by (simp add: lfl_values_def lflc_one_def lflc_half_def lflc_start_def get_mark_ref)
  with lflist_at_rest [OF lflc_one_reach r] show ?thesis by auto
qed

definition lflc_wait :: lfl_sys where "lflc_wait = run_search 1 False 7 lflc_half"

lemma lflc_wait_reach: "reach lfl_start lfl_step 2 lflc_wait"
  using reach_run(3) [OF lflc_half_reach, of 1 False 7]
  by (simp add: lflc_wait_def lflc_half_def lflc_start_def numeral_2_eq_2)

text \<open>
  A remove on the list that holds 5, up to its return: of 7, which is nowhere, and of 5 itself, whose
  node is the last. Both return 0, for different reasons.
\<close>

lemma lflc_miss:
  assumes "d = 5 \<or> d = 7"
  shows "\<exists>n s. reach lfl_start lfl_step n s \<and> lpcs s = [Rest, Removed d False] \<and>
    (absent s 1 \<longrightarrow> d = 7) \<and> (unlinked s 1 \<longrightarrow> d = 5)"
proof -
  let ?H = "[8 \<mapsto> \<lparr>data = 0, nxt = 16\<rparr>, 16 \<mapsto> \<lparr>data = 5, nxt = 0\<rparr>] :: lfl_heap"
    and ?L = "\<lparr>head = 8, tail = 16, cnt = 1\<rparr> :: lflist"
  let ?w = "\<lparr>removing = True, want = d, lft = 0, lft_next = 0\<rparr>"
  let ?v = "?w\<lparr>lft := 8, lft_next := 16\<rparr>"
  have vals: "lfl_values ?H [8, 16] = [5]" by (simp add: lfl_values_def marked_def nx_def dat_def)
  have first: "d = 5" if "first_unlinked ?H [8, 16] d"
  proof -
    obtain p where p: "p < 2" "0 < p" "dat ?H ([8, 16] ! p) = d" using \<open>first_unlinked ?H [8, 16] d\<close> by (auto simp: first_unlinked_def numeral_2_eq_2)
    then have "p = 1" by linarith
    with p(3) show ?thesis by (simp add: dat_def)
  qed
  have g: "(gone ?H [8, 16] pc \<longrightarrow> d = 7) \<and> (loose ?H [8, 16] pc \<longrightarrow> d = 5)" if "sought pc = Some d" for pc
    using that assms first by (auto simp: gone_def loose_def vals)
  define at where "at n pc s \<longleftrightarrow> reach lfl_start lfl_step n s \<and> heap s = ?H \<and> lst s = ?L \<and> order s = [8, 16] \<and>
    lpcs s = [Rest, pc] \<and> (absent s 1 \<longrightarrow> d = 7) \<and> (unlinked s 1 \<longrightarrow> d = 5)" for n pc s
  have go: "\<exists>s. at (Suc n) pc' s" if a: "\<exists>s. at n pc s" "advance ?H ?L pc = (?H, ?L, pc')" "pc \<noteq> Rest" "sought pc' = Some d"
    for n pc pc'
  proof -
    obtain s where s: "at n pc s" using a(1) by blast
    have "absent (run_thread 1 s) 1 \<longrightarrow> absent s 1 \<or> gone ?H [8, 16] pc'"
      "unlinked (run_thread 1 s) 1 \<longrightarrow> unlinked s 1 \<or> loose ?H [8, 16] pc'"
      using s a(2) by (auto simp: run_thread_def absent_watch at_def)
    then have "at (Suc n) pc' (run_thread 1 s)"
      using s reach_run(1) [of n s 1] a(2,3) g [OF a(4)] by (auto simp: at_def)
    then show ?thesis ..
  qed
  have one: "heap lflc_one = ?H" "lst lflc_one = ?L" "lpcs lflc_one = [Rest, Rest]" "order lflc_one = [8, 16]"
    by (simp_all add: lflc_one_def lflc_half_def lflc_start_def fun_upd_twist)
  have "absent (run_search 1 True d lflc_one) 1 \<longrightarrow> gone ?H [8, 16] (ReadNext ?w 8)"
    "unlinked (run_search 1 True d lflc_one) 1 \<longrightarrow> loose ?H [8, 16] (ReadNext ?w 8)"
    using one by (simp_all add: run_search_def absent_watch)
  then have "at (Suc 3) (ReadNext ?w 8) (run_search 1 True d lflc_one)"
    using reach_run(3) [OF lflc_one_reach, of 1 True d] one g [of "ReadNext ?w 8"] by (auto simp: at_def)
  then have "\<exists>s. at (Suc 3) (ReadNext ?w 8) s" ..
  then have "\<exists>s. at (Suc (Suc 3)) (TailTest ?v 16) s"
    by (rule go) (use assms in \<open>auto simp: get_mark_ref get_ref_ref is_ref_small\<close>)
  then have "\<exists>s. at (Suc (Suc (Suc 3))) (Leave ?v 16) s" by (rule go) simp_all
  then have "\<exists>s. at (Suc (Suc (Suc (Suc 3)))) (MarkTest ?v 16) s" by (rule go) simp_all
  then have "\<exists>s. at (Suc (Suc (Suc (Suc (Suc 3))))) (NullTest ?v 16) s" by (rule go) simp_all
  then have "\<exists>s. at (Suc (Suc (Suc (Suc (Suc (Suc 3)))))) (Removed d False) s" by (rule go) simp_all
  then show ?thesis unfolding at_def by blast
qed

theorem lflist_miss_justified_witness:
  "(\<exists>s :: lfl_sys. lpcs s = [Rest, Removed 7 False] \<and> absent s 1) \<and>
   (\<exists>s :: lfl_sys. lpcs s = [Rest, Removed 5 False] \<and> \<not> absent s 1 \<and> unlinked s 1)"
proof -
  have five: "(5 :: u64) \<noteq> 7" by simp
  obtain n s where s: "reach lfl_start lfl_step n s" "lpcs s = [Rest, Removed 7 False]" "unlinked s 1 \<longrightarrow> (7 :: u64) = 5"
    using lflc_miss [of 7] by blast
  obtain m u where u: "reach lfl_start lfl_step m u" "lpcs u = [Rest, Removed 5 False]" "absent u 1 \<longrightarrow> (5 :: u64) = 7"
    using lflc_miss [of 5] by blast
  have "absent s 1" using lflist_miss_justified [OF s(1), of 1 7] s(2,3) five by auto
  moreover have "\<not> absent u 1 \<and> unlinked u 1" using lflist_miss_justified [OF u(1), of 1 5] u(2,3) five by auto
  ultimately show ?thesis using s(2) u(2) by blast
qed

theorem lflist_search_waits_witness:
  "\<exists>w' p. want w' = 7 \<and> (lpcs (run_thread 1 lflc_wait) ! 1 = ReadNext w' p \<or>
     lpcs (run_thread 1 lflc_wait) ! 1 = TailTest w' p)"
proof -
  let ?w = "\<lparr>removing = False, want = 7, lft = 0, lft_next = 0\<rparr> :: walk"
  have st: "stalled lflc_wait 0 0" by (simp add: stalled_def lflc_wait_def lflc_half_def lflc_start_def)
  have t: "1 < length (lpcs lflc_wait)" "lpcs lflc_wait ! 1 = ReadNext ?w (head (lst lflc_wait))"
    "\<forall>k \<le> 0. dat (heap lflc_wait) (order lflc_wait ! k) \<noteq> want ?w"
    by (simp_all add: lflc_wait_def lflc_half_def lflc_start_def dat_def)
  have "lfl_step lflc_wait (run_thread 1 lflc_wait)"
    unfolding run_thread_def using t by (auto intro!: lfl_step.thread_step split: prod.split)
  moreover have "lpcs (run_thread 1 lflc_wait) ! 0 = lpcs lflc_wait ! 0" by simp
  ultimately have "(\<lambda>x y. lfl_step x y \<and> lpcs y ! 0 = lpcs x ! 0)\<^sup>*\<^sup>* lflc_wait (run_thread 1 lflc_wait)" by blast
  from lflist_search_waits [OF lflc_wait_reach st t this] show ?thesis by simp
qed

end
