(* ===== verification/Environment.thy ===== *)
theory Environment
  imports Prelude
begin

text \<open>
  What the program relies on and does not contain: the concurrent hash map (libcuckoo, a submodule
  absent from the repository) as a record of operations that every function using it takes as a
  parameter, and the operating system's files, as a reader sees them and as a power failure
  leaves them.
\<close>

section \<open>The hash map parameter\<close>

record 'm cuckoo =
  ck_new :: 'm
  ck_find :: "'m \<Rightarrow> u32 \<Rightarrow> nat option"
  ck_assign :: "'m \<Rightarrow> u32 \<Rightarrow> nat \<Rightarrow> 'm"
  ck_erase :: "'m \<Rightarrow> u32 \<Rightarrow> 'm"

text \<open>The documented behaviour of the map: it is a finite map from block numbers to node pointers.\<close>

definition cuckoo_laws :: "'m cuckoo \<Rightarrow> bool" where
  "cuckoo_laws ck \<longleftrightarrow>
     (\<forall>l. ck_find ck (ck_new ck) l = None) \<and>
     (\<forall>m k a l. ck_find ck (ck_assign ck m k a) l = (if l = k then Some a else ck_find ck m l)) \<and>
     (\<forall>m k l. ck_find ck (ck_erase ck m k) l = (if l = k then None else ck_find ck m l))"

text \<open>A map that has it, for the witnesses.\<close>

definition fun_cuckoo :: "(u32 \<Rightarrow> nat option) cuckoo" where
  "fun_cuckoo = \<lparr>ck_new = (\<lambda>_. None), ck_find = (\<lambda>m. m), ck_assign = (\<lambda>m k a. m(k \<mapsto> a)),
     ck_erase = (\<lambda>m k. m(k := None))\<rparr>"

lemma fun_cuckoo_laws: "cuckoo_laws fun_cuckoo"
  by (simp add: cuckoo_laws_def fun_cuckoo_def)

section \<open>Files\<close>

text \<open>
  A file is its bytes; what lies beyond its end reads as zero. \<open>files\<close> is what the system calls
  see, \<open>durable\<close> what is on the storage device. Opening can fail, and so can writing; these are
  the environment's choice, given by \<open>open_fails\<close> and \<open>io_error\<close>.
\<close>

record os =
  fds :: "int \<Rightarrow> string option"
  next_fd :: int
  files :: "string \<Rightarrow> u8 list option"
  durable :: "string \<Rightarrow> u8 list option"
  open_fails :: "string \<Rightarrow> bool"
  io_error :: bool

text \<open>\<^verbatim>\<open>open\<close> with \<^verbatim>\<open>O_RDWR | O_CREAT\<close>.\<close>

definition sys_open :: "os \<Rightarrow> string \<Rightarrow> int \<times> os" where
  "sys_open os path =
     (if open_fails os path then (- 1, os)
      else (next_fd os, os\<lparr>fds := (fds os)(next_fd os \<mapsto> path), next_fd := next_fd os + 1,
              files := (if files os path = None then (files os)(path \<mapsto> []) else files os)\<rparr>))"

definition sys_close :: "os \<Rightarrow> int \<Rightarrow> os" where
  "sys_close os fd = os\<lparr>fds := (fds os)(fd := None)\<rparr>"

definition overwrite :: "u8 list \<Rightarrow> nat \<Rightarrow> u8 list \<Rightarrow> u8 list" where
  "overwrite f off bytes =
     (let g = f @ replicate (off - length f) 0 in take off g @ bytes @ drop (off + length bytes) g)"

text \<open>\<^verbatim>\<open>pwritev\<close>, and \<^verbatim>\<open>lseek\<close> followed by \<^verbatim>\<open>write\<close>: the bytes written, or \<open>-1\<close>.\<close>

definition sys_pwrite :: "os \<Rightarrow> int \<Rightarrow> u8 list \<Rightarrow> nat \<Rightarrow> int \<times> os" where
  "sys_pwrite os fd bytes off =
     (case fds os fd of None \<Rightarrow> (- 1, os)
      | Some path \<Rightarrow>
         if io_error os then (- 1, os)
         else (int (length bytes),
           os\<lparr>files := (files os)(path \<mapsto>
             overwrite (case files os path of None \<Rightarrow> [] | Some f \<Rightarrow> f) off bytes)\<rparr>))"

definition sys_sync :: "os \<Rightarrow> os" where
  "sys_sync os = os\<lparr>durable := files os\<rparr>"

definition byte_at :: "u8 list option \<Rightarrow> nat \<Rightarrow> u8" where
  "byte_at f k = (case f of None \<Rightarrow> 0 | Some bs \<Rightarrow> if k < length bs then bs ! k else 0)"

text \<open>Block \<open>l\<close> of a file, in blocks of \<open>n\<close> bytes.\<close>

definition fblock :: "nat \<Rightarrow> u8 list option \<Rightarrow> nat \<Rightarrow> u8 list" where
  "fblock n f l = map (\<lambda>k. byte_at f (l * n + k)) [0..<n]"

lemma length_overwrite: "length (overwrite f off bytes) = max (length f) (off + length bytes)"
  by (auto simp: overwrite_def Let_def max_def)

lemma byte_at_overwrite:
  "byte_at (Some (overwrite f off bytes)) k =
     (if off \<le> k \<and> k < off + length bytes then bytes ! (k - off) else byte_at (Some f) k)"
proof -
  consider "k < off" | "off \<le> k" "k < off + length bytes" | "off + length bytes \<le> k" by linarith
  then show ?thesis
  proof cases
    case 1
    then show ?thesis
      by (auto simp: byte_at_def overwrite_def Let_def nth_append length_overwrite [unfolded overwrite_def Let_def])
  next
    case 2
    have "min (length f) off + (off - length f) = off" by simp
    with 2 show ?thesis
      by (auto simp: byte_at_def overwrite_def Let_def nth_append length_overwrite [unfolded overwrite_def Let_def])
  next
    case 3
    then show ?thesis
      by (auto simp: byte_at_def overwrite_def Let_def nth_append length_overwrite [unfolded overwrite_def Let_def])
  qed
qed

lemma length_fblock [simp]: "length (fblock n f l) = n"
  by (simp add: fblock_def)

lemma fblock_cong: "(\<And>k. byte_at f k = byte_at g k) \<Longrightarrow> fblock n f l = fblock n g l"
  by (simp add: fblock_def)

lemma fblock_created: "fblock n (Some []) l = fblock n None l"
  by (rule fblock_cong) (simp add: byte_at_def)

lemma block_disjoint:
  fixes l l' n k :: nat
  assumes "l \<noteq> l'" "k < n"
  shows "\<not> (l * n \<le> l' * n + k \<and> l' * n + k < l * n + n)"
proof
  assume a: "l * n \<le> l' * n + k \<and> l' * n + k < l * n + n"
  then have "(l' * n + k) div n = l"
    using assms(2) by (metis a div_nat_eqI mult.commute mult_Suc_right add.commute)
  moreover have "(l' * n + k) div n = l'" using assms(2) by simp
  ultimately show False using assms(1) by simp
qed

lemma fblock_overwrite:
  assumes "length bytes = n"
  shows "fblock n (Some (overwrite f (l * n) bytes)) l' =
    (if l' = l then bytes else fblock n (Some f) l')"
proof (cases "l' = l")
  case True
  have "map (\<lambda>k. byte_at (Some (overwrite f (l * n) bytes)) (l * n + k)) [0..<n] = bytes"
    using assms by (intro nth_equalityI) (simp_all add: byte_at_overwrite)
  with True show ?thesis by (simp add: fblock_def)
next
  case False
  then have "byte_at (Some (overwrite f (l * n) bytes)) (l' * n + k) = byte_at (Some f) (l' * n + k)"
    if "k < n" for k
    using block_disjoint [of l l' k n] that assms by (auto simp: byte_at_overwrite)
  with False show ?thesis by (simp add: fblock_def)
qed

lemma overwrite_append:
  "overwrite f off (a @ b) = overwrite (overwrite f off a) (off + length a) b"
proof (rule nth_equalityI)
  show "length (overwrite f off (a @ b)) = length (overwrite (overwrite f off a) (off + length a) b)"
    by (simp add: length_overwrite)
next
  fix k assume "k < length (overwrite f off (a @ b))"
  then have k: "k < length (overwrite f off (a @ b))"
    "k < length (overwrite (overwrite f off a) (off + length a) b)"
    by (simp_all add: length_overwrite)
  have "byte_at (Some (overwrite f off (a @ b))) k =
      byte_at (Some (overwrite (overwrite f off a) (off + length a) b)) k"
    by (auto simp: byte_at_overwrite nth_append)
  with k show "overwrite f off (a @ b) ! k = overwrite (overwrite f off a) (off + length a) b ! k"
    by (simp add: byte_at_def)
qed

end
