(* ===== verification/HashTable.thy ===== *)
theory HashTable
  imports HashList Environment
begin

text \<open>
  The hash table of a volume (\<^verbatim>\<open>include/nvm0hash.h\<close>, \<^verbatim>\<open>src/nvm0hash.cc\<close>): a map from block numbers
  to hash nodes and the list of nodes that were logically deleted, over the heap of nodes. The
  inode entry of \<^verbatim>\<open>include/nvm0inode.h\<close> is here because a node takes its block number from it.
\<close>

section \<open>Inodes and tables\<close>

datatype inode_state = FREE | DIRTY | SYNC | CLEAN

record inode_entry =
  in_lbn :: u32
  in_state :: inode_state
  in_volume :: "nat option"   \<comment> \<open>pointer into the volume table, by index\<close>
  in_block :: u32
  in_lock :: bool             \<comment> \<open>held or not\<close>

record 'm hash_table =
  ht_map :: 'm
  ht_invalid :: hash_node_list

text \<open>Following a pointer into a table.\<close>

definition deref_idx :: "'a list \<Rightarrow> nat option \<Rightarrow> 'a res" where
  "deref_idx xs p = (case p of None \<Rightarrow> Inl NullDeref | Some i \<Rightarrow> at_index xs i)"

lemma deref_idx_simps [simp, res_simps]:
  "deref_idx xs None = Inl NullDeref" "deref_idx xs (Some i) = at_index xs i"
  by (simp_all add: deref_idx_def)

section \<open>Operations\<close>

definition new_hash_table :: "'m cuckoo \<Rightarrow> 'm hash_table" where
  "new_hash_table ck = \<lparr>ht_map = ck_new ck, ht_invalid = new_list\<rparr>"

text \<open>\<open>new struct hash_node\<close>: the allocator returns an address \<open>a\<close>, chosen by the caller of the model.\<close>

definition new_hash_node :: "inode_entry list \<Rightarrow> node_heap \<Rightarrow> nat \<Rightarrow> nat option \<Rightarrow> node_heap res" where
  "new_hash_node itab h a inode =
     rbind (deref_idx itab inode) (\<lambda>e.
       Inr (h(a \<mapsto> \<lparr>hn_inode = inode, hn_lbn = in_lbn e, hn_is_valid = True, hn_mutex = False,
                     hn_prev = None, hn_next = None\<rparr>)))"

definition validate_hash_node :: "inode_entry list \<Rightarrow> node_heap \<Rightarrow> nat option \<Rightarrow> nat option \<Rightarrow> node_heap res" where
  "validate_hash_node itab h node inode =
     rbind (deref_idx itab inode) (\<lambda>e.
       upd_node h node (\<lambda>nd. nd\<lparr>hn_inode := inode, hn_lbn := in_lbn e, hn_is_valid := True\<rparr>))"

definition insert_hash_node ::
    "'m cuckoo \<Rightarrow> inode_entry list \<Rightarrow> node_heap \<Rightarrow> 'm hash_table \<Rightarrow> nat \<Rightarrow> 'm hash_table res" where
  "insert_hash_node ck itab h table node =
     rbind (deref h (Some node)) (\<lambda>nd.
     rbind (deref_idx itab (hn_inode nd)) (\<lambda>e.
       Inr (table\<lparr>ht_map := ck_assign ck (ht_map table) (in_lbn e) node\<rparr>)))"

definition search_hash_node :: "'m cuckoo \<Rightarrow> 'm hash_table \<Rightarrow> u32 \<Rightarrow> nat option" where
  "search_hash_node ck table lbn = ck_find ck (ht_map table) lbn"

definition logical_delete_hash_node ::
    "node_heap \<Rightarrow> 'm hash_table \<Rightarrow> nat option \<Rightarrow> (node_heap \<times> 'm hash_table) res" where
  "logical_delete_hash_node h table node =
     rbind (upd_node h node (\<lambda>nd. nd\<lparr>hn_inode := None, hn_is_valid := False\<rparr>)) (\<lambda>h1.
     rbind (push_back_list_node h1 (ht_invalid table) node) (\<lambda>(h2, l).
       Inr (h2, table\<lparr>ht_invalid := l\<rparr>)))"

definition physical_delete_hash_node :: "'m cuckoo \<Rightarrow> 'm hash_table \<Rightarrow> u32 \<Rightarrow> 'm hash_table" where
  "physical_delete_hash_node ck table lbn = table\<lparr>ht_map := ck_erase ck (ht_map table) lbn\<rparr>"

section \<open>What the operations do to a node\<close>

text \<open>
  The fields that matter to the rest of the program; the list links change behind the back of
  whoever holds a node.
\<close>

definition node_view :: "hash_node \<Rightarrow> nat option \<times> u32 \<times> bool \<times> bool" where
  "node_view nd = (hn_inode nd, hn_lbn nd, hn_is_valid nd, hn_mutex nd)"

definition view :: "node_heap \<Rightarrow> nat \<Rightarrow> (nat option \<times> u32 \<times> bool \<times> bool) option" where
  "view h a = map_option node_view (h a)"

lemma view_upd: "view (h(a \<mapsto> nd)) = (view h)(a \<mapsto> node_view nd)"
  by (auto simp: view_def)

lemma view_Some: "h a = Some nd \<Longrightarrow> view h a = Some (node_view nd)"
  by (simp add: view_def)

lemma view_SomeD: "view h a = Some x \<Longrightarrow> \<exists>nd. h a = Some nd \<and> node_view nd = x"
  by (auto simp: view_def)

text \<open>The tail of an invalid list is null or a node.\<close>

definition tail_ok :: "node_heap \<Rightarrow> 'm hash_table \<Rightarrow> bool" where
  "tail_ok h t \<longleftrightarrow> (\<forall>a. list_tail (ht_invalid t) = Some a \<longrightarrow> h a \<noteq> None)"

text \<open>
  Logical deletion never fails, whatever the state of the links: it makes the node invalid and
  detaches it from its inode, and no other node changes except in its links.
\<close>

lemma logical_delete_view:
  assumes "h a = Some nd" "tail_ok h t"
  shows "\<exists>h' t'. logical_delete_hash_node h t (Some a) = Inr (h', t') \<and> ht_map t' = ht_map t \<and>
    view h' = (view h)(a \<mapsto> (None, hn_lbn nd, False, hn_mutex nd)) \<and> tail_ok h' t'"
proof (cases "list_tail (ht_invalid t)")
  case None
  with assms show ?thesis
    by (auto simp: logical_delete_hash_node_def push_back_list_node_def view_upd node_view_def tail_ok_def)
next
  case (Some b)
  with assms obtain nb where "h b = Some nb" by (auto simp: tail_ok_def)
  with assms Some show ?thesis
    by (cases "b = a") (auto simp: logical_delete_hash_node_def push_back_list_node_def view_upd
        node_view_def tail_ok_def view_Some intro!: ext)
qed

end
