(* ===== verification/NVM_State.thy ===== *)
theory NVM_State
  imports LFQueue HashTable
begin

text \<open>
  The state the whole program works on: the tables in non-volatile memory of
  \<^verbatim>\<open>include/nvm0nvm.h\<close>, \<^verbatim>\<open>nvm0volume.h\<close> and \<^verbatim>\<open>nvm0block.h\<close>, the queues, counters and options
  declared in \<^verbatim>\<open>src/nvm0nvm.cc\<close>, the C++ heap of hash nodes, and the operating system. Pointers
  into the two tables are indices; the hash table a volume entry points to belongs to that entry
  alone and is stored in it. What survives a power failure are the three tables and the durable
  files.
\<close>

section \<open>Configuration\<close>

definition DEFAULT_NUM_FREE :: nat where "DEFAULT_NUM_FREE = 2"
definition DEFAULT_NUM_SYNCER :: nat where "DEFAULT_NUM_SYNCER = 2"
definition DEFAULT_NUM_BALLOON :: nat where "DEFAULT_NUM_BALLOON = 8"
definition DEFAULT_FREE_MIN_COUNT :: u32 where "DEFAULT_FREE_MIN_COUNT = 100"
definition DEFAULT_SYNC_LWM :: u32 where "DEFAULT_SYNC_LWM = 1"
definition FLUSH_BATCH_SIZE :: int where "FLUSH_BATCH_SIZE = 1024"
definition MAX_VOLUME_ENTRY :: u32 where "MAX_VOLUME_ENTRY = 128"
definition MAX_OWNERLESS_BLOCK :: u32 where "MAX_OWNERLESS_BLOCK = MAX_VOLUME_ENTRY"
definition MONITORING_AMOUNT :: nat where "MONITORING_AMOUNT = 7"
definition BLOCK_SIZE :: u32 where "BLOCK_SIZE = 2 ^ 14"

text \<open>The size of an \<open>inode_entry\<close> on a 64-bit target: 24 bytes and a mutex of 40.\<close>

definition SIZEOF_INODE_ENTRY :: nat where "SIZEOF_INODE_ENTRY = 64"

lemmas config_defs = DEFAULT_NUM_FREE_def DEFAULT_NUM_SYNCER_def DEFAULT_NUM_BALLOON_def
  DEFAULT_FREE_MIN_COUNT_def DEFAULT_SYNC_LWM_def FLUSH_BATCH_SIZE_def

section \<open>The global state\<close>

record 'm volume_entry =
  ve_vid :: u32
  ve_fd :: int
  ve_block :: u32
  ve_table :: "'m hash_table option"

record timespec =
  tv_sec :: int
  tv_nsec :: int

record monitor =
  mon_free :: u64
  mon_dirty :: u64
  mon_clean :: u64
  mon_sync :: u64
  time_recorder :: timespec

record 'm nvm =
  max_volume_entry :: u32
  max_inode_entry :: u32
  block_size :: u32
  volume_table :: "'m volume_entry list"
  inode_table :: "inode_entry list"
  block_table :: "u8 list list"
  volume_free_lfqueue :: "u32 lfqueue"
  volume_inuse_lfqueue :: "u32 lfqueue"
  inode_free_lfqueue :: "u32 lfqueue list"
  free_enqueue_idx :: u64
  free_dequeue_idx :: u64
  inode_free_count :: u32
  inode_dirty_lfqueue :: "u32 lfqueue list"
  inode_dirty_count :: u32
  inode_sync_lfqueue :: "u32 lfqueue list"
  sync_queue_idx :: u64
  inode_clean_lfqueue :: "u32 lfqueue list"
  clean_queue_idx :: u64
  kFlushLwm :: u64
  sync_option :: bool
  sys_terminate :: bool
  mon :: monitor
  nodes :: node_heap
  next_node :: nat              \<comment> \<open>the next address the allocator returns\<close>
  system :: os

section \<open>Access\<close>

text \<open>An operation on queue \<open>k\<close> of an array of queues.\<close>

definition enq_at :: "u32 lfqueue list \<Rightarrow> nat \<Rightarrow> u32 \<Rightarrow> u32 lfqueue list res" where
  "enq_at qs k v = rbind (at_index qs k) (\<lambda>q. rbind (enqueue q v) (\<lambda>q'. Inr (qs[k := q'])))"

definition deq_at :: "u32 lfqueue list \<Rightarrow> nat \<Rightarrow> (u32 \<times> u32 lfqueue list) res" where
  "deq_at qs k = rbind (at_index qs k) (\<lambda>q. rbind (dequeue q) (\<lambda>(v, q'). Inr (v, qs[k := q'])))"

text \<open>Round robin: an atomic counter modulo the number of queues.\<close>

definition rr :: "u64 \<Rightarrow> nat \<Rightarrow> nat" where
  "rr idx n = unat (idx mod of_nat n)"

text \<open>\<open>pthread_mutex_lock\<close> and \<open>pthread_mutex_unlock\<close> on an inode's lock and on a hash node's mutex.\<close>

definition lock_inode :: "'m nvm \<Rightarrow> nat \<Rightarrow> 'm nvm res" where
  "lock_inode s i = rbind (at_index (inode_table s) i) (\<lambda>e.
     if in_lock e then Inl Blocked
     else Inr (s\<lparr>inode_table := (inode_table s)[i := e\<lparr>in_lock := True\<rparr>]\<rparr>))"

definition unlock_inode :: "'m nvm \<Rightarrow> nat \<Rightarrow> 'm nvm res" where
  "unlock_inode s i = rbind (at_index (inode_table s) i) (\<lambda>e.
     Inr (s\<lparr>inode_table := (inode_table s)[i := e\<lparr>in_lock := False\<rparr>]\<rparr>))"

definition set_inode_state :: "'m nvm \<Rightarrow> nat \<Rightarrow> inode_state \<Rightarrow> 'm nvm res" where
  "set_inode_state s i st = rbind (at_index (inode_table s) i) (\<lambda>e.
     Inr (s\<lparr>inode_table := (inode_table s)[i := e\<lparr>in_state := st\<rparr>]\<rparr>))"

definition lock_node :: "'m nvm \<Rightarrow> nat \<Rightarrow> 'm nvm res" where
  "lock_node s a = rbind (deref (nodes s) (Some a)) (\<lambda>nd.
     if hn_mutex nd then Inl Blocked
     else Inr (s\<lparr>nodes := (nodes s)(a \<mapsto> nd\<lparr>hn_mutex := True\<rparr>)\<rparr>))"

definition unlock_node :: "'m nvm \<Rightarrow> nat \<Rightarrow> 'm nvm res" where
  "unlock_node s a = rbind (deref (nodes s) (Some a)) (\<lambda>nd.
     Inr (s\<lparr>nodes := (nodes s)(a \<mapsto> nd\<lparr>hn_mutex := False\<rparr>)\<rparr>))"

lemma rr_less: "0 < n \<Longrightarrow> n < 2 ^ 64 \<Longrightarrow> rr idx n < n"
  unfolding rr_def by (simp add: unat_mod_distrib unat_of_nat_u64)

end
