(* ===== verification/NVM_Layout.thy ===== *)
theory NVM_Layout
  imports NVM_State
begin

text \<open>
  How \<open>nvm_structure_build\<close> (\<^verbatim>\<open>src/nvm0nvm.cc\<close>) divides the memory segment: the metadata, the
  volume table, the inode table and, aligned to the block size, the block table. The address
  arithmetic is that of the code, in 64 bits, with the number of blocks cut to 32 bits.
\<close>

section \<open>The division of the segment\<close>

definition SIZEOF_NVM_METADATA :: u64 where "SIZEOF_NVM_METADATA = 48"
definition SIZEOF_VOLUME_ENTRY :: u64 where "SIZEOF_VOLUME_ENTRY = 24"

record layout =
  max_block :: u32
  lay_max_inode :: u32
  volume_table_at :: u64
  inode_table_at :: u64
  block_table_at :: u64

definition nvm_layout :: "u64 \<Rightarrow> u64 \<Rightarrow> layout" where
  "nvm_layout nvm nvm_size =
     (let bs = ucast BLOCK_SIZE :: u64;
          inode_size = of_nat SIZEOF_INODE_ENTRY :: u64;
          unused_end_space = (nvm + nvm_size) mod bs;
          mb = ucast ((nvm_size - SIZEOF_NVM_METADATA - SIZEOF_VOLUME_ENTRY * ucast MAX_VOLUME_ENTRY
                       - unused_end_space) div (inode_size + bs)) :: u32;
          volumes = nvm + SIZEOF_NVM_METADATA;
          inodes = volumes + SIZEOF_VOLUME_ENTRY * ucast MAX_VOLUME_ENTRY;
          inodes_end = inodes + inode_size * ucast mb
      in \<lparr>max_block = mb, lay_max_inode = mb - MAX_OWNERLESS_BLOCK, volume_table_at = volumes,
          inode_table_at = inodes, block_table_at = inodes_end - inodes_end mod bs + bs\<rparr>)"

lemmas layout_defs = SIZEOF_NVM_METADATA_def SIZEOF_VOLUME_ENTRY_def SIZEOF_INODE_ENTRY_def
  BLOCK_SIZE_def MAX_VOLUME_ENTRY_def MAX_OWNERLESS_BLOCK_def

text \<open>The same numbers without wrap-around, for a segment that neither wraps nor is too small.\<close>

lemma layout_max_block:
  assumes "unat nvm + unat sz < 2 ^ 64" "19503 \<le> unat sz" "unat sz < 2 ^ 45"
  shows "unat (max_block (nvm_layout nvm sz)) =
    (unat sz - 3120 - (unat nvm + unat sz) mod 16384) div 16448"
proof -
  let ?u = "(nvm + sz) mod 16384"
  have u: "unat ?u = (unat nvm + unat sz) mod 16384"
    using assms(1) by (simp add: unat_mod unat_add_no_wrap)
  have "unat (sz - 48) = unat sz - 48" using assms(2) by (subst unat_diff_no_wrap) simp_all
  moreover from this have "unat (sz - 48 - 3072) = unat sz - 3120"
    using assms(2) by (subst unat_diff_no_wrap) simp_all
  ultimately have "unat (sz - 48 - 3072 - ?u) = unat sz - 3120 - (unat nvm + unat sz) mod 16384"
    using assms(2) u mod_less_divisor [of 16384 "unat nvm + unat sz"] by (subst unat_diff_no_wrap) simp_all
  then have q: "unat ((sz - 48 - 3072 - ?u) div 16448) =
      (unat sz - 3120 - (unat nvm + unat sz) mod 16384) div 16448"
    by (simp add: unat_div)
  have "(unat sz - 3120 - (unat nvm + unat sz) mod 16384) div 16448 < 2 ^ 32"
    using assms(3) by (simp add: less_mult_imp_div_less)
  with q show ?thesis
    by (simp add: nvm_layout_def layout_defs Let_def unsigned_ucast_eq take_bit_nat_eq_self)
qed

lemma layout_addresses:
  assumes "unat nvm + unat sz < 2 ^ 64" "19503 \<le> unat sz" "unat sz < 2 ^ 45"
  defines "L \<equiv> nvm_layout nvm sz"
  shows "unat (volume_table_at L) = unat nvm + 48" "unat (inode_table_at L) = unat nvm + 3120"
    "unat nvm + 3120 + 16448 * unat (max_block L) \<le> unat nvm + unat sz - (unat nvm + unat sz) mod 16384"
    "unat nvm mod 64 = 0 \<Longrightarrow>
       unat (block_table_at L) = ((unat nvm + 3120 + 64 * unat (max_block L)) div 16384 + 1) * 16384"
    "unat nvm mod 64 = 0 \<Longrightarrow>
       ((unat nvm + 3120 + 64 * unat (max_block L)) div 16384 + 1 + unat (max_block L)) * 16384 \<le> unat nvm + unat sz"
proof -
  let ?N = "unat nvm" and ?S = "unat sz" and ?m = "unat (max_block L)"
  let ?u = "(?N + ?S) mod 16384"
  have u: "?u < 16384" by simp
  have m: "?m = (?S - 3120 - ?u) div 16448" unfolding L_def using assms(1-3) by (rule layout_max_block)
  then have "16448 * ?m \<le> ?S - 3120 - ?u" by simp
  then show fit: "?N + 3120 + 16448 * ?m \<le> ?N + ?S - ?u" using assms(2) u by linarith
  show v: "unat (volume_table_at L) = ?N + 48"
    using assms(1,2) by (simp add: L_def nvm_layout_def layout_defs Let_def unat_add_no_wrap)
  have L: "volume_table_at L = nvm + 48" "inode_table_at L = volume_table_at L + 3072"
    "block_table_at L = inode_table_at L + 64 * ucast (max_block L)
       - (inode_table_at L + 64 * ucast (max_block L)) mod 16384 + 16384"
    by (simp_all add: L_def nvm_layout_def layout_defs Let_def)
  show i: "unat (inode_table_at L) = ?N + 3120"
    using assms(1,2) v by (simp add: L(2) unat_add_no_wrap)
  have "unat (64 * ucast (max_block L) :: u64) = 64 * ?m"
    using unat_u32_less [of "max_block L"] by (simp add: unat_word_ariths unat_ucast_u32_u64)
  then have x: "unat (inode_table_at L + 64 * ucast (max_block L)) = ?N + 3120 + 64 * ?m"
    using assms(1) fit by (subst unat_add_no_wrap) (simp_all add: i)
  let ?X = "?N + 3120 + 64 * ?m"
  {
    assume a: "?N mod 64 = 0"
    have e: "?N + ?S - ?u = (?N + ?S) div 16384 * 16384" by (metis minus_mod_eq_div_mult)
    obtain k where "?N = 64 * k" using a by auto
    then have "?X = 64 * (k + 48 + ?m) + 48" by simp
    then have "?X mod 64 = 48" by simp
    moreover have "?X mod 16384 mod 64 = ?X mod 64" by (rule mod_mod_cancel) simp
    ultimately have r: "0 < ?X mod 16384" by (metis gr0I mod_0 zero_neq_numeral)
    have "?X = ?X div 16384 * 16384 + ?X mod 16384" by (rule div_mult_mod_eq [symmetric])
    then have "?X div 16384 * 16384 + 16384 * ?m < (?N + ?S) div 16384 * 16384"
      using fit e r by linarith
    then have "?X div 16384 + ?m < (?N + ?S) div 16384" by linarith
    then have "?X div 16384 + 1 + ?m \<le> (?N + ?S) div 16384" by simp
    then have "(?X div 16384 + 1 + ?m) * 16384 \<le> (?N + ?S) div 16384 * 16384" by simp
    then show le: "(?X div 16384 + 1 + ?m) * 16384 \<le> ?N + ?S"
      using div_times_less_eq_dividend [of "?N + ?S" 16384] by linarith
    have "unat (inode_table_at L + 64 * ucast (max_block L)
        - (inode_table_at L + 64 * ucast (max_block L)) mod 16384) = ?X - ?X mod 16384"
      by (subst unat_diff_no_wrap) (simp_all add: unat_mod x)
    then have "unat (block_table_at L) = ?X - ?X mod 16384 + 16384"
      unfolding L(3) using le assms(1) by (subst unat_add_no_wrap) (simp_all add: minus_mod_eq_div_mult)
    then show "unat (block_table_at L) = (?X div 16384 + 1) * 16384"
      by (simp add: minus_mod_eq_div_mult)
  }
qed

text \<open>C22. The tables that \<open>nvm_structure_build\<close> lays out in a segment of at least 2141295 bytes,
  attached at an address that is a multiple of 64, lie one after the other inside the segment: the
  volume table, room for \<open>max_block\<close> inode entries, and a block table that is aligned to the
  block size and has a block for every inode and every volume.\<close>
theorem layout_fits:
  assumes "unat nvm + unat sz < 2 ^ 64" "unat nvm mod 64 = 0" "2141295 \<le> unat sz" "unat sz < 2 ^ 45"
  defines "L \<equiv> nvm_layout nvm sz"
  shows "unat (volume_table_at L) = unat nvm + 48 \<and>
    unat (inode_table_at L) = unat (volume_table_at L) + 24 * 128 \<and>
    unat (inode_table_at L) + 64 * unat (max_block L) \<le> unat (block_table_at L) \<and>
    unat (block_table_at L) mod 16384 = 0 \<and>
    unat (block_table_at L) + 16384 * (unat (lay_max_inode L) + 128) \<le> unat nvm + unat sz \<and>
    0 < unat (lay_max_inode L)"
proof -
  let ?m = "unat (max_block L)"
  note A = layout_addresses [OF assms(1) _ assms(4), folded L_def]
  have "?m = (unat sz - 3120 - (unat nvm + unat sz) mod 16384) div 16448"
    unfolding L_def using assms(1,3,4) by (intro layout_max_block) simp_all
  moreover have "129 * 16448 \<le> unat sz - 3120 - (unat nvm + unat sz) mod 16384"
    using assms(3) mod_less_divisor [of 16384 "unat nvm + unat sz"] by linarith
  ultimately have m: "129 \<le> ?m" by (simp add: less_eq_div_iff_mult_less_eq)
  have "lay_max_inode L = max_block L - 128" by (simp add: L_def nvm_layout_def layout_defs Let_def)
  then have "unat (lay_max_inode L) = ?m - 128" using m by (simp add: unat_diff_no_wrap)
  moreover have "unat nvm + 3120 + 64 * ?m \<le> ((unat nvm + 3120 + 64 * ?m) div 16384 + 1) * 16384"
    using dividend_less_times_div [of 16384 "unat nvm + 3120 + 64 * ?m"] by simp
  ultimately show ?thesis using A assms(2,3) m by simp
qed

theorem layout_fits_witness:
  "unat (block_table_at (nvm_layout 4096 4294967296)) mod 16384 = 0"
  using layout_fits [of 4096 4294967296] by simp

text \<open>In a segment that has room for the metadata but for fewer than 128 blocks, the number
  of inodes wraps around: the program believes to have more than four thousand million.\<close>
theorem layout_too_small:
  assumes "unat nvm + unat sz < 2 ^ 64" "19503 \<le> unat sz" "unat sz < 128 * 16448"
  shows "2 ^ 32 - 128 \<le> unat (lay_max_inode (nvm_layout nvm sz))"
proof -
  let ?L = "nvm_layout nvm sz"
  have "unat (max_block ?L) = (unat sz - 3120 - (unat nvm + unat sz) mod 16384) div 16448"
    using assms by (intro layout_max_block) simp_all
  then have m: "unat (max_block ?L) < 128" using assms(3) by (simp add: less_mult_imp_div_less)
  have "lay_max_inode ?L = max_block ?L - 128" by (simp add: nvm_layout_def layout_defs Let_def)
  moreover have "unat (max_block ?L - 128) = unat (max_block ?L) + 2 ^ 32 - 128"
    using m by (simp add: unat_sub_if_size word_size)
  ultimately show ?thesis by simp
qed

theorem layout_too_small_witness: "2 ^ 32 - 128 \<le> unat (lay_max_inode (nvm_layout 4096 2000000))"
  using layout_too_small [of 4096 2000000] by simp

end
