(* ===== verification/Console.thy ===== *)
theory Console
  imports Double
begin

text \<open>
  What the program prints: decimal numbers, the conversion \<open>%.pf\<close> of a double with its rounding and
  padding, and the effect of a printed text on the cursor of a terminal. Output is a string that a
  function returns.
\<close>

section \<open>Decimal numbers\<close>

definition digit :: "nat \<Rightarrow> char" where
  "digit d = (''0123456789'' ! d)"

text \<open>\<^verbatim>\<open>std::to_string\<close> of an unsigned number.\<close>

fun to_string :: "nat \<Rightarrow> string" where
  "to_string n = (if n < 10 then [digit n] else to_string (n div 10) @ [digit (n mod 10)])"

declare to_string.simps [simp del]

lemma digit_inj: "a < 10 \<Longrightarrow> b < 10 \<Longrightarrow> digit a = digit b \<Longrightarrow> a = b"
proof -
  assume "a < 10" "b < 10" "digit a = digit b"
  have "distinct ''0123456789''" by simp
  with \<open>a < 10\<close> \<open>b < 10\<close> \<open>digit a = digit b\<close> show "a = b"
    unfolding digit_def by (subst (asm) nth_eq_iff_index_eq) simp_all
qed

lemma to_string_nonempty: "to_string n \<noteq> []"
  by (subst to_string.simps) simp

lemma to_string_inj: "to_string a = to_string b \<Longrightarrow> a = b"
proof (induction a arbitrary: b rule: to_string.induct)
  case (1 a)
  show ?case
  proof (cases "a < 10"; cases "b < 10")
    assume "a < 10" "b < 10"
    with 1(2) show ?thesis by (simp add: to_string.simps [of a] to_string.simps [of b] digit_inj)
  next
    assume "a < 10" "\<not> b < 10"
    with 1(2) show ?thesis
      by (simp add: to_string.simps [of a] to_string.simps [of b] to_string_nonempty Cons_eq_append_conv)
  next
    assume "\<not> a < 10" "b < 10"
    with 1(2) show ?thesis
      by (simp add: to_string.simps [of a] to_string.simps [of b] to_string_nonempty append_eq_Cons_conv)
  next
    assume ge: "\<not> a < 10" "\<not> b < 10"
    with 1(2) have "to_string (a div 10) = to_string (b div 10)" "digit (a mod 10) = digit (b mod 10)"
      by (simp_all add: to_string.simps [of a] to_string.simps [of b])
    then have "a div 10 = b div 10" "a mod 10 = b mod 10"
      using 1(1) [OF ge(1)] digit_inj [of "a mod 10" "b mod 10"] by simp_all
    then show ?thesis by (metis div_mult_mod_eq)
  qed
qed

lemma length_to_string: "n < 10 ^ Suc k \<Longrightarrow> length (to_string n) \<le> Suc k"
proof (induction k arbitrary: n)
  case 0
  then show ?case by (simp add: to_string.simps [of n])
next
  case (Suc k)
  then have "n div 10 < 10 ^ Suc k" by (simp add: div_less_iff_less_mult mult.commute)
  from Suc.IH [OF this] show ?case by (subst to_string.simps) simp
qed

section \<open>Formatted output\<close>

text \<open>At least \<open>w\<close> columns, with blanks or zeros on the left.\<close>

definition pad :: "char \<Rightarrow> nat \<Rightarrow> string \<Rightarrow> string" where
  "pad c w cs = replicate (w - length cs) c @ cs"

text \<open>\<open>%.pf\<close>: the exact value rounded to \<open>p\<close> decimals, ties to even.\<close>

definition fixed :: "nat \<Rightarrow> rat \<Rightarrow> string" where
  "fixed p x =
     (let n = nat (round_even (\<bar>x\<bar> * 10 ^ p)) in
      (if x < 0 then ''-'' else '''') @ to_string (n div 10 ^ p) @ ''.'' @ pad (CHR ''0'') p (to_string (n mod 10 ^ p)))"

text \<open>The quotient of zero by zero has its sign bit set on the machines the program runs on.\<close>

fun fmt_double :: "nat \<Rightarrow> double \<Rightarrow> string" where
  "fmt_double p (Fin x) = fixed p x"
| "fmt_double p PInf = ''inf''"
| "fmt_double p MInf = ''-inf''"
| "fmt_double p NaN = ''-nan''"

definition ESC :: char where "ESC = CHR 0x1B"
definition LF :: char where "LF = CHR 0x0A"
definition CR :: char where "CR = CHR 0x0D"

section \<open>The terminal\<close>

text \<open>
  How a terminal moves its cursor, as far as the program uses it: a line feed starts the next row, a
  carriage return goes to column 0, \<open>ESC [ n A\<close> up by \<open>n\<close> rows, any other control sequence leaves the
  cursor where it is, and a character takes a column. Rows are relative to where the output starts.
\<close>

datatype parsing = Text | Escape | Params nat

type_synonym screen = "parsing \<times> int \<times> nat"

fun put_char :: "screen \<Rightarrow> char \<Rightarrow> screen" where
  "put_char (Text, r, c) ch =
     (if ch = ESC then (Escape, r, c) else if ch = LF then (Text, r + 1, 0)
      else if ch = CR then (Text, r, 0) else (Text, r, c + 1))"
| "put_char (Escape, r, c) ch = (if ch = CHR ''['' then (Params 0, r, c) else (Text, r, c))"
| "put_char (Params n, r, c) ch =
     (if 48 \<le> (of_char ch :: nat) \<and> (of_char ch :: nat) \<le> 57 then (Params (10 * n + (of_char ch - 48)), r, c)
      else if ch = CHR ''A'' then (Text, r - int (max 1 n), c)
      else (Text, r, c))"

definition show_text :: "screen \<Rightarrow> string \<Rightarrow> screen" where
  "show_text sc cs = foldl put_char sc cs"

lemma show_text_simps [simp]:
  "show_text sc [] = sc" "show_text sc (x # xs) = show_text (put_char sc x) xs"
  "show_text sc (xs @ ys) = show_text (show_text sc xs) ys"
  by (simp_all add: show_text_def)

text \<open>Text without control characters.\<close>

definition plain :: "string \<Rightarrow> bool" where
  "plain cs \<longleftrightarrow> ESC \<notin> set cs \<and> LF \<notin> set cs \<and> CR \<notin> set cs"

lemma plain_simps [simp]:
  "plain []" "plain (x # xs) \<longleftrightarrow> x \<noteq> ESC \<and> x \<noteq> LF \<and> x \<noteq> CR \<and> plain xs"
  "plain (xs @ ys) \<longleftrightarrow> plain xs \<and> plain ys"
  by (auto simp: plain_def)

lemma show_plain: "plain cs \<Longrightarrow> show_text (Text, r, c) cs = (Text, r, c + length cs)"
  by (induction cs arbitrary: c) auto

lemma plain_replicate [simp]: "x \<noteq> ESC \<Longrightarrow> x \<noteq> LF \<Longrightarrow> x \<noteq> CR \<Longrightarrow> plain (replicate k x)"
  by (auto simp: plain_def)

lemma plain_pad [simp]: "c \<in> {CHR '' '', CHR ''0''} \<Longrightarrow> plain cs \<Longrightarrow> plain (pad c w cs)"
  unfolding pad_def plain_simps(3) by (auto simp: ESC_def LF_def CR_def)

lemma plain_digit: "d < 10 \<Longrightarrow> digit d \<noteq> ESC \<and> digit d \<noteq> LF \<and> digit d \<noteq> CR"
proof -
  assume "d < 10"
  then have "d \<in> {0, 1, 2, 3, 4, 5, 6, 7, 8, 9}" by auto
  then show ?thesis by (elim insertE emptyE) (simp_all add: digit_def ESC_def LF_def CR_def)
qed

lemma plain_to_string [simp]: "plain (to_string n)"
  by (induction n rule: to_string.induct) (subst to_string.simps, simp add: plain_digit)

lemma plain_fixed [simp]: "plain (fixed p x)"
  by (simp add: fixed_def Let_def) (simp add: ESC_def LF_def CR_def)

lemma plain_fmt [simp]: "plain (fmt_double p x)"
  by (cases x) (simp_all add: ESC_def LF_def CR_def)

lemma length_pad: "length cs \<le> w \<Longrightarrow> length (pad c w cs) = w"
  by (simp add: pad_def)

text \<open>A number below 1000 takes at most seven columns with three decimals.\<close>

lemma length_fixed3:
  assumes "0 \<le> x" "x \<le> 999"
  shows "length (fixed 3 x) \<le> 7"
proof -
  define n where "n = nat (round_even (\<bar>x\<bar> * 10 ^ 3))"
  have "\<bar>x\<bar> * 10 ^ 3 \<le> of_int 999000" using assms by simp
  then have "round_even (\<bar>x\<bar> * 10 ^ 3) \<le> 999000" using round_even_mono round_even_of_int by metis
  then have "n \<le> 999000" by (simp add: n_def)
  then have "n div 10 ^ 3 < 10 ^ Suc 2" "n mod 10 ^ 3 < 10 ^ Suc 2" by simp_all
  from length_to_string [OF this(1)] length_to_string [OF this(2)]
  have "length (to_string (n div 10 ^ 3)) \<le> 3" "length (pad (CHR ''0'') 3 (to_string (n mod 10 ^ 3))) = 3"
    by (simp_all add: length_pad)
  moreover have "fixed 3 x = to_string (n div 10 ^ 3) @ ''.'' @ pad (CHR ''0'') 3 (to_string (n mod 10 ^ 3))"
    using assms(1) unfolding fixed_def n_def Let_def by simp
  ultimately show ?thesis by simp
qed

end
