(* ===== verification/NVM_Volume.thy ===== *)
theory NVM_Volume
  imports NVM_State Console
begin

text \<open>
  Volumes (\<^verbatim>\<open>src/nvm0volume.cc\<close>): the file name of a volume id, the table lookup that allocates
  an entry on first use, and the properties that make volumes independent: file names differ for
  different ids.
\<close>

section \<open>File names\<close>

definition get_filename :: "u32 \<Rightarrow> string" where
  "get_filename vid =
     (if vid mod 2 = 1 then ''/opt/nvm1/NVM/VOL_'' @ to_string (unat vid) @ ''.txt''
      else ''/opt/nvm2/NVM/VOL_'' @ to_string (unat vid) @ ''.txt'')"

text \<open>\<^verbatim>\<open>stat\<close> fails, and with it the assertion, when the file does not exist.\<close>

definition get_filesize :: "os \<Rightarrow> u32 \<Rightarrow> int res" where
  "get_filesize os vid =
     (case files os (get_filename vid) of Some f \<Rightarrow> Inr (int (length f)) | None \<Rightarrow> Inl AssertFail)"

section \<open>Volume entries\<close>

definition alloc_volume_entry_idx :: "'m cuckoo \<Rightarrow> 'm nvm \<Rightarrow> u32 \<Rightarrow> (u32 \<times> 'm nvm) res" where
  "alloc_volume_entry_idx ck s vid =
     (if is_empty (volume_free_lfqueue s) then Inl AssertFail
      else rbind (dequeue (volume_free_lfqueue s)) (\<lambda>(v, q).
        let (fd, os) = sys_open (system s) (get_filename vid) in
        if fd < 0 then Inl AssertFail
        else rbind (at_index (volume_table s) (unat v)) (\<lambda>ve.
             rbind (enqueue (volume_inuse_lfqueue s) v) (\<lambda>iq.
               Inr (v, s\<lparr>volume_free_lfqueue := q, volume_inuse_lfqueue := iq, system := os,
                         volume_table := (volume_table s)[unat v :=
                           ve\<lparr>ve_vid := vid, ve_fd := fd, ve_table := Some (new_hash_table ck)\<rparr>]\<rparr>)))))"

text \<open>The linear search over the table, then the allocation.\<close>

fun find_volume :: "'m volume_entry list \<Rightarrow> u32 \<Rightarrow> u32 \<Rightarrow> u32 option" where
  "find_volume [] v vid = None"
| "find_volume (e # es) v vid = (if ve_vid e = vid then Some v else find_volume es (v + 1) vid)"

definition get_volume_entry_idx :: "'m cuckoo \<Rightarrow> 'm nvm \<Rightarrow> u32 \<Rightarrow> (u32 \<times> 'm nvm) res" where
  "get_volume_entry_idx ck s vid =
     (case find_volume (take (unat (max_volume_entry s)) (volume_table s)) 0 vid of
        Some v \<Rightarrow> Inr (v, s)
      | None \<Rightarrow> alloc_volume_entry_idx ck s vid)"

section \<open>Names differ\<close>

lemma get_filename_inj: "get_filename a = get_filename b \<Longrightarrow> a = b"
proof -
  assume "get_filename a = get_filename b"
  then have "to_string (unat a) = to_string (unat b)"
    by (auto simp: get_filename_def split: if_splits)
  then have "unat a = unat b" by (rule to_string_inj)
  then show "a = b" by (rule word_unat_eq_iff [THEN iffD2])
qed

end
