(* ===== verification/NVM_Init.thy ===== *)
theory NVM_Init
  imports NVM_Volume NVM_Layout Double
begin

text \<open>
  The life of the system (\<^verbatim>\<open>src/nvm0nvm.cc\<close>): formatting the tables once, starting with the
  recovery of what an earlier run left in memory, and closing. The threads and their condition
  variables are in \<open>NVM_Threads\<close>; queue objects are created by the start and forgotten by the close.
\<close>

section \<open>Formatting\<close>

text \<open>The two loops of \<open>nvm_structure_build\<close>, and the function. What the segment held stays otherwise.\<close>

definition format_inode :: "nat \<Rightarrow> 'm nvm \<Rightarrow> 'm nvm res" where
  "format_inode i s = rbind (at_index (inode_table s) i) (\<lambda>e.
     Inr (s\<lparr>inode_table := (inode_table s)[i := e\<lparr>in_state := FREE, in_block := of_nat i\<rparr>]\<rparr>))"

definition format_volume :: "nat \<Rightarrow> 'm nvm \<Rightarrow> 'm nvm res" where
  "format_volume i s = rbind (at_index (volume_table s) i) (\<lambda>ve.
     Inr (s\<lparr>volume_table := (volume_table s)[i := ve\<lparr>ve_block := of_nat i + max_inode_entry s\<rparr>]\<rparr>))"

definition nvm_structure_build :: "u64 \<Rightarrow> u64 \<Rightarrow> 'm nvm \<Rightarrow> 'm nvm res" where
  "nvm_structure_build nvm nvm_size s =
     (let s0 = s\<lparr>max_volume_entry := MAX_VOLUME_ENTRY, block_size := BLOCK_SIZE,
                 max_inode_entry := lay_max_inode (nvm_layout nvm nvm_size)\<rparr>
      in rbind (for_upto format_inode (unat (max_inode_entry s0)) s0) (\<lambda>s1.
         for_upto format_volume (unat (max_volume_entry s1)) s1))"

section \<open>Recovery\<close>

text \<open>The file name is not that of \<open>get_filename\<close>, and the offset is a product in 32 bits.\<close>

definition recovery_filename :: "u32 \<Rightarrow> string" where
  "recovery_filename vid = ''VOL_'' @ to_string (unat vid) @ ''.txt''"

definition recover_inode :: "nat \<Rightarrow> 'm nvm \<Rightarrow> 'm nvm res" where
  "recover_inode i s = rbind (at_index (inode_table s) i) (\<lambda>inode.
     if in_state inode = DIRTY \<or> in_state inode = SYNC then
       rbind (deref_idx (volume_table s) (in_volume inode)) (\<lambda>ve.
       rbind (at_index (block_table s) (unat (in_block inode))) (\<lambda>blk.
       let (fd, os) = sys_open (system s) (recovery_filename (ve_vid ve));
           os1 = snd (sys_pwrite os fd (take (unat (block_size s)) blk) (unat (block_size s * in_lbn inode)))
       in Inr (s\<lparr>system := sys_close os1 fd\<rparr>)))
     else Inr s)"

text \<open>The last loop, which \<open>nvm_system_close\<close> has too.\<close>

definition clean_inode :: "nat \<Rightarrow> 'm nvm \<Rightarrow> 'm nvm res" where
  "clean_inode i s = rbind (at_index (inode_table s) i) (\<lambda>inode.
     if in_state inode = DIRTY \<or> in_state inode = SYNC then set_inode_state s i CLEAN else Inr s)"

definition recovery_start :: "'m nvm \<Rightarrow> 'm nvm res" where
  "recovery_start s =
     rbind (for_upto recover_inode (unat (max_inode_entry s)) s) (\<lambda>s1.
     let s2 = s1\<lparr>system := sys_sync (sys_sync (system s1))\<rparr> in
     for_upto clean_inode (unat (max_inode_entry s2)) s2)"

section \<open>Start\<close>

definition init_volume :: "nat \<Rightarrow> 'm nvm \<Rightarrow> 'm nvm res" where
  "init_volume i s = rbind (at_index (volume_table s) i) (\<lambda>ve.
     rbind (enqueue (volume_free_lfqueue s) (of_nat i)) (\<lambda>q.
       Inr (s\<lparr>volume_table := (volume_table s)[i := ve\<lparr>ve_vid := 0 - 1\<rparr>], volume_free_lfqueue := q\<rparr>)))"

definition init_inode :: "nat \<Rightarrow> 'm nvm \<Rightarrow> 'm nvm res" where
  "init_inode i s = rbind (at_index (inode_table s) i) (\<lambda>e.
     rbind (enq_at (inode_free_lfqueue s) (i mod DEFAULT_NUM_FREE) (of_nat i)) (\<lambda>qs.
       Inr (s\<lparr>inode_table := (inode_table s)[i := e\<lparr>in_state := FREE, in_lock := False\<rparr>],
              inode_free_lfqueue := qs\<rparr>)))"

definition init_queues :: "(nat \<Rightarrow> u32) \<Rightarrow> 'm nvm \<Rightarrow> 'm nvm" where
  "init_queues raw s =
     (let q = new_lfqueue raw (max_inode_entry s) in
      s\<lparr>inode_free_lfqueue := replicate DEFAULT_NUM_FREE q,
        inode_dirty_lfqueue := replicate (unat (max_volume_entry s)) q,
        inode_dirty_count := 0,
        inode_sync_lfqueue := replicate DEFAULT_NUM_SYNCER q,
        inode_clean_lfqueue := replicate DEFAULT_NUM_BALLOON q,
        inode_free_count := max_inode_entry s\<rparr>)"

text \<open>The low-water mark is \<^verbatim>\<open>max_inode_entry * 0.1\<close> in double precision, cut to an integer.\<close>

definition init_counters :: "'m nvm \<Rightarrow> 'm nvm" where
  "init_counters s =
     s\<lparr>kFlushLwm := word_of_int (trunc (dmul (dbl (uint (max_inode_entry s))) (rnd (1 / 10)))),
       sys_terminate := False, free_enqueue_idx := 0,
       free_dequeue_idx := 0, sync_queue_idx := 0, clean_queue_idx := 0\<rparr>"

text \<open>Rounding never shows: the mark is a tenth of the inodes, rounded down.\<close>

lemma flush_low_water_mark: "unat (kFlushLwm (init_counters s)) = unat (max_inode_entry s) div 10"
proof -
  have "uint (max_inode_entry s) < 2 ^ 32" using uint_lt2p [of "max_inode_entry s"] by simp
  then have "kFlushLwm (init_counters s) = word_of_int (uint (max_inode_entry s) div 10)"
    by (simp add: init_counters_def tenth_of_u32)
  also have "\<dots> = word_of_nat (unat (max_inode_entry s) div 10)"
    by (metis of_int_of_nat_eq of_nat_numeral uint_nat zdiv_int)
  finally show ?thesis using unat_u32_less [of "max_inode_entry s"] by (simp add: unat_of_nat_u64)
qed

definition nvm_system_init :: "(nat \<Rightarrow> u32) \<Rightarrow> 'm nvm \<Rightarrow> 'm nvm res" where
  "nvm_system_init raw s =
     rbind (recovery_start s) (\<lambda>s1.
     let q = new_lfqueue raw (max_volume_entry s1);
         s2 = s1\<lparr>volume_free_lfqueue := q, volume_inuse_lfqueue := q\<rparr> in
     rbind (for_upto init_volume (unat (max_volume_entry s2)) s2) (\<lambda>s3.
     let s4 = init_queues raw s3 in
     rbind (for_upto init_inode (unat (max_inode_entry s4)) s4) (\<lambda>s5.
     Inr (init_counters s5))))"

section \<open>Close\<close>

text \<open>Writing out what is left in the dirty queue of a volume; failures are not noticed.\<close>

definition close_write :: "'m nvm \<Rightarrow> u32 \<Rightarrow> 'm nvm res" where
  "close_write s idx =
     rbind (at_index (inode_table s) (unat idx)) (\<lambda>inode.
     rbind (deref_idx (volume_table s) (in_volume inode)) (\<lambda>ve.
     rbind (at_index (block_table s) (unat (in_block inode))) (\<lambda>blk.
       Inr (s\<lparr>system := snd (sys_pwrite (system s) (ve_fd ve) (take (unat (block_size s)) blk)
              (unat (block_size s) * unat (in_lbn inode)))\<rparr>))))"

lemma close_write_frame: "close_write s idx = Inr s' \<Longrightarrow> \<exists>os. s' = s\<lparr>system := os\<rparr>"
  by (auto simp: close_write_def rbind_Inr_iff)

function close_drain :: "nat \<Rightarrow> 'm nvm \<Rightarrow> 'm nvm res" where
  "close_drain v s =
     rbind (at_index (inode_dirty_lfqueue s) v) (\<lambda>q.
       if is_empty q then Inr s
       else rbind (deq_at (inode_dirty_lfqueue s) v) (\<lambda>(idx, qs).
            rbind (close_write (s\<lparr>inode_dirty_lfqueue := qs\<rparr>) idx) (\<lambda>s'. close_drain v s')))"
  by pat_completeness auto
termination
proof (relation "measure (\<lambda>(v, s). let q = inode_dirty_lfqueue s ! v in
    unat (p_count q) - unat (c_count q))", goal_cases)
  case 1
  show ?case by simp
next
  case (2 v s q r idx qs s')
  then obtain q' where q: "v < length (inode_dirty_lfqueue s)" "q = inode_dirty_lfqueue s ! v"
    "dequeue (inode_dirty_lfqueue s ! v) = Inr (idx, q')" "qs = (inode_dirty_lfqueue s)[v := q']"
    by (auto simp: deq_at_def rbind_Inr_iff at_index_Inr_iff)
  from 2 have "close_write (s\<lparr>inode_dirty_lfqueue := qs\<rparr>) idx = Inr s'" by simp
  then have "inode_dirty_lfqueue s' = qs" using close_write_frame by fastforce
  with 2 q show ?case using dequeue_progress [OF q(3)] by (simp add: Let_def)
qed

declare close_drain.simps [simp del]

text \<open>Closing the volumes: the hash tables are freed, and the pointers to them dangle.\<close>

function close_volumes :: "'m nvm \<Rightarrow> 'm nvm res" where
  "close_volumes s =
     (if is_empty (volume_inuse_lfqueue s) then Inr s
      else rbind (dequeue (volume_inuse_lfqueue s)) (\<lambda>(idx, q).
           rbind (at_index (volume_table s) (unat idx)) (\<lambda>ve.
           close_volumes (s\<lparr>volume_inuse_lfqueue := q, system := sys_close (system s) (ve_fd ve),
             volume_table := (volume_table s)[unat idx := ve\<lparr>ve_table := None\<rparr>]\<rparr>))))"
  by pat_completeness auto
termination
  by (relation "measure (\<lambda>s. let q = volume_inuse_lfqueue s in unat (p_count q) - unat (c_count q))")
     (auto simp: Let_def dest: dequeue_progress)

declare close_volumes.simps [simp del]

definition nvm_system_close :: "'m nvm \<Rightarrow> 'm nvm res" where
  "nvm_system_close s =
     (let s0 = s\<lparr>sys_terminate := True\<rparr> in
      rbind (for_upto close_drain (unat (max_volume_entry s0)) s0) (\<lambda>s1.
      let s2 = s1\<lparr>system := sys_sync (sys_sync (system s1))\<rparr> in
      rbind (for_upto clean_inode (unat (max_inode_entry s2)) s2) (\<lambda>s3.
      close_volumes s3)))"

section \<open>Power failure\<close>

text \<open>
  What the next process finds after this one ended or the power failed: the tables in
  non-volatile memory and the durable files. Descriptors and the C++ heap are gone, and the
  pointers of the volume table into it dangle; the start does not follow them.
\<close>

definition power_failure :: "'m nvm \<Rightarrow> 'm nvm" where
  "power_failure s = s\<lparr>nodes := (\<lambda>_. None), next_node := 0,
     volume_table := map (\<lambda>e. e\<lparr>ve_table := None\<rparr>) (volume_table s),
     system := (system s)\<lparr>fds := (\<lambda>_. None), next_fd := 3, files := durable (system s)\<rparr>\<rparr>"

end
