(* ===== verification/NVM_Inv.thy ===== *)
theory NVM_Inv
  imports NVM_Volume
begin

text \<open>
  What every operation of the program keeps true, in parts: the shapes of the tables and queues,
  who owns which block, which queue holds which inode, how hash tables and inodes point at each
  other, which volumes are open, and what the files hold. Each part is a predicate of a few
  functions of the state, so that an operation's effect on them can be computed first and the
  part re-established by a lemma about the functions. The last section is the abstract store that
  the program implements.
\<close>

section \<open>Functions of the state\<close>

abbreviation "nI s \<equiv> unat (max_inode_entry s)"
abbreviation "nV s \<equiv> unat (max_volume_entry s)"
abbreviation "bsz s \<equiv> unat (block_size s)"

definition idxs :: "u32 lfqueue \<Rightarrow> nat list" where
  "idxs q = map unat (contents q)"

definition st :: "'m nvm \<Rightarrow> nat \<Rightarrow> inode_state" where
  "st s i = in_state (inode_table s ! i)"

text \<open>The block an inode in use caches: volume entry and block number.\<close>

definition key :: "'m nvm \<Rightarrow> nat \<Rightarrow> (nat \<times> u32) option" where
  "key s i = (if i < nI s \<and> st s i \<noteq> FREE
     then map_option (\<lambda>v. (v, in_lbn (inode_table s ! i))) (in_volume (inode_table s ! i)) else None)"

text \<open>The node that the hash table of a volume has for a block.\<close>

definition lookup :: "'m cuckoo \<Rightarrow> 'm nvm \<Rightarrow> nat \<Rightarrow> u32 \<Rightarrow> nat option" where
  "lookup ck s v l = (if v < nV s
     then (case ve_table (volume_table s ! v) of None \<Rightarrow> None | Some t \<Rightarrow> search_hash_node ck t l)
     else None)"

definition vid_of :: "'m nvm \<Rightarrow> nat \<Rightarrow> u32" where
  "vid_of s v = ve_vid (volume_table s ! v)"

text \<open>The volume entries in use; a free entry has the id \<open>0x0U - 1\<close>.\<close>

definition inuse :: "'m nvm \<Rightarrow> nat set" where
  "inuse s = {v. v < nV s \<and> vid_of s v \<noteq> - 1}"

definition data_of :: "'m nvm \<Rightarrow> nat \<Rightarrow> u8 list" where
  "data_of s i = block_table s ! unat (in_block (inode_table s ! i))"

text \<open>Block \<open>l\<close> of a volume's file, as read and as on the device.\<close>

definition file_block :: "'m nvm \<Rightarrow> u32 \<Rightarrow> u32 \<Rightarrow> u8 list" where
  "file_block s vid l = fblock (bsz s) (files (system s) (get_filename vid)) (unat l)"

definition disk_block :: "'m nvm \<Rightarrow> u32 \<Rightarrow> u32 \<Rightarrow> u8 list" where
  "disk_block s vid l = fblock (bsz s) (durable (system s) (get_filename vid)) (unat l)"

section \<open>The parts of the invariant\<close>

text \<open>Inode numbers stay below \<open>2^26\<close>: then their byte offsets fit the 32 bits of the index computation.\<close>

definition shape_inv :: "'m nvm \<Rightarrow> bool" where
  "shape_inv s \<longleftrightarrow>
     length (volume_table s) = nV s \<and> length (inode_table s) = nI s \<and>
     nI s \<le> 2 ^ 26 \<and> 0 < nI s \<and> 0 < bsz s \<and> bsz s < 2 ^ 22 \<and>
     (\<forall>b \<in> set (block_table s). length b = bsz s) \<and>
     length (inode_free_lfqueue s) = DEFAULT_NUM_FREE \<and> length (inode_dirty_lfqueue s) = nV s \<and>
     length (inode_sync_lfqueue s) = DEFAULT_NUM_SYNCER \<and>
     length (inode_clean_lfqueue s) = DEFAULT_NUM_BALLOON"

definition queues_ok :: "nat \<Rightarrow> u32 \<Rightarrow> u32 lfqueue list \<Rightarrow> bool" where
  "queues_ok m c qs \<longleftrightarrow> (\<forall>q \<in> set qs. lfq_ok m q \<and> capacity q = c)"

definition queue_inv :: "nat \<Rightarrow> 'm nvm \<Rightarrow> bool" where
  "queue_inv m s \<longleftrightarrow>
     queues_ok m (max_volume_entry s) [volume_free_lfqueue s, volume_inuse_lfqueue s] \<and>
     queues_ok m (max_inode_entry s) (inode_free_lfqueue s) \<and>
     queues_ok m (max_inode_entry s) (inode_dirty_lfqueue s) \<and>
     queues_ok m (max_inode_entry s) (inode_sync_lfqueue s) \<and>
     queues_ok m (max_inode_entry s) (inode_clean_lfqueue s)"

definition block_owners :: "'m nvm \<Rightarrow> u32 list" where
  "block_owners s = map in_block (inode_table s) @ map ve_block (volume_table s)"

text \<open>No two owners share a block.\<close>

definition block_inv :: "'m nvm \<Rightarrow> bool" where
  "block_inv s \<longleftrightarrow> distinct (block_owners s) \<and> (\<forall>b \<in> set (block_owners s). unat b < length (block_table s))"

definition free_inv :: "'m nvm \<Rightarrow> bool" where
  "free_inv s \<longleftrightarrow>
     (let q0 = idxs (inode_free_lfqueue s ! 0); q1 = idxs (inode_free_lfqueue s ! 1) in
      distinct (q0 @ q1) \<and> set (q0 @ q1) = {i. i < nI s \<and> st s i = FREE} \<and>
      unat (inode_free_count s) = length q0 + length q1 \<and>
      int (length q0) - int (length q1) =
        int (nI s mod 2) + int (unat (free_enqueue_idx s) mod 2) - int (unat (free_dequeue_idx s) mod 2))"

text \<open>
  Dirty inodes are in the queue of their volume, inodes being synced in one of the sync queues,
  and these are locked. While a volume \<open>v\<close> is being flushed, some of its dirty inodes are held by
  the flush thread: out of the queue, and locked.
\<close>

definition dirty_held :: "'m nvm \<Rightarrow> nat \<Rightarrow> nat list \<Rightarrow> bool" where
  "dirty_held s v xs \<longleftrightarrow>
     (\<forall>u < nV s. let ys = idxs (inode_dirty_lfqueue s ! u) @ (if u = v then xs else []) in
        distinct ys \<and> set ys = {i. i < nI s \<and> st s i = DIRTY \<and> in_volume (inode_table s ! i) = Some u}) \<and>
     unat (inode_dirty_count s) = card {i. i < nI s \<and> st s i = DIRTY}"

definition sync_held :: "'m nvm \<Rightarrow> nat list \<Rightarrow> bool" where
  "sync_held s xs \<longleftrightarrow>
     distinct (idxs (inode_sync_lfqueue s ! 0) @ idxs (inode_sync_lfqueue s ! 1)) \<and>
     set (idxs (inode_sync_lfqueue s ! 0) @ idxs (inode_sync_lfqueue s ! 1)) = {i. i < nI s \<and> st s i = SYNC} \<and>
     (\<forall>i < nI s. in_lock (inode_table s ! i) \<longleftrightarrow> st s i = SYNC \<or> i \<in> set xs)"

definition dirty_inv :: "'m nvm \<Rightarrow> bool" where
  "dirty_inv s \<longleftrightarrow>
     (\<forall>v < nV s. distinct (idxs (inode_dirty_lfqueue s ! v)) \<and>
        set (idxs (inode_dirty_lfqueue s ! v)) =
          {i. i < nI s \<and> st s i = DIRTY \<and> in_volume (inode_table s ! i) = Some v}) \<and>
     unat (inode_dirty_count s) = card {i. i < nI s \<and> st s i = DIRTY}"

definition sync_inv :: "'m nvm \<Rightarrow> bool" where
  "sync_inv s \<longleftrightarrow>
     distinct (idxs (inode_sync_lfqueue s ! 0) @ idxs (inode_sync_lfqueue s ! 1)) \<and>
     set (idxs (inode_sync_lfqueue s ! 0) @ idxs (inode_sync_lfqueue s ! 1)) = {i. i < nI s \<and> st s i = SYNC} \<and>
     (\<forall>i < nI s. in_lock (inode_table s ! i) \<longleftrightarrow> st s i = SYNC)"

lemma held_Nil: "dirty_held s v [] = dirty_inv s" "sync_held s [] = sync_inv s"
  by (simp_all add: dirty_inv_def dirty_held_def sync_inv_def sync_held_def Let_def)

text \<open>A clean inode is in some clean queue; entries of those queues may be out of date.\<close>

definition clean_inv :: "'m nvm \<Rightarrow> bool" where
  "clean_inv s \<longleftrightarrow>
     (\<forall>q \<in> set (inode_clean_lfqueue s). \<forall>i \<in> set (idxs q). i < nI s) \<and>
     (\<forall>i < nI s. st s i = CLEAN \<longrightarrow> (\<exists>q \<in> set (inode_clean_lfqueue s). i \<in> set (idxs q)))"

definition volume_inv :: "'m nvm \<Rightarrow> bool" where
  "volume_inv s \<longleftrightarrow>
     (\<forall>v \<in> inuse s. ve_table (volume_table s ! v) \<noteq> None \<and>
        fds (system s) (ve_fd (volume_table s ! v)) = Some (get_filename (vid_of s v)) \<and>
        files (system s) (get_filename (vid_of s v)) \<noteq> None) \<and>
     (\<forall>fd. next_fd (system s) \<le> fd \<longrightarrow> fds (system s) fd = None) \<and> 0 \<le> next_fd (system s) \<and>
     inj_on (vid_of s) (inuse s) \<and>
     (\<forall>v < nV s. v \<notin> inuse s \<longrightarrow> ve_table (volume_table s ! v) = None)"

definition volq_inv :: "'m nvm \<Rightarrow> bool" where
  "volq_inv s \<longleftrightarrow>
     distinct (idxs (volume_free_lfqueue s)) \<and> distinct (idxs (volume_inuse_lfqueue s)) \<and>
     set (idxs (volume_inuse_lfqueue s)) = inuse s \<and>
     set (idxs (volume_free_lfqueue s)) = {..<nV s} - inuse s"

text \<open>
  Hash tables and inodes agree: a node found for a block is either invalid, or it is valid and
  its inode caches that very block; every block cached is found; no two volumes share a node.
\<close>

definition hash_core :: "(nat \<Rightarrow> u32 \<Rightarrow> nat option) \<Rightarrow> (nat \<Rightarrow> (nat option \<times> u32 \<times> bool \<times> bool) option) \<Rightarrow>
    (nat \<Rightarrow> (nat \<times> u32) option) \<Rightarrow> bool" where
  "hash_core lk vw ky \<longleftrightarrow>
     (\<forall>v l a. lk v l = Some a \<longrightarrow> vw a = Some (None, l, False, False) \<or>
        (\<exists>i. vw a = Some (Some i, l, True, False) \<and> ky i = Some (v, l))) \<and>
     (\<forall>i v l. ky i = Some (v, l) \<longrightarrow> (\<exists>a. lk v l = Some a \<and> vw a = Some (Some i, l, True, False))) \<and>
     (\<forall>v l v' l' a. lk v l = Some a \<longrightarrow> lk v' l' = Some a \<longrightarrow> v = v')"

definition hash_inv :: "'m cuckoo \<Rightarrow> 'm nvm \<Rightarrow> bool" where
  "hash_inv ck s \<longleftrightarrow>
     hash_core (lookup ck s) (view (nodes s)) (key s) \<and>
     (\<forall>i < nI s. st s i \<noteq> FREE \<longrightarrow> (\<exists>v \<in> inuse s. in_volume (inode_table s ! i) = Some v)) \<and>
     (\<forall>a \<ge> next_node s. nodes s a = None) \<and>
     (\<forall>v t. v < nV s \<longrightarrow> ve_table (volume_table s ! v) = Some t \<longrightarrow> tail_ok (nodes s) t)"

text \<open>
  The last block number is never used: the next one would wrap around. What the files hold: the data of an inode being synced has been written, that of a clean one is
  durable, and a block that no inode caches is the same on the device as in the file.
\<close>

definition cached :: "'m nvm \<Rightarrow> u32 \<Rightarrow> u32 \<Rightarrow> bool" where
  "cached s vid l \<longleftrightarrow> (\<exists>i v. key s i = Some (v, l) \<and> vid_of s v = vid)"

definition disk_inv :: "'m nvm \<Rightarrow> bool" where
  "disk_inv s \<longleftrightarrow>
     (\<forall>i v l. key s i = Some (v, l) \<longrightarrow> l \<noteq> - 1 \<and>
        (st s i = SYNC \<or> st s i = CLEAN \<longrightarrow> file_block s (vid_of s v) l = data_of s i) \<and>
        (st s i = CLEAN \<longrightarrow> disk_block s (vid_of s v) l = data_of s i)) \<and>
     (\<forall>vid l. \<not> cached s vid l \<longrightarrow> file_block s vid l = disk_block s vid l)"

definition flush_inv :: "'m cuckoo \<Rightarrow> nat \<Rightarrow> 'm nvm \<Rightarrow> nat \<Rightarrow> nat list \<Rightarrow> bool" where
  "flush_inv ck m s v xs \<longleftrightarrow> shape_inv s \<and> queue_inv m s \<and> block_inv s \<and> free_inv s \<and>
     dirty_held s v xs \<and> sync_held s xs \<and> clean_inv s \<and> volume_inv s \<and> hash_inv ck s \<and> disk_inv s"

definition nvm_inv :: "'m cuckoo \<Rightarrow> nat \<Rightarrow> 'm nvm \<Rightarrow> bool" where
  "nvm_inv ck m s \<longleftrightarrow> flush_inv ck m s 0 [] \<and> volq_inv s"

lemma flush_invD:
  assumes "flush_inv ck m s v xs"
  shows "shape_inv s" "queue_inv m s" "block_inv s" "free_inv s" "dirty_held s v xs" "sync_held s xs"
    "clean_inv s" "volume_inv s" "hash_inv ck s" "disk_inv s"
  using assms by (simp_all add: flush_inv_def)

lemma nvm_invD:
  assumes "nvm_inv ck m s"
  shows "shape_inv s" "queue_inv m s" "block_inv s" "free_inv s" "dirty_inv s" "sync_inv s"
    "clean_inv s" "volume_inv s" "hash_inv ck s" "disk_inv s" "volq_inv s"
  using assms by (simp_all add: nvm_inv_def flush_inv_def held_Nil)

lemma nvm_inv_flush: "nvm_inv ck m s \<longleftrightarrow> flush_inv ck m s v [] \<and> volq_inv s"
  by (simp add: nvm_inv_def flush_inv_def held_Nil)

section \<open>The abstract store\<close>

text \<open>
  What a client sees, and what a power failure leaves: for each volume and block its contents,
  from the inode that caches it if there is one and from the device otherwise.
\<close>

definition caching_inode :: "'m nvm \<Rightarrow> u32 \<Rightarrow> u32 \<Rightarrow> nat option" where
  "caching_inode s vid l = find (\<lambda>i. case key s i of None \<Rightarrow> False
     | Some (v, l') \<Rightarrow> vid_of s v = vid \<and> l' = l) [0..<nI s]"

definition abs_store :: "'m nvm \<Rightarrow> u32 \<Rightarrow> u32 \<Rightarrow> u8 list" where
  "abs_store s vid l = (case caching_inode s vid l of Some i \<Rightarrow> data_of s i | None \<Rightarrow> disk_block s vid l)"

section \<open>Hash tables and inodes\<close>

lemma core_cases:
  assumes "hash_core lk vw ky" "lk v l = Some a"
  shows "vw a = Some (None, l, False, False) \<or>
        (\<exists>i. vw a = Some (Some i, l, True, False) \<and> ky i = Some (v, l))"
  using assms by (auto simp: hash_core_def)

lemma core_key:
  assumes "hash_core lk vw ky" "ky i = Some (v, l)"
  shows "\<exists>a. lk v l = Some a \<and> vw a = Some (Some i, l, True, False)"
  using assms by (auto simp: hash_core_def)

lemma core_node:
  assumes "hash_core lk vw ky" "lk v l = Some a" "lk v' l' = Some a"
  shows "v = v' \<and> l = l'"
proof -
  have "v = v'" using assms unfolding hash_core_def by blast
  moreover have "l = l'" using core_cases [OF assms(1,2)] core_cases [OF assms(1,3)] by auto
  ultimately show ?thesis by simp
qed

text \<open>A block is cached by one inode at most.\<close>

lemma core_unique:
  assumes "hash_core lk vw ky" "ky i = Some x" "ky j = Some x"
  shows "i = j"
proof -
  obtain v l where x: "x = (v, l)" by (cases x)
  obtain a where a: "lk v l = Some a" "vw a = Some (Some i, l, True, False)"
    using core_key [OF assms(1)] assms(2) x by blast
  obtain b where b: "lk v l = Some b" "vw b = Some (Some j, l, True, False)"
    using core_key [OF assms(1)] assms(3) x by blast
  from a b show ?thesis by simp
qed

lemma core_new:
  assumes c: "hash_core lk vw ky" and "vw a = None" "lk v l = None" "ky i = None"
  shows "hash_core (lk(v := (lk v)(l \<mapsto> a))) (vw(a \<mapsto> (Some i, l, True, False))) (ky(i \<mapsto> (v, l)))"
proof -
  have fresh: "lk v' l' \<noteq> Some a" for v' l' using core_cases [OF c, of v' l' a] assms(2) by auto
  have old: "lk v' l' = Some b \<Longrightarrow> vw b = Some (None, l', False, False) \<or>
        (\<exists>j. j \<noteq> i \<and> vw b = Some (Some j, l', True, False) \<and> ky j = Some (v', l'))" for v' l' b
    using core_cases [OF c, of v' l' b] assms(4) by auto
  show ?thesis
    unfolding hash_core_def
  proof (intro conjI allI impI, goal_cases)
    case (1 v' l' b)
    show ?case
    proof (cases "v' = v \<and> l' = l")
      case True with 1 show ?thesis by auto
    next
      case False
      then have "lk v' l' = Some b" using 1 by (auto split: if_splits)
      with old [OF this] fresh show ?thesis by auto
    qed
  next
    case (2 j v' l')
    show ?case
    proof (cases "j = i")
      case True with 2 show ?thesis by auto
    next
      case False
      with 2 have j: "ky j = Some (v', l')" by simp
      obtain b where b: "lk v' l' = Some b" "vw b = Some (Some j, l', True, False)"
        using core_key [OF c j] by auto
      then have "\<not> (v' = v \<and> l' = l)" "b \<noteq> a" using assms(3) fresh by auto
      with b show ?thesis by auto
    qed
  next
    case (3 v1 l1 v2 l2 b)
    then show ?case using core_node [OF c] fresh by (auto split: if_splits)
  qed
qed

lemma core_validate:
  assumes c: "hash_core lk vw ky" and a: "lk v l = Some a" "vw a = Some (None, l, False, False)" "ky i = None"
  shows "hash_core lk (vw(a \<mapsto> (Some i, l, True, False))) (ky(i \<mapsto> (v, l)))"
  unfolding hash_core_def
proof (intro conjI allI impI, goal_cases)
  case (1 v' l' b)
  show ?case
  proof (cases "b = a")
    case True
    with core_node [OF c a(1)] 1 show ?thesis by auto
  next
    case False
    with core_cases [OF c 1] a(3) show ?thesis by (auto split: if_splits)
  qed
next
  case (2 j v' l')
  show ?case
  proof (cases "j = i")
    case True with 2 a show ?thesis by auto
  next
    case False
    with 2 have "ky j = Some (v', l')" by simp
    from core_key [OF c this] a(2) show ?thesis by auto
  qed
next
  case (3 v1 l1 v2 l2 b)
  then show ?case using core_node [OF c] by auto
qed

lemma core_delete:
  assumes c: "hash_core lk vw ky" and a: "lk v l = Some a" "ky i = Some (v, l)"
  shows "hash_core lk (vw(a \<mapsto> (None, l, False, False))) (ky(i := None))"
proof -
  have vi: "vw a = Some (Some i, l, True, False)" using core_key [OF c a(2)] a(1) by auto
  show ?thesis
    unfolding hash_core_def
  proof (intro conjI allI impI, goal_cases)
    case (1 v' l' b)
    show ?case
    proof (cases "b = a")
      case True
      with core_node [OF c a(1)] 1 show ?thesis by auto
    next
      case False
      then have "\<not> (v' = v \<and> l' = l)" using 1 a(1) by auto
      then have "ky j = Some (v', l') \<Longrightarrow> j \<noteq> i" for j using a(2) by auto
      with core_cases [OF c 1] False show ?thesis by fastforce
    qed
  next
    case (2 j v' l')
    then have j: "j \<noteq> i" "ky j = Some (v', l')" by (auto split: if_splits)
    obtain b where b: "lk v' l' = Some b" "vw b = Some (Some j, l', True, False)"
      using core_key [OF c j(2)] by blast
    then have "b \<noteq> a" using vi j(1) by auto
    with b show ?case by auto
  next
    case (3 v1 l1 v2 l2 b)
    then show ?case using core_node [OF c] by auto
  qed
qed

section \<open>Queues of an array\<close>

lemma enq_at_ok:
  assumes "k < length qs" "lfq_ok (Suc m) (qs ! k)" "length (contents (qs ! k)) < cap_of (qs ! k)"
  shows "\<exists>q'. enq_at qs k v = Inr (qs[k := q']) \<and> contents q' = contents (qs ! k) @ [v] \<and>
    lfq_ok m q' \<and> capacity q' = capacity (qs ! k)"
proof -
  obtain q' where "enqueue (qs ! k) v = Inr q'" "contents q' = contents (qs ! k) @ [v]"
    "lfq_ok m q'" "capacity q' = capacity (qs ! k)" using enqueue_ok [OF assms(2,3)] .
  with assms(1) show ?thesis by (auto simp: enq_at_def)
qed

lemma deq_at_ok:
  assumes "k < length qs" "lfq_ok m (qs ! k)" "contents (qs ! k) = v # vs"
  shows "\<exists>q'. deq_at qs k = Inr (v, qs[k := q']) \<and> contents q' = vs \<and>
    lfq_ok m q' \<and> capacity q' = capacity (qs ! k)"
proof -
  obtain q' where "dequeue (qs ! k) = Inr (v, q')" "contents q' = vs"
    "lfq_ok m q'" "capacity q' = capacity (qs ! k)" using dequeue_ok [OF assms(2,3)] .
  with assms(1) show ?thesis by (auto simp: deq_at_def)
qed

lemma idxs_less: "i \<in> set (idxs q) \<Longrightarrow> i < 2 ^ 32"
  using unat_u32_less by (auto simp: idxs_def)

lemma contents_idx: "k < length (contents q) \<Longrightarrow> contents q ! k = of_nat (idxs q ! k)"
  by (simp add: idxs_def)

lemma lfq_ok_less: "lfq_ok m (q :: u32 lfqueue) \<Longrightarrow> k \<le> m \<Longrightarrow> lfq_ok k q"
  by (rule lfq.ok_less)

lemma queues_ok_less: "queues_ok m c qs \<Longrightarrow> k \<le> m \<Longrightarrow> queues_ok k c qs"
  by (auto simp: queues_ok_def intro: lfq_ok_less)

lemma queues_ok_update:
  "queues_ok m c qs \<Longrightarrow> lfq_ok m q \<Longrightarrow> capacity q = c \<Longrightarrow> queues_ok m c (qs[k := q])"
  using set_update_subset_insert [of qs k q] by (auto simp: queues_ok_def)

lemma queues_ok_nth: "queues_ok m c qs \<Longrightarrow> k < length qs \<Longrightarrow> lfq_ok m (qs ! k) \<and> capacity (qs ! k) = c"
  by (simp add: queues_ok_def)

lemma rr_2: "rr idx DEFAULT_NUM_FREE = unat idx mod 2" "rr idx DEFAULT_NUM_SYNCER = unat idx mod 2"
  by (simp_all add: rr_def DEFAULT_NUM_FREE_def DEFAULT_NUM_SYNCER_def unat_mod_distrib)

section \<open>Facts of the invariant\<close>

lemma key_Some:
  assumes "key s i = Some (v, l)"
  shows "i < nI s" "st s i \<noteq> FREE" "in_volume (inode_table s ! i) = Some v" "in_lbn (inode_table s ! i) = l"
  using assms by (auto simp: key_def split: if_splits)

lemma inode_inuse:
  assumes "nvm_inv ck m s" "i < nI s" "st s i \<noteq> FREE"
  shows "\<exists>v \<in> inuse s. key s i = Some (v, in_lbn (inode_table s ! i))"
  using nvm_invD(9) [OF assms(1)] assms(2,3) by (auto simp: hash_inv_def key_def)

lemma inuse_less: "v \<in> inuse s \<Longrightarrow> v < nV s"
  by (simp add: inuse_def)

lemma inuse_table: "volume_inv s \<Longrightarrow> v \<in> inuse s \<Longrightarrow> \<exists>t. ve_table (volume_table s ! v) = Some t"
  by (auto simp: volume_inv_def)

lemma owner_block:
  assumes "shape_inv s" "block_inv s"
  shows "i < nI s \<Longrightarrow> unat (in_block (inode_table s ! i)) < length (block_table s)"
    "v < nV s \<Longrightarrow> unat (ve_block (volume_table s ! v)) < length (block_table s)"
  using assms by (auto simp: block_inv_def block_owners_def shape_inv_def)

lemma view_nodes: "view (nodes s) a = Some (p, l, b, x) \<Longrightarrow>
  \<exists>nd. nodes s a = Some nd \<and> hn_inode nd = p \<and> hn_lbn nd = l \<and> hn_is_valid nd = b \<and> hn_mutex nd = x"
  by (auto simp: view_def node_view_def)

lemma lookup_Some:
  assumes "lookup ck s v l = Some a"
  shows "v < nV s" "\<exists>t. ve_table (volume_table s ! v) = Some t \<and> search_hash_node ck t l = Some a"
  using assms by (auto simp: lookup_def split: if_splits option.splits)

lemma queue_member:
  assumes "queue_inv m s"
  shows "k < length (inode_free_lfqueue s) \<Longrightarrow> lfq_ok m (inode_free_lfqueue s ! k) \<and> capacity (inode_free_lfqueue s ! k) = max_inode_entry s"
    "k < length (inode_dirty_lfqueue s) \<Longrightarrow> lfq_ok m (inode_dirty_lfqueue s ! k) \<and> capacity (inode_dirty_lfqueue s ! k) = max_inode_entry s"
    "k < length (inode_sync_lfqueue s) \<Longrightarrow> lfq_ok m (inode_sync_lfqueue s ! k) \<and> capacity (inode_sync_lfqueue s ! k) = max_inode_entry s"
    "k < length (inode_clean_lfqueue s) \<Longrightarrow> lfq_ok m (inode_clean_lfqueue s ! k) \<and> capacity (inode_clean_lfqueue s ! k) = max_inode_entry s"
  using assms by (simp_all add: queue_inv_def queues_ok_def)

lemma queue_inv_less: "queue_inv m s \<Longrightarrow> k \<le> m \<Longrightarrow> queue_inv k s"
  by (auto simp: queue_inv_def intro: queues_ok_less)

lemma nvm_inv_less: "nvm_inv ck m s \<Longrightarrow> k \<le> m \<Longrightarrow> nvm_inv ck k s"
  using queue_inv_less [of m s k] by (simp add: nvm_inv_def flush_inv_def)

lemma dirty_room:
  assumes "shape_inv s" "dirty_inv s" "v < nV s" "i < nI s" "st s i \<noteq> DIRTY"
  shows "length (contents (inode_dirty_lfqueue s ! v)) < nI s"
proof -
  have d: "distinct (idxs (inode_dirty_lfqueue s ! v))" "set (idxs (inode_dirty_lfqueue s ! v)) =
          {i. i < nI s \<and> st s i = DIRTY \<and> in_volume (inode_table s ! i) = Some v}"
    using assms(2,3) by (simp_all add: dirty_inv_def)
  have "length (idxs (inode_dirty_lfqueue s ! v)) < nI s"
    using d assms by (intro distinct_bounded_length [of _ _ i]) auto
  then show ?thesis by (simp add: idxs_def)
qed

lemma inode_not_spare:
  assumes "block_inv s" "j < length (inode_table s)" "v < length (volume_table s)"
  shows "unat (in_block (inode_table s ! j)) \<noteq> unat (ve_block (volume_table s ! v))"
proof -
  have m: "in_block (inode_table s ! j) \<in> set (map in_block (inode_table s))"
    "ve_block (volume_table s ! v) \<in> set (map ve_block (volume_table s))" using assms(2,3) by simp_all
  have "set (map in_block (inode_table s)) \<inter> set (map ve_block (volume_table s)) = {}"
    using assms(1) unfolding block_inv_def block_owners_def distinct_append by (elim conjE)
  with m have "in_block (inode_table s ! j) \<noteq> ve_block (volume_table s ! v)" by (metis IntI emptyE)
  then show ?thesis by (simp add: word_unat_eq_iff)
qed

lemma key_inuse:
  assumes "hash_inv ck s" "key s i = Some (v, l)"
  shows "v \<in> inuse s"
proof -
  note k = key_Some [OF assms(2)]
  from assms(1) k(1,2) obtain u where "u \<in> inuse s" "in_volume (inode_table s ! i) = Some u"
    unfolding hash_inv_def by blast
  with k(3) show ?thesis by simp
qed

lemma key_unique:
  assumes "hash_inv ck s" "volume_inv s" "key s i = Some (v, l)" "key s j = Some (u, l)" "vid_of s v = vid_of s u"
  shows "i = j \<and> u = v"
proof -
  have "v \<in> inuse s" "u \<in> inuse s"
    using key_inuse [OF assms(1)] assms(3,4) by blast+
  then have "u = v" using assms(2,5) by (metis volume_inv_def inj_onD)
  moreover have "hash_core (lookup ck s) (view (nodes s)) (key s)" using assms(1) by (simp add: hash_inv_def)
  ultimately show ?thesis using core_unique assms(3,4) by metis
qed

lemma abs_found:
  assumes "key s i = Some (v, l)" "\<And>j u. key s j = Some (u, l) \<Longrightarrow> vid_of s u = vid_of s v \<Longrightarrow> j = i"
  shows "abs_store s (vid_of s v) l = data_of s i"
proof -
  let ?P = "\<lambda>i. case key s i of None \<Rightarrow> False | Some (u, l') \<Rightarrow> vid_of s u = vid_of s v \<and> l' = l"
  have "?P i" "i < nI s" using assms(1) key_Some(1) [OF assms(1)] by auto
  then have "find ?P [0..<nI s] \<noteq> None" by (auto simp: find_None_iff)
  then obtain j where j: "find ?P [0..<nI s] = Some j" by blast
  then have "?P j" by (auto simp: find_Some_iff)
  then obtain u where "key s j = Some (u, l)" "vid_of s u = vid_of s v" by (auto split: option.splits)
  then have "j = i" using assms(2) by blast
  with j show ?thesis by (simp add: abs_store_def caching_inode_def)
qed

lemma abs_cached:
  assumes "hash_inv ck s" "volume_inv s" "key s i = Some (v, l)"
  shows "abs_store s (vid_of s v) l = data_of s i"
  using abs_found [OF assms(3)] key_unique [OF assms] by metis

lemma abs_uncached: "\<not> cached s vid l \<Longrightarrow> abs_store s vid l = disk_block s vid l"
proof -
  assume "\<not> cached s vid l"
  then have "find (\<lambda>i. case key s i of None \<Rightarrow> False | Some (v, l') \<Rightarrow> vid_of s v = vid \<and> l' = l) [0..<nI s] = None"
    by (auto simp: find_None_iff cached_def split: option.splits)
  then show ?thesis by (simp add: abs_store_def caching_inode_def)
qed

lemma dirty_heldD:
  assumes "dirty_held s v xs" "u < nV s"
  shows "u = v \<Longrightarrow> distinct (idxs (inode_dirty_lfqueue s ! u) @ xs)"
    "u = v \<Longrightarrow> set (idxs (inode_dirty_lfqueue s ! u) @ xs) = {i. i < nI s \<and> st s i = DIRTY \<and> in_volume (inode_table s ! i) = Some u}"
    "u \<noteq> v \<Longrightarrow> distinct (idxs (inode_dirty_lfqueue s ! u))"
    "u \<noteq> v \<Longrightarrow> set (idxs (inode_dirty_lfqueue s ! u)) = {i. i < nI s \<and> st s i = DIRTY \<and> in_volume (inode_table s ! i) = Some u}"
proof -
  let ?ys = "idxs (inode_dirty_lfqueue s ! u) @ (if u = v then xs else [])"
  have "distinct ?ys \<and> set ?ys = {i. i < nI s \<and> st s i = DIRTY \<and> in_volume (inode_table s ! i) = Some u}"
    using assms unfolding dirty_held_def Let_def by blast
  then show "u = v \<Longrightarrow> distinct (idxs (inode_dirty_lfqueue s ! u) @ xs)"
    "u = v \<Longrightarrow> set (idxs (inode_dirty_lfqueue s ! u) @ xs) = {i. i < nI s \<and> st s i = DIRTY \<and> in_volume (inode_table s ! i) = Some u}"
    "u \<noteq> v \<Longrightarrow> distinct (idxs (inode_dirty_lfqueue s ! u))"
    "u \<noteq> v \<Longrightarrow> set (idxs (inode_dirty_lfqueue s ! u)) = {i. i < nI s \<and> st s i = DIRTY \<and> in_volume (inode_table s ! i) = Some u}"
    by simp_all
qed

lemma dirty_heldI:
  assumes "\<And>u. u < nV s \<Longrightarrow> u \<noteq> v \<Longrightarrow> distinct (idxs (inode_dirty_lfqueue s ! u)) \<and>
      set (idxs (inode_dirty_lfqueue s ! u)) = {i. i < nI s \<and> st s i = DIRTY \<and> in_volume (inode_table s ! i) = Some u}"
    "v < nV s \<Longrightarrow> distinct (idxs (inode_dirty_lfqueue s ! v) @ xs) \<and>
      set (idxs (inode_dirty_lfqueue s ! v) @ xs) = {i. i < nI s \<and> st s i = DIRTY \<and> in_volume (inode_table s ! i) = Some v}"
    "unat (inode_dirty_count s) = card {i. i < nI s \<and> st s i = DIRTY}"
  shows "dirty_held s v xs"
  unfolding dirty_held_def Let_def
proof (intro conjI allI impI)
  fix u assume u: "u < nV s"
  show "distinct (idxs (inode_dirty_lfqueue s ! u) @ (if u = v then xs else []))"
    "set (idxs (inode_dirty_lfqueue s ! u) @ (if u = v then xs else [])) =
       {i. i < nI s \<and> st s i = DIRTY \<and> in_volume (inode_table s ! i) = Some u}"
    by (cases "u = v"; use assms(1) [OF u] assms(2) u in simp)+
qed (rule assms(3))

lemma held_dirty:
  assumes "dirty_held s v xs" "v < nV s" "i \<in> set xs"
  shows "i < nI s" "st s i = DIRTY" "in_volume (inode_table s ! i) = Some v"
    "key s i = Some (v, in_lbn (inode_table s ! i))"
proof -
  have "i \<in> {i. i < nI s \<and> st s i = DIRTY \<and> in_volume (inode_table s ! i) = Some v}"
    using dirty_heldD(2) [OF assms(1,2)] assms(3) by auto
  then show "i < nI s" "st s i = DIRTY" "in_volume (inode_table s ! i) = Some v"
    "key s i = Some (v, in_lbn (inode_table s ! i))" by (auto simp: key_def)
qed

text \<open>An operation that does not concern the inodes being synced.\<close>

definition sync_frame :: "'m nvm \<Rightarrow> 'm nvm \<Rightarrow> bool" where
  "sync_frame s s' \<longleftrightarrow> disk_block s' = disk_block s \<and> inode_sync_lfqueue s' = inode_sync_lfqueue s \<and>
     sync_option s' = sync_option s \<and> io_error (system s') = io_error (system s) \<and>
     open_fails (system s') = open_fails (system s) \<and> max_inode_entry s' = max_inode_entry s \<and>
     (\<forall>i. st s i = SYNC \<longrightarrow> key s' i = key s i)"

text \<open>The abstract store looks only at inodes in use, and at the ids of their volumes.\<close>

lemma abs_cong_cached:
  assumes "key t = key s" "\<And>i v l. key s i = Some (v, l) \<Longrightarrow> vid_of t v = vid_of s v \<and> data_of t i = data_of s i"
    "disk_block t = disk_block s" "nI t = nI s"
  shows "abs_store t = abs_store s"
proof (intro ext)
  fix x l
  have c: "caching_inode t x l = caching_inode s x l"
    unfolding caching_inode_def assms(1,4) using assms(2) by (intro find_cong) (auto split: option.splits)
  show "abs_store t x l = abs_store s x l"
  proof (cases "caching_inode s x l")
    case None
    then show ?thesis using c assms(3) by (simp add: abs_store_def)
  next
    case (Some i)
    then obtain v where "key s i = Some (v, l)"
      unfolding caching_inode_def by (auto simp: find_Some_iff split: option.splits)
    then show ?thesis using c Some assms(2) by (simp add: abs_store_def)
  qed
qed

text \<open>One inode takes over one block; the others stay as they are.\<close>

lemma abs_store_update:
  assumes h: "hash_inv ck s" "volume_inv s" and v: "v \<in> inuse s"
    and k: "key t = (key s)(i \<mapsto> (v, lbn))"
    and old: "key s i = Some (v, lbn) \<or> key s i = None \<and> (\<forall>j. key s j \<noteq> Some (v, lbn))"
    and vid: "\<And>u. u \<in> inuse s \<Longrightarrow> vid_of t u = vid_of s u"
    and data: "\<And>j. key s j \<noteq> None \<Longrightarrow> j \<noteq> i \<Longrightarrow> data_of t j = data_of s j"
    and disk: "disk_block t = disk_block s"
  shows "abs_store t = (abs_store s)(vid_of s v := (abs_store s (vid_of s v))(lbn := data_of t i))"
proof (intro ext)
  fix x l
  have same: "j = j'" if "key t j = Some (u, l)" "key t j' = Some (u', l)" "vid_of t u = vid_of t u'" for j j' u u' l
  proof -
    have iu: "w \<in> inuse s" if "key t j = Some (w, l)" for j w l
      using that k v key_inuse [OF h(1)] by (auto split: if_splits)
    have e: "vid_of s u = vid_of s u'" using that vid iu by metis
    have "u = u'" using e iu [OF that(1)] iu [OF that(2)] h(2) by (auto simp: volume_inv_def dest: inj_onD)
    show ?thesis
    proof (cases "j = i"; cases "j' = i")
      assume "j \<noteq> i" "j' \<noteq> i"
      then show ?thesis using that k key_unique [OF h, of j u l j' u'] e by simp
    next
      assume "j = i" "j' \<noteq> i"
      then have "key s j' = Some (v, lbn)" using that k \<open>u = u'\<close> by auto
      then show ?thesis using old key_unique [OF h] \<open>j = i\<close> by blast
    next
      assume "j \<noteq> i" "j' = i"
      then have "key s j = Some (v, lbn)" using that k \<open>u = u'\<close> by auto
      then show ?thesis using old key_unique [OF h] \<open>j' = i\<close> by blast
    qed simp
  qed
  show "abs_store t x l = ((abs_store s)(vid_of s v := (abs_store s (vid_of s v))(lbn := data_of t i))) x l"
  proof (cases "x = vid_of s v \<and> l = lbn")
    case True
    have "key t i = Some (v, lbn)" using k by simp
    from abs_found [OF this] same [OF _ this] True vid [OF v] show ?thesis by auto
  next
    case ne: False
    have "abs_store t x l = abs_store s x l"
    proof (cases "cached s x l")
      case True
      then obtain j u where j: "key s j = Some (u, l)" "vid_of s u = x" by (auto simp: cached_def)
      have u: "u \<in> inuse s" using key_inuse [OF h(1) j(1)] .
      have "j \<noteq> i" using j ne old by auto
      then have kj: "key t j = Some (u, l)" using j(1) k by simp
      have "abs_store t (vid_of t u) l = data_of t j" using abs_found [OF kj] same [OF _ kj] by blast
      moreover have "abs_store s x l = data_of s j" using abs_cached [OF h j(1)] j(2) by simp
      ultimately show ?thesis using data [of j] j \<open>j \<noteq> i\<close> vid [OF u] by simp
    next
      case False
      have "\<not> cached t x l"
      proof
        assume "cached t x l"
        then obtain j u where j: "key t j = Some (u, l)" "vid_of t u = x" by (auto simp: cached_def)
        show False
        proof (cases "j = i")
          case True
          then show ?thesis using j k ne vid [OF v] by auto
        next
          case False
          then have "key s j = Some (u, l)" using j(1) k by simp
          then have "cached s x l" using j(2) vid [OF key_inuse [OF h(1)]] unfolding cached_def by fastforce
          with \<open>\<not> cached s x l\<close> show ?thesis by simp
        qed
      qed
      then show ?thesis using False disk by (simp add: abs_uncached)
    qed
    then show ?thesis using ne by auto
  qed
qed

lemma abs_cong:
  assumes "key s' = key s" "vid_of s' = vid_of s" "data_of s' = data_of s" "disk_block s' = disk_block s"
    "nI s' = nI s"
  shows "abs_store s' = abs_store s"
  by (rule abs_cong_cached) (simp_all add: assms)

section \<open>Shared steps of the operations\<close>

text \<open>One clean queue is replaced: no inode that stays clean may lose its entry.\<close>

lemma clean_inv_update:
  assumes inv: "clean_inv s" and q: "inode_clean_lfqueue t = (inode_clean_lfqueue s)[c := q]"
    and c: "c < length (inode_clean_lfqueue s)" and n: "nI t = nI s"
    and new: "\<And>j. j \<in> set (idxs q) \<Longrightarrow> j \<in> set (idxs (inode_clean_lfqueue s ! c)) \<or> j < nI s"
    and keep: "\<And>j. j < nI s \<Longrightarrow> st t j = CLEAN \<Longrightarrow> j \<notin> set (idxs q) \<Longrightarrow>
      st s j = CLEAN \<and> j \<notin> set (idxs (inode_clean_lfqueue s ! c))"
  shows "clean_inv t"
  unfolding clean_inv_def n
proof (intro conjI allI impI ballI)
  fix p j assume p: "p \<in> set (inode_clean_lfqueue t)" "j \<in> set (idxs p)"
  have "p = q \<or> p \<in> set (inode_clean_lfqueue s)" using p(1) set_update_subset_insert q by fastforce
  moreover have "inode_clean_lfqueue s ! c \<in> set (inode_clean_lfqueue s)" using c by simp
  ultimately show "j < nI s" using inv p(2) new by (auto simp: clean_inv_def)
next
  fix j assume j: "j < nI s" "st t j = CLEAN"
  show "\<exists>p \<in> set (inode_clean_lfqueue t). j \<in> set (idxs p)"
  proof (cases "j \<in> set (idxs q)")
    case True
    then show ?thesis using set_update_memI [OF c, of q] q by auto
  next
    case False
    note k = keep [OF j False]
    obtain p' where "p' \<in> set (inode_clean_lfqueue s)" "j \<in> set (idxs p')"
      using inv j(1) k unfolding clean_inv_def by blast
    then obtain p where p: "p < length (inode_clean_lfqueue s)" "j \<in> set (idxs (inode_clean_lfqueue s ! p))"
      by (metis in_set_conv_nth)
    then have "inode_clean_lfqueue t ! p = inode_clean_lfqueue s ! p" using k q by (cases "p = c") auto
    moreover have "inode_clean_lfqueue t ! p \<in> set (inode_clean_lfqueue t)" using p(1) q by simp
    ultimately show ?thesis using p(2) by metis
  qed
qed

text \<open>An inode whose data is durable gives up its block: the files and what the store holds stay.\<close>

lemma uncache:
  assumes hash: "hash_inv ck s" "hash_inv ck t" and vol: "volume_inv s" "volume_inv t" and disk: "disk_inv s"
    and i: "key s i = Some (v, l)" "st s i = CLEAN" and k: "key t = (key s)(i := None)"
    and st: "\<And>j. j \<noteq> i \<Longrightarrow> st t j = st s j"
    and same: "vid_of t = vid_of s" "data_of t = data_of s" "file_block t = file_block s" "disk_block t = disk_block s"
  shows "disk_inv t" "abs_store t = abs_store s"
proof -
  have db: "file_block s (vid_of s v) l = data_of s i" "disk_block s (vid_of s v) l = data_of s i"
    using disk i by (auto simp: disk_inv_def)
  have old: "key s j = Some (u, b) \<and> j \<noteq> i" if "key t j = Some (u, b)" for j u b
    using that k by (auto split: if_splits)
  have cd: "cached t x b \<longleftrightarrow> cached s x b \<and> \<not> (x = vid_of s v \<and> b = l)" for x b
  proof
    assume "cached t x b"
    then obtain j u where j: "key t j = Some (u, b)" "vid_of s u = x" by (auto simp: cached_def same)
    then show "cached s x b \<and> \<not> (x = vid_of s v \<and> b = l)"
      using old [OF j(1)] key_unique [OF hash(1) vol(1) i(1), of j u] by (auto simp: cached_def)
  next
    assume c: "cached s x b \<and> \<not> (x = vid_of s v \<and> b = l)"
    then obtain j u where j: "key s j = Some (u, b)" "vid_of s u = x" by (auto simp: cached_def)
    then have "j \<noteq> i" using c i(1) by auto
    then have "key t j = Some (u, b)" using j(1) k by simp
    then show "cached t x b" using j(2) same(1) by (auto simp: cached_def)
  qed
  show "disk_inv t"
    unfolding disk_inv_def same cd using old disk st db by (fastforce simp: disk_inv_def)
  show "abs_store t = abs_store s"
  proof (intro ext)
    fix x b
    consider j u where "key t j = Some (u, b)" "vid_of s u = x" | "x = vid_of s v" "b = l" "\<not> cached t x b"
      | "\<not> cached s x b" "\<not> cached t x b" using cd [of x b] by (auto simp: cached_def same)
    then show "abs_store t x b = abs_store s x b"
    proof cases
      case 1
      then show ?thesis
        using abs_cached [OF hash(2) vol(2) 1(1)] abs_cached [OF hash(1) vol(1)] old [OF 1(1)] same by auto
    next
      case 2
      then show ?thesis using abs_uncached abs_cached [OF hash(1) vol(1) i(1)] db same by metis
    qed (simp add: abs_uncached same)
  qed
qed

text \<open>One inode changes its state; a state that promises more of the files must keep the promise.\<close>

lemma disk_inv_moved:
  assumes disk: "disk_inv s" and st: "st t = (st s)(i := x)"
    and same: "key t = key s" "data_of t = data_of s" "vid_of t = vid_of s" "file_block t = file_block s" "disk_block t = disk_block s"
    and new: "\<And>v l. key s i = Some (v, l) \<Longrightarrow> (x = SYNC \<or> x = CLEAN \<longrightarrow> file_block s (vid_of s v) l = data_of s i) \<and>
      (x = CLEAN \<longrightarrow> disk_block s (vid_of s v) l = data_of s i)"
  shows "disk_inv t"
proof -
  have c: "cached t = cached s" by (simp add: cached_def same fun_eq_iff)
  have 1: "l \<noteq> - 1 \<and>
      (st t j = SYNC \<or> st t j = CLEAN \<longrightarrow> file_block s (vid_of s u) l = data_of s j) \<and>
      (st t j = CLEAN \<longrightarrow> disk_block s (vid_of s u) l = data_of s j)" if "key s j = Some (u, l)" for j u l
    using disk that st new by (cases "j = i") (simp_all add: disk_inv_def)
  have 2: "\<forall>vid l. \<not> cached s vid l \<longrightarrow> file_block s vid l = disk_block s vid l" using disk by (simp add: disk_inv_def)
  show ?thesis unfolding disk_inv_def c same by (rule conjI [OF _ 2], intro allI impI, rule 1)
qed

text \<open>
  The functions and the parts of the invariant, for an update that most of them do not look at;
  and the queue of the volumes in use, which only \<open>volq_inv\<close> looks at.
\<close>

lemmas state_funs = st_def key_def data_of_def vid_of_def inuse_def file_block_def disk_block_def lookup_def cached_def

lemmas inv_parts = shape_inv_def queue_inv_def block_inv_def block_owners_def free_inv_def clean_inv_def
  volume_inv_def hash_inv_def disk_inv_def dirty_held_def sync_held_def

lemma inuse_queue_inv:
  assumes inv: "flush_inv ck m s v xs" and q: "lfq_ok k q" "capacity q = max_volume_entry s" "k \<le> m"
  shows "flush_inv ck k (s\<lparr>volume_inuse_lfqueue := q\<rparr>) v xs"
    "abs_store (s\<lparr>volume_inuse_lfqueue := q\<rparr>) = abs_store s"
    "st (s\<lparr>volume_inuse_lfqueue := q\<rparr>) = st s" "key (s\<lparr>volume_inuse_lfqueue := q\<rparr>) = key s"
    "inuse (s\<lparr>volume_inuse_lfqueue := q\<rparr>) = inuse s" "vid_of (s\<lparr>volume_inuse_lfqueue := q\<rparr>) = vid_of s"
    "disk_block (s\<lparr>volume_inuse_lfqueue := q\<rparr>) = disk_block s"
proof -
  let ?s = "s\<lparr>volume_inuse_lfqueue := q\<rparr>"
  have fn: "st ?s = st s" "key ?s = key s" "data_of ?s = data_of s" "vid_of ?s = vid_of s" "inuse ?s = inuse s"
    "file_block ?s = file_block s" "disk_block ?s = disk_block s" "lookup ck ?s = lookup ck s" "cached ?s = cached s"
    by (simp_all add: fun_eq_iff state_funs)
  then show "st ?s = st s" "key ?s = key s" "inuse ?s = inuse s" "vid_of ?s = vid_of s" "disk_block ?s = disk_block s"
    by simp_all
  have "queue_inv k s" using queue_inv_less [OF flush_invD(2) [OF inv] q(3)] .
  with inv q show "flush_inv ck k ?s v xs" by (simp add: flush_inv_def inv_parts fn queues_ok_def)
  show "abs_store ?s = abs_store s" by (rule abs_cong) (simp_all add: fn)
qed

end
