(* ===== verification/NVM_Init_Inv.thy ===== *)
theory NVM_Init_Inv
  imports NVM_Init NVM_Inv
begin

text \<open>
  Formatting, recovery and start: what each loop leaves behind, and that the start establishes the
  invariant of the system with the files as the abstract store.
\<close>

section \<open>Formatting\<close>

lemma format_inodes:
  assumes "n \<le> length (inode_table s)"
  shows "for_upto format_inode n s =
     Inr (s\<lparr>inode_table := upd_upto (\<lambda>i e. e\<lparr>in_state := FREE, in_block := of_nat i\<rparr>) n (inode_table s)\<rparr>)"
  using assms by (intro for_upto_eq) (simp_all add: format_inode_def upd_upto_Suc)

lemma format_volumes:
  assumes "n \<le> length (volume_table s)"
  shows "for_upto format_volume n s =
     Inr (s\<lparr>volume_table := upd_upto (\<lambda>i ve. ve\<lparr>ve_block := of_nat i + max_inode_entry s\<rparr>) n (volume_table s)\<rparr>)"
  using assms by (intro for_upto_eq) (simp_all add: format_volume_def upd_upto_Suc)

section \<open>Recovery\<close>

definition unsaved :: "'m nvm \<Rightarrow> nat \<Rightarrow> bool" where
  "unsaved s i \<longleftrightarrow> i < nI s \<and> (st s i = DIRTY \<or> st s i = SYNC)"

definition settle :: "inode_entry \<Rightarrow> inode_entry" where
  "settle e = (if in_state e = DIRTY \<or> in_state e = SYNC then e\<lparr>in_state := CLEAN\<rparr> else e)"

lemma clean_inodes:
  assumes "n \<le> length (inode_table s)"
  shows "for_upto clean_inode n s = Inr (s\<lparr>inode_table := upd_upto (\<lambda>_. settle) n (inode_table s)\<rparr>)"
proof (rule for_upto_eq)
  fix i assume "i < n"
  then have i: "i < length (inode_table s)" using assms by simp
  show "clean_inode i (s\<lparr>inode_table := upd_upto (\<lambda>_. settle) i (inode_table s)\<rparr>) =
    Inr (s\<lparr>inode_table := upd_upto (\<lambda>_. settle) (Suc i) (inode_table s)\<rparr>)"
  proof (cases "in_state (inode_table s ! i) = DIRTY \<or> in_state (inode_table s ! i) = SYNC")
    case True
    then show ?thesis using i
      by (simp add: clean_inode_def set_inode_state_def upd_upto_Suc settle_def)
  next
    case False
    then have "upd_upto (\<lambda>_. settle) i (inode_table s) = upd_upto (\<lambda>_. settle) (Suc i) (inode_table s)"
      using i by (intro upd_upto_keep) (auto simp: settle_def)
    moreover have "settle (inode_table s ! i) = inode_table s ! i" using False by (simp add: settle_def)
    ultimately show ?thesis using False i by (simp add: clean_inode_def)
  qed
qed simp

lemma recovery_filename_other: "recovery_filename a \<noteq> get_filename b"
  by (simp add: recovery_filename_def get_filename_def)

lemma recovery_filename_inj: "recovery_filename a = recovery_filename b \<Longrightarrow> a = b"
  by (auto simp: recovery_filename_def word_unat_eq_iff dest!: to_string_inj)

text \<open>
  What the first loop needs to reach every block: files open, writes succeed, the offsets fit
  32 bits, and no two unsaved inodes are for the same block of the same volume.
\<close>

definition recoverable :: "'m nvm \<Rightarrow> bool" where
  "recoverable s \<longleftrightarrow> \<not> io_error (system s) \<and> (\<forall>x. \<not> open_fails (system s) (recovery_filename x)) \<and>
     (\<forall>i. unsaved s i \<longrightarrow> bsz s * unat (in_lbn (inode_table s ! i)) < 2 ^ 32) \<and>
     (\<forall>i j u v. unsaved s i \<longrightarrow> unsaved s j \<longrightarrow> in_volume (inode_table s ! i) = Some u \<longrightarrow>
        in_volume (inode_table s ! j) = Some v \<longrightarrow> vid_of s u = vid_of s v \<longrightarrow>
        in_lbn (inode_table s ! i) = in_lbn (inode_table s ! j) \<longrightarrow> i = j)"

definition saved_block :: "'m nvm \<Rightarrow> os \<Rightarrow> nat \<Rightarrow> u8 list" where
  "saved_block s os i =
     fblock (bsz s) (files os (recovery_filename (vid_of s (the (in_volume (inode_table s ! i))))))
       (unat (in_lbn (inode_table s ! i)))"

definition recovering :: "'m nvm \<Rightarrow> nat \<Rightarrow> 'm nvm \<Rightarrow> bool" where
  "recovering s n t \<longleftrightarrow> (\<exists>os. t = s\<lparr>system := os\<rparr> \<and> (\<forall>fd. fds os fd = None) \<and> 0 \<le> next_fd os \<and>
     open_fails os = open_fails (system s) \<and> io_error os = io_error (system s) \<and>
     (\<forall>x. files os (get_filename x) = files (system s) (get_filename x)) \<and>
     (recoverable s \<longrightarrow> (\<forall>j < n. unsaved s j \<longrightarrow> saved_block s os j = data_of s j)))"

definition tables_ok :: "'m nvm \<Rightarrow> bool" where
  "tables_ok s \<longleftrightarrow> length (volume_table s) = nV s \<and> length (inode_table s) = nI s \<and>
     (\<forall>b \<in> set (block_table s). length b = bsz s) \<and> block_inv s \<and>
     (\<forall>i. unsaved s i \<longrightarrow> (\<exists>v < nV s. in_volume (inode_table s ! i) = Some v))"

text \<open>The block of another inode is in another recovery file, or elsewhere in the same one.\<close>

lemma saved_block_other:
  assumes g: "recoverable s" and u: "unsaved s i" "unsaved s j" "i \<noteq> j"
    and v: "in_volume (inode_table s ! i) = Some v" "in_volume (inode_table s ! j) = Some w"
    and bl: "length bytes = bsz s"
    and fi: "files os' = (files os)(recovery_filename (vid_of s v) \<mapsto>
      overwrite (case files os (recovery_filename (vid_of s v)) of None \<Rightarrow> [] | Some f \<Rightarrow> f)
        (unat (in_lbn (inode_table s ! i)) * bsz s) bytes)"
  shows "saved_block s os' j = saved_block s os j"
proof (cases "vid_of s w = vid_of s v")
  case True
  then have "in_lbn (inode_table s ! j) \<noteq> in_lbn (inode_table s ! i)"
    using g u v unfolding recoverable_def by metis
  then have "unat (in_lbn (inode_table s ! j)) \<noteq> unat (in_lbn (inode_table s ! i))" by (simp add: word_unat_eq_iff)
  moreover have "fblock n (Some (case f of None \<Rightarrow> [] | Some f \<Rightarrow> f)) l = fblock n f l" for n f l
    by (cases f) (simp_all add: fblock_created)
  ultimately show ?thesis using True bl by (simp add: saved_block_def v fi fblock_overwrite)
next
  case False
  then have "recovery_filename (vid_of s w) \<noteq> recovery_filename (vid_of s v)" using recovery_filename_inj by blast
  then show ?thesis by (simp add: saved_block_def v fi)
qed

lemma recover_step:
  assumes ok: "tables_ok s" and i: "i < nI s" and rec: "recovering s i t"
  shows "\<exists>t'. recover_inode i t = Inr t' \<and> recovering s (Suc i) t'"
proof -
  obtain os where t: "t = s\<lparr>system := os\<rparr>" and os: "\<forall>fd. fds os fd = None" "0 \<le> next_fd os"
    "open_fails os = open_fails (system s)" "io_error os = io_error (system s)"
    "\<forall>x. files os (get_filename x) = files (system s) (get_filename x)"
    and saved: "recoverable s \<longrightarrow> (\<forall>j < i. unsaved s j \<longrightarrow> saved_block s os j = data_of s j)"
    using rec by (auto simp: recovering_def)
  have len: "length (inode_table s) = nI s" "length (volume_table s) = nV s" using ok by (simp_all add: tables_ok_def)
  show ?thesis
  proof (cases "unsaved s i")
    case False
    then have "recover_inode i t = Inr t" using i len by (simp add: recover_inode_def t unsaved_def st_def)
    moreover have "recovering s (Suc i) t"
      using os saved False less_Suc_eq by (auto simp: recovering_def t)
    ultimately show ?thesis by blast
  next
    case True
    let ?e = "inode_table s ! i"
    obtain v where v: "v < nV s" "in_volume ?e = Some v" using ok True unfolding tables_ok_def by blast
    have "in_block ?e \<in> set (block_owners s)" using i len by (simp add: block_owners_def)
    then have blk: "unat (in_block ?e) < length (block_table s)" using ok by (simp add: tables_ok_def block_inv_def)
    then have bl: "length (data_of s i) = bsz s" using ok by (simp add: tables_ok_def data_of_def)
    let ?f = "recovery_filename (vid_of s v)" and ?off = "unat (block_size s * in_lbn ?e)"
    let ?o = "sys_open os ?f"
    let ?os = "sys_close (snd (sys_pwrite (snd ?o) (fst ?o) (data_of s i) ?off)) (fst ?o)"
    have r: "recover_inode i t = Inr (s\<lparr>system := ?os\<rparr>)"
      using True i len v blk bl
      by (simp add: recover_inode_def t unsaved_def st_def data_of_def vid_of_def split_beta Let_def)
    have new: "if open_fails os ?f \<or> io_error os then \<forall>x. x \<noteq> ?f \<longrightarrow> files ?os x = files os x
      else files ?os = (files os)(?f \<mapsto> overwrite (case files os ?f of None \<Rightarrow> [] | Some f \<Rightarrow> f) ?off (data_of s i))"
      using os(1) by (auto simp: sys_open_def sys_pwrite_def sys_close_def fun_eq_iff)
    have same: "files ?os x = files os x" if "x \<noteq> ?f" for x
      using new that by (auto split: if_splits)
    have fs: "fds ?os = fds os" "0 \<le> next_fd ?os" "open_fails ?os = open_fails os" "io_error ?os = io_error os"
      using os(1,2) by (auto simp: sys_open_def sys_pwrite_def sys_close_def fun_eq_iff)
    have "saved_block s ?os j = data_of s j" if g: "recoverable s" and j: "j < Suc i" "unsaved s j" for j
    proof -
      have off: "?off = unat (in_lbn ?e) * bsz s"
      proof -
        have "bsz s * unat (in_lbn ?e) < 2 ^ 32" using g True by (simp add: recoverable_def)
        then show ?thesis by (simp add: unat_word_ariths mult.commute)
      qed
      have "\<not> (open_fails os ?f \<or> io_error os)" using g os(3,4) by (simp add: recoverable_def)
      with new have fi: "files ?os = (files os)(?f \<mapsto>
          overwrite (case files os ?f of None \<Rightarrow> [] | Some f \<Rightarrow> f) (unat (in_lbn ?e) * bsz s) (data_of s i))"
        by (simp add: off)
      obtain u where u: "in_volume (inode_table s ! j) = Some u" using ok j(2) unfolding tables_ok_def by blast
      show ?thesis
      proof (cases "j = i")
        case True
        then show ?thesis using v bl by (simp add: saved_block_def fi fblock_overwrite)
      next
        case False
        then have old: "saved_block s os j = data_of s j" using saved g j by auto
        then show ?thesis using saved_block_other [OF g True j(2) _ v(2) u bl fi] False by simp
      qed
    qed
    then have "recovering s (Suc i) (s\<lparr>system := ?os\<rparr>)"
      unfolding recovering_def using fs os same recovery_filename_other
      by (intro exI [of _ ?os]) metis
    with r show ?thesis by blast
  qed
qed

lemma recovery_ok:
  assumes ok: "tables_ok s" and fd: "\<forall>fd. fds (system s) fd = None" "0 \<le> next_fd (system s)"
  shows "\<exists>os. recovery_start s = Inr (s\<lparr>system := os,
      inode_table := upd_upto (\<lambda>_. settle) (nI s) (inode_table s)\<rparr>) \<and>
    (\<forall>fd. fds os fd = None) \<and> 0 \<le> next_fd os \<and> durable os = files os \<and>
    open_fails os = open_fails (system s) \<and> io_error os = io_error (system s) \<and>
    (\<forall>x. files os (get_filename x) = files (system s) (get_filename x)) \<and>
    (recoverable s \<longrightarrow> (\<forall>j. unsaved s j \<longrightarrow> saved_block s os j = data_of s j))"
proof -
  have "recovering s 0 s" using fd by (auto simp: recovering_def intro!: exI [of _ "system s"])
  then have "\<exists>t. for_upto recover_inode (nI s) s = Inr t \<and> recovering s (nI s) t"
    by (rule for_upto_inv) (rule recover_step [OF ok])
  then obtain os where os: "for_upto recover_inode (nI s) s = Inr (s\<lparr>system := os\<rparr>)"
    "\<forall>fd. fds os fd = None" "0 \<le> next_fd os" "\<forall>x. files os (get_filename x) = files (system s) (get_filename x)"
    "open_fails os = open_fails (system s)" "io_error os = io_error (system s)"
    "recoverable s \<longrightarrow> (\<forall>j < nI s. unsaved s j \<longrightarrow> saved_block s os j = data_of s j)"
    unfolding recovering_def by blast
  let ?os = "sys_sync (sys_sync os)"
  have "nI s \<le> length (inode_table (s\<lparr>system := ?os\<rparr>))" using ok by (simp add: tables_ok_def)
  from clean_inodes [OF this] have "recovery_start s = Inr (s\<lparr>system := ?os,
      inode_table := upd_upto (\<lambda>_. settle) (nI s) (inode_table s)\<rparr>)"
    by (simp add: recovery_start_def os(1))
  moreover have "saved_block s ?os j = saved_block s os j" for j by (simp add: saved_block_def sys_sync_def)
  ultimately show ?thesis using os(2-7)
    by (intro exI [of _ ?os]) (auto simp: sys_sync_def unsaved_def)
qed

section \<open>Start\<close>

lemma init_volumes:
  fixes s :: "'m nvm"
  assumes q: "volume_free_lfqueue s = new_lfqueue raw (max_volume_entry s)" and n: "0 < nV s" "nV s \<le> 2 ^ 31"
    and len: "length (volume_table s) = nV s" and m: "nV s + m \<le> 2 ^ 62"
  shows "\<exists>q. for_upto init_volume (nV s) s = Inr (s\<lparr>volume_free_lfqueue := q,
      volume_table := upd_upto (\<lambda>_ ve. ve\<lparr>ve_vid := - 1\<rparr>) (nV s) (volume_table s)\<rparr>) \<and>
    idxs q = [0..<nV s] \<and> lfq_ok m q \<and> capacity q = max_volume_entry s"
proof -
  let ?t = "\<lambda>i. upd_upto (\<lambda>_ ve. ve\<lparr>ve_vid := - 1\<rparr>) i (volume_table s)"
  define P where "P i t \<longleftrightarrow> (\<exists>q. t = s\<lparr>volume_free_lfqueue := q, volume_table := ?t i\<rparr> \<and>
    contents q = map of_nat [0..<i] \<and> lfq_ok (nV s - i + m) q \<and> capacity q = max_volume_entry s)" for i t
  have "P 0 s"
    unfolding P_def using n m
    by (intro exI [of _ "volume_free_lfqueue s"]) (simp add: q lfq_ok_new contents_new, simp add: new_lfqueue_def)
  then have "\<exists>t. for_upto init_volume (nV s) s = Inr t \<and> P (nV s) t"
  proof (rule for_upto_inv)
    fix i t assume i: "i < nV s" "P i t"
    then obtain q where q: "t = s\<lparr>volume_free_lfqueue := q, volume_table := ?t i\<rparr>"
      "contents q = map of_nat [0..<i]" "lfq_ok (Suc (nV s - Suc i + m)) q" "capacity q = max_volume_entry s"
      unfolding P_def by (auto simp: Suc_diff_Suc)
    obtain q' where q': "enqueue q (of_nat i) = Inr q'" "contents q' = contents q @ [of_nat i]"
      "lfq_ok (nV s - Suc i + m) q'" "capacity q' = capacity q"
      using lfq.enq_room [OF q(3), of "of_nat i"] q(2,4) i by (auto simp: word_unat_eq_iff)
    show "\<exists>t'. init_volume i t = Inr t' \<and> P (Suc i) t'"
      unfolding P_def using i q' q len
      by (intro exI conjI) (auto simp: init_volume_def upd_upto_Suc)
  qed
  then obtain q where "for_upto init_volume (nV s) s = Inr (s\<lparr>volume_free_lfqueue := q, volume_table := ?t (nV s)\<rparr>)"
    "contents q = map of_nat [0..<nV s]" "lfq_ok m q" "capacity q = max_volume_entry s"
    unfolding P_def by auto
  moreover from this have "idxs q = [0..<nV s]"
    using unat_u32_less [of "max_volume_entry s"] unfolding idxs_def
    by (simp only: map_map) (intro map_idI; simp add: unat_of_nat_u32)
  ultimately show ?thesis by blast
qed

lemma init_inodes:
  fixes s :: "'m nvm"
  assumes q: "inode_free_lfqueue s = replicate DEFAULT_NUM_FREE (new_lfqueue raw (max_inode_entry s))"
    and n: "0 < nI s" "nI s \<le> 2 ^ 31"
    and len: "length (inode_table s) = nI s" and m: "nI s + m \<le> 2 ^ 62"
  shows "\<exists>q0 q1. for_upto init_inode (nI s) s = Inr (s\<lparr>inode_free_lfqueue := [q0, q1],
      inode_table := upd_upto (\<lambda>_ e. e\<lparr>in_state := FREE, in_lock := False\<rparr>) (nI s) (inode_table s)\<rparr>) \<and>
    idxs q0 = filter even [0..<nI s] \<and> idxs q1 = filter odd [0..<nI s] \<and>
    lfq_ok m q0 \<and> lfq_ok m q1 \<and> capacity q0 = max_inode_entry s \<and> capacity q1 = max_inode_entry s"
proof -
  let ?t = "\<lambda>i. upd_upto (\<lambda>_ e. e\<lparr>in_state := FREE, in_lock := False\<rparr>) i (inode_table s)"
  define P where "P i t \<longleftrightarrow> (\<exists>q0 q1. t = s\<lparr>inode_free_lfqueue := [q0, q1], inode_table := ?t i\<rparr> \<and>
    contents q0 = map of_nat (filter even [0..<i]) \<and> contents q1 = map of_nat (filter odd [0..<i]) \<and>
    lfq_ok (nI s - i + m) q0 \<and> lfq_ok (nI s - i + m) q1 \<and>
    capacity q0 = max_inode_entry s \<and> capacity q1 = max_inode_entry s)" for i t
  let ?q = "new_lfqueue raw (max_inode_entry s)"
  have nq: "lfq_ok (nI s - 0 + m) ?q" "contents ?q = []" "capacity ?q = max_inode_entry s"
    using n m by (simp_all add: lfq_ok_new contents_new) (simp add: new_lfqueue_def)
  have "P 0 s"
    unfolding P_def using nq q
    by (intro exI [of _ ?q]) (simp add: DEFAULT_NUM_FREE_def numeral_2_eq_2)
  then have "\<exists>t. for_upto init_inode (nI s) s = Inr t \<and> P (nI s) t"
  proof (rule for_upto_inv)
    fix i t assume i: "i < nI s" "P i t"
    then obtain q0 q1 where t: "t = s\<lparr>inode_free_lfqueue := [q0, q1], inode_table := ?t i\<rparr>"
      and c: "contents q0 = map of_nat (filter even [0..<i])" "contents q1 = map of_nat (filter odd [0..<i])"
      and ok: "lfq_ok (Suc (nI s - Suc i + m)) q0" "lfq_ok (Suc (nI s - Suc i + m)) q1"
      and cap: "capacity q0 = max_inode_entry s" "capacity q1 = max_inode_entry s"
      unfolding P_def by (auto simp: Suc_diff_Suc)
    note le = ok [THEN lfq_ok_less, of "nI s - Suc i + m"]
    have room: "length (contents q0) < cap_of q0" "length (contents q1) < cap_of q1"
      using i by (simp_all add: c cap length_filter_parity)
    obtain p0 where p0: "enqueue q0 (of_nat i) = Inr p0" "contents p0 = contents q0 @ [of_nat i]"
      "lfq_ok (nI s - Suc i + m) p0" "capacity p0 = capacity q0"
      using lfq.enq_room [OF ok(1) room(1), of "of_nat i"] by (auto simp: word_unat_eq_iff)
    obtain p1 where p1: "enqueue q1 (of_nat i) = Inr p1" "contents p1 = contents q1 @ [of_nat i]"
      "lfq_ok (nI s - Suc i + m) p1" "capacity p1 = capacity q1"
      using lfq.enq_room [OF ok(2) room(2), of "of_nat i"] by (auto simp: word_unat_eq_iff)
    have b: "init_inode i t = Inr (s\<lparr>inode_free_lfqueue := (if even i then [p0, q1] else [q0, p1]),
        inode_table := ?t (Suc i)\<rparr>)"
    proof (cases "even i")
      case True
      then have "i mod 2 = 0" by presburger
      with True show ?thesis using i len p0
        by (simp add: init_inode_def t enq_at_def DEFAULT_NUM_FREE_def upd_upto_Suc)
    next
      case False
      then have "i mod 2 = 1" by presburger
      with False show ?thesis using i len p1
        by (simp add: init_inode_def t enq_at_def DEFAULT_NUM_FREE_def upd_upto_Suc)
    qed
    have "P (Suc i) (s\<lparr>inode_free_lfqueue := (if even i then [p0, q1] else [q0, p1]), inode_table := ?t (Suc i)\<rparr>)"
    proof (cases "even i")
      case True
      with p0 c cap le show ?thesis unfolding P_def by (intro exI [of _ p0] exI [of _ q1]) simp
    next
      case False
      with p1 c cap le show ?thesis unfolding P_def by (intro exI [of _ q0] exI [of _ p1]) simp
    qed
    with b show "\<exists>t'. init_inode i t = Inr t' \<and> P (Suc i) t'" by blast
  qed
  then obtain q0 q1 where q01: "for_upto init_inode (nI s) s = Inr (s\<lparr>inode_free_lfqueue := [q0, q1], inode_table := ?t (nI s)\<rparr>)"
    "contents q0 = map of_nat (filter even [0..<nI s])" "contents q1 = map of_nat (filter odd [0..<nI s])"
    "lfq_ok m q0" "lfq_ok m q1" "capacity q0 = max_inode_entry s" "capacity q1 = max_inode_entry s"
    unfolding P_def by auto
  have "idxs q0 = filter even [0..<nI s]" "idxs q1 = filter odd [0..<nI s]"
    using unat_u32_less [of "max_inode_entry s"] unfolding idxs_def q01(2,3) map_map
    by (intro map_idI; simp add: unat_of_nat_u32)+
  with q01 show ?thesis by blast
qed

text \<open>
  What a start requires: formatted tables, and a process that has just begun. How it leaves the
  queues and tables.
\<close>

definition boot_ok :: "'m nvm \<Rightarrow> bool" where
  "boot_ok s \<longleftrightarrow> tables_ok s \<and> 0 < nI s \<and> nI s \<le> 2 ^ 26 \<and> 0 < nV s \<and> nV s \<le> 2 ^ 31 \<and>
     0 < bsz s \<and> bsz s < 2 ^ 22 \<and> (\<forall>v < nV s. ve_table (volume_table s ! v) = None) \<and>
     (\<forall>fd. fds (system s) fd = None) \<and> 0 \<le> next_fd (system s) \<and> (\<forall>a \<ge> next_node s. nodes s a = None)"

definition started :: "(nat \<Rightarrow> u32) \<Rightarrow> 'm nvm \<Rightarrow> os \<Rightarrow> u32 lfqueue \<Rightarrow> u32 lfqueue \<Rightarrow> u32 lfqueue \<Rightarrow> 'm nvm" where
  "started raw s os fq q0 q1 =
     init_counters ((init_queues raw (s\<lparr>system := os,
       inode_table := upd_upto (\<lambda>_. settle) (nI s) (inode_table s),
       volume_free_lfqueue := new_lfqueue raw (max_volume_entry s),
       volume_inuse_lfqueue := new_lfqueue raw (max_volume_entry s)\<rparr>
      \<lparr>volume_free_lfqueue := fq, volume_table := upd_upto (\<lambda>_ ve. ve\<lparr>ve_vid := - 1\<rparr>) (nV s) (volume_table s)\<rparr>))
     \<lparr>inode_free_lfqueue := [q0, q1], inode_table :=
        upd_upto (\<lambda>_ e. e\<lparr>in_state := FREE, in_lock := False\<rparr>) (nI s)
          (upd_upto (\<lambda>_. settle) (nI s) (inode_table s))\<rparr>)"

lemma system_init_started:
  assumes b: "boot_ok s" and m: "m \<le> 2 ^ 61"
  shows "\<exists>os fq q0 q1. nvm_system_init raw s = Inr (started raw s os fq q0 q1) \<and>
    (\<forall>fd. fds os fd = None) \<and> 0 \<le> next_fd os \<and> durable os = files os \<and>
    open_fails os = open_fails (system s) \<and> io_error os = io_error (system s) \<and>
    (\<forall>x. files os (get_filename x) = files (system s) (get_filename x)) \<and>
    (recoverable s \<longrightarrow> (\<forall>j. unsaved s j \<longrightarrow> saved_block s os j = data_of s j)) \<and>
    idxs fq = [0..<nV s] \<and> lfq_ok m fq \<and> capacity fq = max_volume_entry s \<and>
    idxs q0 = filter even [0..<nI s] \<and> idxs q1 = filter odd [0..<nI s] \<and>
    lfq_ok m q0 \<and> lfq_ok m q1 \<and> capacity q0 = max_inode_entry s \<and> capacity q1 = max_inode_entry s"
proof -
  have B: "tables_ok s" "0 < nI s" "nI s \<le> 2 ^ 31" "0 < nV s" "nV s \<le> 2 ^ 31"
    "\<forall>fd. fds (system s) fd = None" "0 \<le> next_fd (system s)"
    "length (inode_table s) = nI s" "length (volume_table s) = nV s"
    "nI s + m \<le> 2 ^ 62" "nV s + m \<le> 2 ^ 62"
    using b m by (simp_all add: boot_ok_def tables_ok_def)
  let ?it = "upd_upto (\<lambda>_. settle) (nI s) (inode_table s)"
  obtain os where os: "recovery_start s = Inr (s\<lparr>system := os, inode_table := ?it\<rparr>)"
    "\<forall>fd. fds os fd = None" "0 \<le> next_fd os" "durable os = files os"
    "open_fails os = open_fails (system s)" "io_error os = io_error (system s)"
    "\<forall>x. files os (get_filename x) = files (system s) (get_filename x)"
    "recoverable s \<longrightarrow> (\<forall>j. unsaved s j \<longrightarrow> saved_block s os j = data_of s j)"
    using recovery_ok [OF B(1,6,7)] by blast
  let ?q = "new_lfqueue raw (max_volume_entry s)"
  let ?s2 = "s\<lparr>system := os, inode_table := ?it, volume_free_lfqueue := ?q, volume_inuse_lfqueue := ?q\<rparr>"
  let ?vt = "upd_upto (\<lambda>_ ve. ve\<lparr>ve_vid := - 1\<rparr>) (nV s) (volume_table s)"
  obtain fq where fq: "for_upto init_volume (nV s) ?s2 = Inr (?s2\<lparr>volume_free_lfqueue := fq, volume_table := ?vt\<rparr>)"
    "idxs fq = [0..<nV s]" "lfq_ok m fq" "capacity fq = max_volume_entry s"
    using init_volumes [of ?s2 raw m] B by auto
  let ?s4 = "init_queues raw (?s2\<lparr>volume_free_lfqueue := fq, volume_table := ?vt\<rparr>)"
  obtain q0 q1 where q01: "for_upto init_inode (nI s) ?s4 = Inr (?s4\<lparr>inode_free_lfqueue := [q0, q1],
      inode_table := upd_upto (\<lambda>_ e. e\<lparr>in_state := FREE, in_lock := False\<rparr>) (nI s) ?it\<rparr>)"
    "idxs q0 = filter even [0..<nI s]" "idxs q1 = filter odd [0..<nI s]"
    "lfq_ok m q0" "lfq_ok m q1" "capacity q0 = max_inode_entry s" "capacity q1 = max_inode_entry s"
    using init_inodes [of ?s4 raw m] B by (auto simp: init_queues_def Let_def)
  have "nvm_system_init raw s = Inr (started raw s os fq q0 q1)"
    using os(1) fq(1) q01(1) by (simp add: nvm_system_init_def started_def Let_def init_queues_def)
  with os fq q01 show ?thesis by blast
qed

lemma started_inv:
  assumes b: "boot_ok s" and os: "\<forall>fd. fds os fd = None" "0 \<le> next_fd os" "durable os = files os"
    and fq: "idxs fq = [0..<nV s]" "lfq_ok m fq" "capacity fq = max_volume_entry s"
    and q: "idxs q0 = filter even [0..<nI s]" "idxs q1 = filter odd [0..<nI s]"
      "lfq_ok m q0" "lfq_ok m q1" "capacity q0 = max_inode_entry s" "capacity q1 = max_inode_entry s"
    and m: "m \<le> 2 ^ 61"
  shows "nvm_inv ck m (started raw s os fq q0 q1)" "inuse (started raw s os fq q0 q1) = {}"
    "abs_store (started raw s os fq q0 q1) = disk_block (started raw s os fq q0 q1)"
proof -
  let ?s = "started raw s os fq q0 q1"
  have B: "length (inode_table s) = nI s" "length (volume_table s) = nV s" "0 < nI s" "nI s \<le> 2 ^ 26"
    "0 < nV s" "nV s \<le> 2 ^ 31" "0 < bsz s" "bsz s < 2 ^ 22" "\<forall>v < nV s. ve_table (volume_table s ! v) = None"
    "\<forall>a \<ge> next_node s. nodes s a = None" "\<forall>b \<in> set (block_table s). length b = bsz s" "block_inv s"
    using b by (simp_all add: boot_ok_def tables_ok_def)
  let ?q = "new_lfqueue raw (max_inode_entry s)" and ?vq = "new_lfqueue raw (max_volume_entry s)"
  note ev = started_def init_counters_def init_queues_def Let_def
  have f: "max_inode_entry ?s = max_inode_entry s" "max_volume_entry ?s = max_volume_entry s"
    "block_size ?s = block_size s" "block_table ?s = block_table s" "nodes ?s = nodes s" "next_node ?s = next_node s"
    "volume_free_lfqueue ?s = fq" "volume_inuse_lfqueue ?s = ?vq" "inode_free_lfqueue ?s = [q0, q1]"
    "inode_dirty_lfqueue ?s = replicate (nV s) ?q" "inode_sync_lfqueue ?s = replicate DEFAULT_NUM_SYNCER ?q"
    "inode_clean_lfqueue ?s = replicate DEFAULT_NUM_BALLOON ?q" "inode_dirty_count ?s = 0"
    "inode_free_count ?s = max_inode_entry s" "free_enqueue_idx ?s = 0" "free_dequeue_idx ?s = 0" "system ?s = os"
    "length (inode_table ?s) = nI s" "length (volume_table ?s) = nV s"
    using B by (simp_all add: ev)
  have st: "st ?s i = FREE" "\<not> in_lock (inode_table ?s ! i)" if "i < nI s" for i
    using that B by (simp_all add: ev st_def)
  have blk: "in_block (inode_table ?s ! i) = in_block (inode_table s ! i)" if "i < nI s" for i
    using that B by (simp add: ev settle_def)
  have vt: "volume_table ?s ! v = (volume_table s ! v)\<lparr>ve_vid := - 1\<rparr>" if "v < nV s" for v
    using that B by (simp add: ev)
  have nq: "lfq_ok m ?q" "contents ?q = []" "capacity ?q = max_inode_entry s"
    "lfq_ok m ?vq" "contents ?vq = []" "capacity ?vq = max_volume_entry s"
    using B m by (simp_all add: lfq_ok_new contents_new) (simp_all add: new_lfqueue_def)
  have iq: "idxs ?q = []" "idxs ?vq = []" using nq by (simp_all add: idxs_def)
  show inu: "inuse ?s = {}" using vt by (auto simp: inuse_def f vid_of_def)
  have ky: "key ?s i = None" for i using st [of i] by (auto simp: key_def f)
  have ca: "\<not> cached ?s x l" for x l using ky by (simp add: cached_def)
  have none: "{i. i < nI s \<and> st ?s i = X} = {}" if "X \<noteq> FREE" for X using st that by force
  have shape: "shape_inv ?s"
    using B f by (simp add: shape_inv_def DEFAULT_NUM_FREE_def)
  have queue: "queue_inv m ?s" using nq fq q by (simp add: queue_inv_def queues_ok_def f)
  have "map in_block (inode_table ?s) = map in_block (inode_table s)"
    using B blk f by (intro nth_equalityI) simp_all
  moreover have "map ve_block (volume_table ?s) = map ve_block (volume_table s)"
    using B vt f by (intro nth_equalityI) simp_all
  ultimately have block: "block_inv ?s" using B(12) by (simp add: block_inv_def block_owners_def f)
  have free: "free_inv ?s"
  proof -
    have "{i. i < nI s \<and> st ?s i = FREE} = {..<nI s}" using st by auto
    moreover have "int (length (filter even [0..<nI s])) - int (length (filter odd [0..<nI s])) = int (nI s mod 2)"
      unfolding length_filter_parity by presburger
    moreover have "nI s = length (filter even [0..<nI s]) + length (filter odd [0..<nI s])"
      unfolding length_filter_parity by presburger
    ultimately show ?thesis
      by (auto simp: free_inv_def f Let_def q)
  qed
  have dirty: "dirty_inv ?s" using none [of DIRTY] st by (auto simp: dirty_inv_def f iq)
  have sync: "sync_inv ?s" using none [of SYNC] st by (auto simp: sync_inv_def f iq DEFAULT_NUM_SYNCER_def numeral_2_eq_2)
  have clean: "clean_inv ?s" using st by (auto simp: clean_inv_def f iq)
  have vol: "volume_inv ?s" using os vt B(9) by (simp add: volume_inv_def inu f)
  have volq: "volq_inv ?s" using fq(1) by (auto simp: volq_inv_def inu f iq)
  have lk: "lookup ck ?s v l = None" for v l using vt B(9) by (simp add: lookup_def f)
  have hash: "hash_inv ck ?s"
    using st B(9,10) vt by (simp add: hash_inv_def hash_core_def lk ky f)
  have disk: "disk_inv ?s" using os(3) by (simp add: disk_inv_def ky ca file_block_def disk_block_def f)
  show "nvm_inv ck m ?s"
    using shape queue block free dirty sync clean vol volq hash disk by (simp add: nvm_inv_def flush_inv_def held_Nil)
  show "abs_store ?s = disk_block ?s" using abs_uncached [OF ca] by (intro ext)
qed

lemma nvm_system_init_ok:
  assumes b: "boot_ok s" and m: "m \<le> 2 ^ 61"
  shows "\<exists>s'. nvm_system_init raw s = Inr s' \<and> nvm_inv ck m s' \<and> inuse s' = {} \<and>
    abs_store s' = file_block s \<and> block_size s' = block_size s \<and> max_volume_entry s' = max_volume_entry s \<and>
    max_inode_entry s' = max_inode_entry s \<and> inode_free_count s' = max_inode_entry s \<and>
    open_fails (system s') = open_fails (system s) \<and> io_error (system s') = io_error (system s) \<and>
    sync_option s' = sync_option s \<and>
    (recoverable s \<longrightarrow> (\<forall>j. unsaved s j \<longrightarrow> saved_block s (system s') j = data_of s j))"
proof -
  obtain os fq q0 q1 where r: "nvm_system_init raw s = Inr (started raw s os fq q0 q1)"
    and os: "\<forall>fd. fds os fd = None" "0 \<le> next_fd os" "durable os = files os"
    and env: "open_fails os = open_fails (system s)" "io_error os = io_error (system s)"
    and same: "\<forall>x. files os (get_filename x) = files (system s) (get_filename x)"
    and saved: "recoverable s \<longrightarrow> (\<forall>j. unsaved s j \<longrightarrow> saved_block s os j = data_of s j)"
    and q: "idxs fq = [0..<nV s]" "lfq_ok m fq" "capacity fq = max_volume_entry s"
    "idxs q0 = filter even [0..<nI s]" "idxs q1 = filter odd [0..<nI s]"
    "lfq_ok m q0" "lfq_ok m q1" "capacity q0 = max_inode_entry s" "capacity q1 = max_inode_entry s"
    using system_init_started [OF b m] by blast
  note I = started_inv [OF b os q m, where raw = raw]
  let ?s = "started raw s os fq q0 q1"
  have f: "system ?s = os" "block_size ?s = block_size s" "max_volume_entry ?s = max_volume_entry s"
    "max_inode_entry ?s = max_inode_entry s" "inode_free_count ?s = max_inode_entry s" "sync_option ?s = sync_option s"
    by (simp_all add: started_def init_counters_def init_queues_def Let_def)
  have "disk_block ?s = file_block s"
    using os(3) same by (intro ext) (simp add: disk_block_def file_block_def f)
  with I r f env saved show ?thesis by (intro exI [of _ ?s]) simp
qed

text \<open>The clean queues are empty after a start.\<close>

lemma init_clean_queues:
  assumes b: "boot_ok s" and r: "nvm_system_init raw s = Inr s'"
  shows "\<forall>q \<in> set (inode_clean_lfqueue s'). contents q = []"
proof -
  have "nI s \<le> 2 ^ 26" "0 < nI s" using b by (simp_all add: boot_ok_def)
  moreover obtain os fq q0 q1 where "s' = started raw s os fq q0 q1"
    using system_init_started [OF b, of 0 raw] r by fastforce
  ultimately show ?thesis by (simp add: started_def init_counters_def init_queues_def Let_def contents_new)
qed

end
