(* ===== verification/NVM_Flush.thy ===== *)
theory NVM_Flush
  imports NVM_Volume
begin

text \<open>
  The flush threads (\<^verbatim>\<open>src/nvm0flush.cc\<close>): taking dirty inodes of a volume from its queue and
  locking them, writing runs of consecutive blocks with one \<^verbatim>\<open>pwritev\<close>, and handing the inodes
  on to the sync queues, still locked. The build without \<^verbatim>\<open>TEMP_FIX\<close>, which the header selects.
\<close>

section \<open>Taking dirty inodes\<close>

text \<open>
  The first loop of \<open>nvm_flush\<close>. \<open>i_idxs\<close> is the part of the array filled so far, so its length
  is \<open>i\<close>. An inode whose lock is held goes back to the end of the queue; \<open>write_size\<close> shrinks
  with the number of dirty inodes once that is below the batch size.
\<close>

function flush_acquire ::
    "'m nvm \<Rightarrow> nat \<Rightarrow> int \<Rightarrow> int \<Rightarrow> u32 list \<Rightarrow> (u32 list \<times> 'm nvm) res" where
  "flush_acquire s v write_size num_dirty i_idxs =
     (if int (length i_idxs) < write_size then
        rbind (deq_at (inode_dirty_lfqueue s) v) (\<lambda>(idx, qs).
        let s1 = s\<lparr>inode_dirty_lfqueue := qs\<rparr> in
        rbind (at_index (inode_table s1) (unat idx)) (\<lambda>inode.
        if in_lock inode then
          rbind (enq_at (inode_dirty_lfqueue s1) v idx) (\<lambda>qs'.
          let num' = num_dirty - 1 in
          flush_acquire (s1\<lparr>inode_dirty_lfqueue := qs'\<rparr>) v
            (if num' < FLUSH_BATCH_SIZE then write_size - 1 else write_size) num' i_idxs)
        else
          rbind (lock_inode s1 (unat idx)) (\<lambda>s2.
          flush_acquire s2 v write_size num_dirty (i_idxs @ [idx]))))
      else Inr (i_idxs, s))"
  by pat_completeness auto
termination
  by (relation "measure (\<lambda>(s, v, w, d, xs). nat (w - int (length xs)) + nat (d - FLUSH_BATCH_SIZE + 1))")
     (auto simp: FLUSH_BATCH_SIZE_def)

declare flush_acquire.simps [simp del]

section \<open>Writing a batch\<close>

text \<open>The look-ahead: how many of the following blocks continue the run.\<close>

fun run_length :: "u32 \<Rightarrow> u32 list \<Rightarrow> nat" where
  "run_length lbn [] = 0"
| "run_length lbn (lbn2 # ls) = (if lbn2 = lbn + 1 then Suc (run_length lbn2 ls) else 0)"

text \<open>The indices were checked against the table when they were taken.\<close>

definition lbn_of :: "'m nvm \<Rightarrow> u32 \<Rightarrow> u32" where
  "lbn_of s i = in_lbn (inode_table s ! unat i)"

definition batch_count :: "'m nvm \<Rightarrow> u32 list \<Rightarrow> nat" where
  "batch_count s i_idxs =
     (case map (lbn_of s) i_idxs of [] \<Rightarrow> 0 | lbn # ls \<Rightarrow> Suc (run_length lbn ls))"

text \<open>
  The vector of buffers, as the bytes it gathers. Each entry asks for the size of the file, does
  not use it, but fails when the file does not exist.
\<close>

fun flush_iov :: "'m nvm \<Rightarrow> 'm volume_entry \<Rightarrow> u32 list \<Rightarrow> u8 list res" where
  "flush_iov s ve [] = Inr []"
| "flush_iov s ve (i # rest) =
     rbind (at_index (inode_table s) (unat i)) (\<lambda>inode.
     rbind (at_index (block_table s) (unat (in_block inode))) (\<lambda>blk.
     rbind (get_filesize (system s) (ve_vid ve)) (\<lambda>file_size.
     rbind (flush_iov s ve rest) (\<lambda>bytes. Inr (take (unat (block_size s)) blk @ bytes)))))"

fun enqueue_into_sync :: "'m nvm \<Rightarrow> u32 list \<Rightarrow> 'm nvm res" where
  "enqueue_into_sync s [] = Inr s"
| "enqueue_into_sync s (i # rest) =
     (let s1 = s\<lparr>inode_dirty_count := inode_dirty_count s - 1\<rparr> in
      rbind (set_inode_state s1 (unat i) SYNC) (\<lambda>s2.
      rbind (enq_at (inode_sync_lfqueue s2) (rr (sync_queue_idx s2) DEFAULT_NUM_SYNCER) i) (\<lambda>qs.
      enqueue_into_sync (s2\<lparr>inode_sync_lfqueue := qs, sync_queue_idx := sync_queue_idx s2 + 1,
        mon := (mon s2)\<lparr>mon_sync := mon_sync (mon s2) + 1\<rparr>\<rparr>) rest)))"

text \<open>
  The offset is a product in \<^verbatim>\<open>off_t\<close>; the number of bytes expected is a product in 32 bits.
\<close>

definition flush_batch :: "'m nvm \<Rightarrow> nat \<Rightarrow> u32 list \<Rightarrow> 'm nvm res" where
  "flush_batch s v batch =
     rbind (at_index (volume_table s) v) (\<lambda>ve.
     rbind (flush_iov s ve batch) (\<lambda>bytes.
     rbind (deref_idx (inode_table s) (Some (unat (hd batch)))) (\<lambda>start_inode.
     rbind (deref_idx (volume_table s) (in_volume start_inode)) (\<lambda>sve.
     let (bytes_written, os) = sys_pwrite (system s) (ve_fd sve) bytes
           (unat (block_size s) * unat (in_lbn start_inode)) in
     if bytes_written \<noteq> uint (block_size s * of_nat (length batch)) then Inl Exited
     else enqueue_into_sync (s\<lparr>system := os\<rparr>) batch))))"

function flush_batches :: "'m nvm \<Rightarrow> nat \<Rightarrow> u32 list \<Rightarrow> 'm nvm res" where
  "flush_batches s v i_idxs =
     (if i_idxs = [] then Inr s
      else let n = batch_count s i_idxs in
        rbind (flush_batch s v (take n i_idxs)) (\<lambda>s'. flush_batches s' v (drop n i_idxs)))"
  by pat_completeness auto
termination
  by (relation "measure (\<lambda>(s, v, xs). length xs)") (auto simp: batch_count_def split: list.splits)

declare flush_batches.simps [simp del]

section \<open>The flush\<close>

text \<open>One dirty inode always stays behind: the count starts at the size of the queue less one.\<close>

definition nvm_flush :: "'m nvm \<Rightarrow> nat \<Rightarrow> 'm nvm res" where
  "nvm_flush s v =
     rbind (at_index (inode_dirty_lfqueue s) v) (\<lambda>q.
     let num_dirty = sint (get_size q - 1);
         write_size = (if num_dirty \<ge> FLUSH_BATCH_SIZE then FLUSH_BATCH_SIZE else num_dirty) in
     rbind (flush_acquire s v write_size num_dirty []) (\<lambda>(i_idxs, s1).
     flush_batches s1 v i_idxs))"

text \<open>One round of the thread's loop.\<close>

definition flush_thread_round :: "'m nvm \<Rightarrow> 'm nvm res" where
  "flush_thread_round s =
     (if ucast (inode_dirty_count s) < kFlushLwm s then Inr s
      else if get_size (volume_inuse_lfqueue s) = 0 then Inr s
      else
        rbind (dequeue (volume_inuse_lfqueue s)) (\<lambda>(v, q).
        let s1 = s\<lparr>volume_inuse_lfqueue := q\<rparr> in
        rbind (at_index (inode_dirty_lfqueue s1) (unat v)) (\<lambda>dq.
        rbind (if get_size dq > 1 then nvm_flush s1 (unat v) else Inr s1) (\<lambda>s2.
        rbind (enqueue (volume_inuse_lfqueue s2) v) (\<lambda>q'.
          Inr (s2\<lparr>volume_inuse_lfqueue := q'\<rparr>))))))"

end
