(* ===== verification/NVM_Flush_Inv.thy ===== *)
theory NVM_Flush_Inv
  imports NVM_Flush NVM_Inv
begin

text \<open>
  A flush keeps the invariant and leaves the abstract store as it is: while the thread holds inodes
  of a volume the invariant \<open>flush_inv\<close> names them; each batch first reaches the file and only then
  changes the state of its inodes.
\<close>

section \<open>Taking one inode\<close>

text \<open>The fields a flush leaves alone.\<close>

definition flush_frame :: "'m nvm \<Rightarrow> 'm nvm \<Rightarrow> bool" where
  "flush_frame s s' \<longleftrightarrow> max_volume_entry s' = max_volume_entry s \<and> max_inode_entry s' = max_inode_entry s \<and>
     block_size s' = block_size s \<and> volume_table s' = volume_table s \<and>
     block_table s' = block_table s \<and> volume_free_lfqueue s' = volume_free_lfqueue s \<and>
     volume_inuse_lfqueue s' = volume_inuse_lfqueue s \<and> length (inode_table s') = length (inode_table s) \<and>
     inode_clean_lfqueue s' = inode_clean_lfqueue s \<and>
     (\<forall>j. in_lbn (inode_table s' ! j) = in_lbn (inode_table s ! j)) \<and>
     durable (system s') = durable (system s) \<and> io_error (system s') = io_error (system s) \<and>
     sync_option s' = sync_option s \<and> open_fails (system s') = open_fails (system s) \<and> key s' = key s \<and>
     (\<forall>j. st s' j = st s j \<or> st s j = DIRTY \<and> st s' j = SYNC) \<and>
     (\<forall>k. \<exists>ys. idxs (inode_sync_lfqueue s' ! k) = idxs (inode_sync_lfqueue s ! k) @ ys)"

lemma flush_frame_refl: "flush_frame s s"
  by (simp add: flush_frame_def)

lemma flush_frame_trans:
  assumes "flush_frame s s'" "flush_frame s' s''"
  shows "flush_frame s s''"
proof -
  have "\<exists>zs. idxs (inode_sync_lfqueue s'' ! k) = idxs (inode_sync_lfqueue s ! k) @ zs" for k
    using assms unfolding flush_frame_def by (metis append.assoc)
  moreover have "st s'' j = st s j \<or> st s j = DIRTY \<and> st s'' j = SYNC" for j
    using assms unfolding flush_frame_def by (metis inode_state.distinct(7))
  ultimately show ?thesis using assms by (simp add: flush_frame_def)
qed

definition acquired :: "'m nvm \<Rightarrow> nat \<Rightarrow> u32 lfqueue \<Rightarrow> nat \<Rightarrow> 'm nvm" where
  "acquired s v q i = s\<lparr>inode_dirty_lfqueue := (inode_dirty_lfqueue s)[v := q],
     inode_table := (inode_table s)[i := (inode_table s ! i)\<lparr>in_lock := True\<rparr>]\<rparr>"

lemma acquired_fields:
  "in_lbn (inode_table (acquired s v q i) ! j) = in_lbn (inode_table s ! j)"
  "in_volume (inode_table (acquired s v q i) ! j) = in_volume (inode_table s ! j)"
  "in_block (inode_table (acquired s v q i) ! j) = in_block (inode_table s ! j)"
  "in_state (inode_table (acquired s v q i) ! j) = in_state (inode_table s ! j)"
  by (cases "i < length (inode_table s)"; cases "j = i"; simp add: acquired_def list_update_beyond)+

lemma acquired_length: "length (inode_table (acquired s v q i)) = length (inode_table s)"
  by (simp add: acquired_def)

lemma acquired_fun:
  "st (acquired s v q i) = st s" "key (acquired s v q i) = key s" "data_of (acquired s v q i) = data_of s"
  "vid_of (acquired s v q i) = vid_of s" "inuse (acquired s v q i) = inuse s"
  "file_block (acquired s v q i) = file_block s" "disk_block (acquired s v q i) = disk_block s"
  "lookup ck (acquired s v q i) = lookup ck s" "block_owners (acquired s v q i) = block_owners s"
proof -
  show st: "st (acquired s v q i) = st s" by (simp add: st_def acquired_fields fun_eq_iff)
  have f: "max_inode_entry (acquired s v q i) = max_inode_entry s" "max_volume_entry (acquired s v q i) = max_volume_entry s"
    "block_size (acquired s v q i) = block_size s" "volume_table (acquired s v q i) = volume_table s"
    "block_table (acquired s v q i) = block_table s" "system (acquired s v q i) = system s"
    by (simp_all add: acquired_def)
  show "key (acquired s v q i) = key s" by (simp add: key_def st f acquired_fields fun_eq_iff)
  show "data_of (acquired s v q i) = data_of s" by (simp add: data_of_def acquired_fields f fun_eq_iff)
  show vid: "vid_of (acquired s v q i) = vid_of s" by (simp add: vid_of_def f fun_eq_iff)
  show "inuse (acquired s v q i) = inuse s" by (simp add: inuse_def f vid)
  show "file_block (acquired s v q i) = file_block s" "disk_block (acquired s v q i) = disk_block s"
    by (simp_all add: file_block_def disk_block_def f fun_eq_iff)
  show "lookup ck (acquired s v q i) = lookup ck s" by (simp add: lookup_def f fun_eq_iff)
  have "map in_block (inode_table (acquired s v q i)) = map in_block (inode_table s)"
    by (rule nth_equalityI) (simp_all add: acquired_fields acquired_length)
  then show "block_owners (acquired s v q i) = block_owners s" by (simp add: block_owners_def f)
qed

lemma acquired_inv:
  assumes inv: "flush_inv ck m s v xs" and v: "v < nV s"
    and q: "idxs (inode_dirty_lfqueue s ! v) = i # idxs q" "lfq_ok m q" "capacity q = max_inode_entry s"
  shows "flush_inv ck m (acquired s v q i) v (xs @ [i])"
proof -
  note I = flush_invD [OF inv]
  let ?s = "acquired s v q i"
  have len: "length (inode_table s) = nI s" "length (inode_dirty_lfqueue s) = nV s"
    using I(1) by (simp_all add: shape_inv_def)
  have f: "max_inode_entry ?s = max_inode_entry s" "max_volume_entry ?s = max_volume_entry s"
    "block_size ?s = block_size s" "volume_table ?s = volume_table s"
    "block_table ?s = block_table s" "system ?s = system s"  "nodes ?s = nodes s" "next_node ?s = next_node s"
    by (simp_all add: acquired_def)
  have "shape_inv ?s" using I(1) by (simp add: shape_inv_def acquired_def)
  moreover have "queue_inv m ?s"
    using I(2) queues_ok_update [of m "max_inode_entry s" "inode_dirty_lfqueue s"] q(2,3)
    by (simp add: queue_inv_def acquired_def)
  moreover have "block_inv ?s" using I(3) by (simp add: block_inv_def acquired_fun f)
  moreover have "free_inv ?s" using I(4) unfolding free_inv_def acquired_fun f by (simp add: acquired_def)
  moreover have "clean_inv ?s" using I(7) unfolding clean_inv_def acquired_fun f by (simp add: acquired_def)
  moreover have "volume_inv ?s" using I(8) by (simp add: volume_inv_def acquired_fun f)
  moreover have "hash_inv ck ?s" using I(9) unfolding hash_inv_def acquired_fun f acquired_fields .
  moreover have "disk_inv ?s" using I(10) unfolding disk_inv_def cached_def acquired_fun .
  moreover have "dirty_held ?s v (xs @ [i])"
  proof (rule dirty_heldI)
    note D = dirty_heldD [OF I(5)]
    show "distinct (idxs (inode_dirty_lfqueue ?s ! u)) \<and> set (idxs (inode_dirty_lfqueue ?s ! u)) =
       {i. i < nI ?s \<and> st ?s i = DIRTY \<and> in_volume (inode_table ?s ! i) = Some u}"
      if "u < nV ?s" "u \<noteq> v" for u
      using D(3,4) [of u] that unfolding acquired_fun acquired_fields f by (simp add: acquired_def)
    show "distinct (idxs (inode_dirty_lfqueue ?s ! v) @ xs @ [i]) \<and> set (idxs (inode_dirty_lfqueue ?s ! v) @ xs @ [i]) =
       {i. i < nI ?s \<and> st ?s i = DIRTY \<and> in_volume (inode_table ?s ! i) = Some v}"
      using D(1,2) [of v] v q(1) len unfolding acquired_fun acquired_fields f by (auto simp: acquired_def)
    show "unat (inode_dirty_count ?s) = card {i. i < nI ?s \<and> st ?s i = DIRTY}"
      using I(5) unfolding acquired_fun f by (simp add: dirty_held_def acquired_def)
  qed
  moreover have "sync_held ?s (xs @ [i])"
  proof -
    have "in_lock (inode_table ?s ! j) \<longleftrightarrow> st s j = SYNC \<or> j \<in> set (xs @ [i])" if "j < nI s" for j
      using I(6) that len by (cases "j = i") (auto simp: sync_held_def acquired_def)
    then show ?thesis using I(6) unfolding sync_held_def acquired_fun f by (simp add: acquired_def)
  qed
  ultimately show ?thesis by (simp add: flush_inv_def)
qed

lemma flush_acquire_ok:
  assumes "flush_inv ck m s v (map unat xs)" "v < nV s" "w = int (length xs + n)"
    "n \<le> length (contents (inode_dirty_lfqueue s ! v))"
  shows "\<exists>s' ys. flush_acquire s v w d xs = Inr (xs @ ys, s') \<and> ys = take n (contents (inode_dirty_lfqueue s ! v)) \<and> st s' = st s \<and>
    flush_inv ck m s' v (map unat (xs @ ys)) \<and> abs_store s' = abs_store s \<and> flush_frame s s' \<and>
    contents (inode_dirty_lfqueue s' ! v) = drop n (contents (inode_dirty_lfqueue s ! v))"
  using assms
proof (induction n arbitrary: s xs)
  case 0
  then show ?case by (subst flush_acquire.simps) (auto simp: flush_frame_refl)
next
  case (Suc n)
  note I = flush_invD [OF Suc.prems(1)]
  obtain x cs where c: "contents (inode_dirty_lfqueue s ! v) = x # cs"
    using Suc.prems(4) by (cases "contents (inode_dirty_lfqueue s ! v)") auto
  have len: "length (inode_table s) = nI s" "length (inode_dirty_lfqueue s) = nV s"
    using I(1) by (simp_all add: shape_inv_def)
  then have vl: "v < length (inode_dirty_lfqueue s)" using Suc.prems(2) by simp
  obtain q where q: "deq_at (inode_dirty_lfqueue s) v = Inr (x, (inode_dirty_lfqueue s)[v := q])"
    "contents q = cs" "lfq_ok m q" "capacity q = capacity (inode_dirty_lfqueue s ! v)"
    using deq_at_ok [OF vl _ c] queue_member(2) [OF I(2) vl] by blast
  have qi: "idxs (inode_dirty_lfqueue s ! v) = unat x # idxs q" "capacity q = max_inode_entry s"
    using c q queue_member(2) [OF I(2) vl] by (simp_all add: idxs_def)
  let ?s = "acquired s v q (unat x)"
  have dd: "distinct (idxs (inode_dirty_lfqueue s ! v) @ map unat xs)"
    "set (idxs (inode_dirty_lfqueue s ! v) @ map unat xs) = {i. i < nI s \<and> st s i = DIRTY \<and> in_volume (inode_table s ! i) = Some v}"
    using dirty_heldD(1,2) [OF I(5) Suc.prems(2)] by simp_all
  then have x: "unat x < nI s" "st s (unat x) = DIRTY" "unat x \<notin> set (map unat xs)" using qi by auto
  then have nl: "\<not> in_lock (inode_table s ! unat x)" using I(6) by (simp add: sync_held_def)
  have inv': "flush_inv ck m ?s v (map unat (xs @ [x]))"
    using acquired_inv [OF Suc.prems(1,2) qi(1) q(3) qi(2)] by simp
  have step: "flush_acquire s v w d xs = flush_acquire ?s v w d (xs @ [x])"
    using Suc.prems(3) q(1) x(1) len nl by (subst flush_acquire.simps) (simp add: lock_inode_def acquired_def)
  have "v < nV ?s" "w = int (length (xs @ [x]) + n)" "n \<le> length (contents (inode_dirty_lfqueue ?s ! v))"
    using Suc.prems c q(2) vl by (simp_all add: acquired_def)
  from Suc.IH [OF inv' this] obtain s' ys where r: "flush_acquire ?s v w d (xs @ [x]) = Inr ((xs @ [x]) @ ys, s')"
    "ys = take n (contents (inode_dirty_lfqueue ?s ! v))" "st s' = st ?s" "flush_inv ck m s' v (map unat ((xs @ [x]) @ ys))" "abs_store s' = abs_store ?s" "flush_frame ?s s'"
    "contents (inode_dirty_lfqueue s' ! v) = drop n (contents (inode_dirty_lfqueue ?s ! v))" by blast
  have "abs_store ?s = abs_store s" by (rule abs_cong) (simp_all add: acquired_fun, simp_all add: acquired_def)
  moreover have "flush_frame s ?s" unfolding flush_frame_def acquired_fields acquired_fun by (simp add: acquired_def)
  ultimately show ?case using r step c q(2) vl
    by (intro exI [of _ s'] exI [of _ "x # ys"]) (auto simp: acquired_def acquired_fun [unfolded acquired_def] intro: flush_frame_trans)
qed


section \<open>Writing the blocks of a batch\<close>

lemma fblock_overwrite_many:
  assumes "\<forall>b \<in> set bs. length b = n"
  shows "fblock n (Some (overwrite f (l * n) (concat bs))) k =
    (if l \<le> k \<and> k < l + length bs then bs ! (k - l) else fblock n (Some f) k)"
  using assms
proof (induction bs arbitrary: f l)
  case Nil
  have "byte_at (Some (overwrite f (l * n) [])) j = byte_at (Some f) j" for j
    by (auto simp: byte_at_overwrite)
  then show ?case by (auto simp: fblock_def)
next
  case (Cons b bs)
  have e: "overwrite f (l * n) (concat (b # bs)) = overwrite (overwrite f (l * n) b) (Suc l * n) (concat bs)"
    using Cons.prems by (simp add: overwrite_append add.commute)
  have r: "fblock n (Some (overwrite f (l * n) (concat (b # bs)))) k =
    (if Suc l \<le> k \<and> k < Suc l + length bs then bs ! (k - Suc l) else if k = l then b else fblock n (Some f) k)"
  proof -
    have b: "length b = n" "\<forall>b \<in> set bs. length b = n" using Cons.prems by simp_all
    show ?thesis unfolding e Cons.IH [OF b(2), of "overwrite f (l * n) b" "Suc l"] fblock_overwrite [OF b(1)] ..
  qed
  show ?case
  proof (cases "k = l")
    case True
    then show ?thesis unfolding r by simp
  next
    case False
    then have "l \<le> k \<Longrightarrow> k - l = Suc (k - Suc l)" by simp
    with False show ?thesis unfolding r by auto
  qed
qed

lemma flush_iov_ok:
  assumes "\<forall>i \<in> set is. unat i < length (inode_table s) \<and>
      unat (in_block (inode_table s ! unat i)) < length (block_table s) \<and> length (data_of s (unat i)) = bsz s"
    and "files (system s) (get_filename (ve_vid ve)) \<noteq> None"
  shows "flush_iov s ve is = Inr (concat (map (\<lambda>i. data_of s (unat i)) is))"
  using assms(1)
proof (induction "is")
  case Nil
  then show ?case by simp
next
  case (Cons i "is")
  obtain f where "files (system s) (get_filename (ve_vid ve)) = Some f" using assms(2) by blast
  with Cons show ?case by (simp add: get_filesize_def data_of_def)
qed

text \<open>A run of consecutive block numbers does not wrap around.\<close>

lemma consecutive_unat:
  fixes l :: "nat \<Rightarrow> u32"
  assumes "\<And>j. Suc j < n \<Longrightarrow> l (Suc j) = l j + 1" "\<And>j. j < n \<Longrightarrow> l j \<noteq> - 1" "j < n"
  shows "unat (l j) = unat (l 0) + j"
  using assms(3)
proof (induction j)
  case 0
  then show ?case by simp
next
  case (Suc j)
  have "unat (l j + 1) = Suc (unat (l j))" using assms(2) [of j] Suc.prems by (intro unat_Suc_u32) simp
  then show ?case using Suc assms(1) [of j] by simp
qed

lemma run_length_consecutive:
  "j < run_length l ls \<Longrightarrow> (l # ls) ! Suc j = (l # ls) ! j + 1"
proof (induction l ls arbitrary: j rule: run_length.induct)
  case (1 l)
  then show ?case by simp
next
  case (2 l l2 ls)
  then show ?case by (cases j) (auto split: if_splits)
qed

lemma run_length_le: "run_length l ls \<le> length ls"
  by (induction l ls rule: run_length.induct) auto

text \<open>The files after a batch was written.\<close>

definition wrote :: "'m nvm \<Rightarrow> u32 \<Rightarrow> nat \<Rightarrow> u8 list list \<Rightarrow> 'm nvm" where
  "wrote s vid l0 bs = s\<lparr>system := (system s)\<lparr>files := (files (system s))(get_filename vid \<mapsto>
     overwrite (case files (system s) (get_filename vid) of None \<Rightarrow> [] | Some f \<Rightarrow> f) (bsz s * l0) (concat bs))\<rparr>\<rparr>"

lemma wrote_fields:
  "inode_table (wrote s vid l0 bs) = inode_table s" "volume_table (wrote s vid l0 bs) = volume_table s"
  "block_table (wrote s vid l0 bs) = block_table s" "max_inode_entry (wrote s vid l0 bs) = max_inode_entry s"
  "max_volume_entry (wrote s vid l0 bs) = max_volume_entry s" "block_size (wrote s vid l0 bs) = block_size s"
  "fds (system (wrote s vid l0 bs)) = fds (system s)" "next_fd (system (wrote s vid l0 bs)) = next_fd (system s)"
  "durable (system (wrote s vid l0 bs)) = durable (system s)" "nodes (wrote s vid l0 bs) = nodes s"
  "next_node (wrote s vid l0 bs) = next_node s" "io_error (system (wrote s vid l0 bs)) = io_error (system s)"
  by (simp_all add: wrote_def)

lemma wrote_fun:
  "st (wrote s vid l0 bs) = st s" "key (wrote s vid l0 bs) = key s" "data_of (wrote s vid l0 bs) = data_of s"
  "vid_of (wrote s vid l0 bs) = vid_of s" "inuse (wrote s vid l0 bs) = inuse s"
  "disk_block (wrote s vid l0 bs) = disk_block s" "lookup ck (wrote s vid l0 bs) = lookup ck s"
  "cached (wrote s vid l0 bs) = cached s"
  by (simp_all add: fun_eq_iff st_def key_def data_of_def vid_of_def inuse_def disk_block_def lookup_def
      cached_def wrote_fields)

lemma wrote_file_block:
  assumes "\<forall>b \<in> set bs. length b = bsz s" "files (system s) (get_filename vid) = Some f"
  shows "file_block (wrote s vid l0 bs) vid' l =
    (if vid' = vid \<and> l0 \<le> unat l \<and> unat l < l0 + length bs then bs ! (unat l - l0) else file_block s vid' l)"
proof (cases "vid' = vid")
  case True
  then show ?thesis
    using fblock_overwrite_many [OF assms(1), of f l0 "unat l"] assms(2)
    by (simp add: file_block_def wrote_def mult.commute)
next
  case False
  then have "get_filename vid' \<noteq> get_filename vid" using get_filename_inj by blast
  then show ?thesis using False by (simp add: file_block_def wrote_def)
qed

lemma wrote_inv:
  assumes inv: "flush_inv ck m s v xs" and v: "v \<in> inuse s"
    and js: "set js \<subseteq> set xs" and bs: "bs = map (data_of s) js"
    and cons: "\<And>k. k < length js \<Longrightarrow> unat (in_lbn (inode_table s ! (js ! k))) = l0 + k"
  shows "flush_inv ck m (wrote s (vid_of s v) l0 bs) v xs" (is "flush_inv ck m ?s v xs")
    "\<And>i. i \<in> set js \<Longrightarrow> file_block (wrote s (vid_of s v) l0 bs) (vid_of s v) (in_lbn (inode_table s ! i)) = data_of s i"
proof -
  note I = flush_invD [OF inv]
  have vV: "v < nV s" using inuse_less [OF v] .
  have held: "i < nI s" "st s i = DIRTY" "key s i = Some (v, in_lbn (inode_table s ! i))" if "i \<in> set js" for i
    using held_dirty [OF I(5) vV] js that by blast+
  have bl: "\<forall>b \<in> set bs. length b = bsz s"
    using bs held(1) owner_block(1) [OF I(1,3)] I(1) by (auto simp: data_of_def shape_inv_def)
  obtain f where f: "files (system s) (get_filename (vid_of s v)) = Some f"
    using I(8) v by (auto simp: volume_inv_def)
  note fb = wrote_file_block [OF bl f, of l0]
  have lb: "length bs = length js" using bs by simp
  have hitk: "\<exists>i \<in> set js. key s i = Some (v, l) \<and> bs ! (unat l - l0) = data_of s i"
    if "l0 \<le> unat l" "unat l < l0 + length bs" for l
  proof -
    let ?k = "unat l - l0"
    have k: "?k < length js" using that lb by linarith
    then have "unat (in_lbn (inode_table s ! (js ! ?k))) = unat l" using cons [OF k] that by simp
    then have "in_lbn (inode_table s ! (js ! ?k)) = l" by (metis word_unat_eq_iff)
    then show ?thesis using held(3) [of "js ! ?k"] k bs by (intro bexI [of _ "js ! ?k"]) auto
  qed
  have other: "file_block ?s (vid_of s u) l = file_block s (vid_of s u) l"
    if "key s i = Some (u, l)" "st s i \<noteq> DIRTY" for i u l
  proof (cases "vid_of s u = vid_of s v \<and> l0 \<le> unat l \<and> unat l < l0 + length bs")
    case True
    then obtain j where j: "j \<in> set js" "key s j = Some (v, l)" using hitk by blast
    then have "i = j" using key_unique [OF I(9,8) that(1) j(2)] True by simp
    then show ?thesis using held(2) j that(2) by auto
  next
    case False
    then show ?thesis by (simp only: fb if_False)
  qed
  have unc: "file_block ?s vid l = file_block s vid l" if "\<not> cached s vid l" for vid l
    using fb [of vid l] hitk [of l] that by (auto simp: cached_def)
  have "disk_inv ?s"
    using I(10) other unc unfolding disk_inv_def wrote_fun by (metis (no_types, opaque_lifting) inode_state.distinct)
  moreover have "shape_inv ?s" using I(1) by (simp add: shape_inv_def wrote_def)
  moreover have "queue_inv m ?s" using I(2) by (simp add: queue_inv_def wrote_def)
  moreover have "block_inv ?s" using I(3) by (simp add: block_inv_def block_owners_def wrote_fields)
  moreover have "free_inv ?s" using I(4) unfolding free_inv_def wrote_fun wrote_fields by (simp add: wrote_def)
  moreover have "clean_inv ?s" using I(7) unfolding clean_inv_def wrote_fun wrote_fields by (simp add: wrote_def)
  moreover have "sync_held ?s xs" using I(6) unfolding sync_held_def wrote_fun wrote_fields by (simp add: wrote_def)
  moreover have "dirty_held ?s v xs" using I(5) unfolding dirty_held_def wrote_fun wrote_fields by (simp add: wrote_def)
  moreover have "volume_inv ?s"
    using I(8) unfolding volume_inv_def wrote_fun wrote_fields by (simp add: wrote_def)
  moreover have "hash_inv ck ?s" using I(9) unfolding hash_inv_def wrote_fun wrote_fields .
  ultimately show "flush_inv ck m ?s v xs" by (simp add: flush_inv_def)
  show "file_block ?s (vid_of s v) (in_lbn (inode_table s ! i)) = data_of s i" if i: "i \<in> set js" for i
  proof -
    obtain k where k: "k < length js" "js ! k = i" using i by (auto simp: in_set_conv_nth)
    have "unat (in_lbn (inode_table s ! i)) = l0 + k" using cons [OF k(1)] k(2) by simp
    then show ?thesis using fb [of "vid_of s v" "in_lbn (inode_table s ! i)"] k bs lb by simp
  qed
qed


section \<open>Handing on to the sync queues\<close>

definition synced :: "'m nvm \<Rightarrow> u32 lfqueue \<Rightarrow> nat \<Rightarrow> 'm nvm" where
  "synced s q i = s\<lparr>inode_dirty_count := inode_dirty_count s - 1,
     inode_table := (inode_table s)[i := (inode_table s ! i)\<lparr>in_state := SYNC\<rparr>],
     inode_sync_lfqueue := (inode_sync_lfqueue s)[rr (sync_queue_idx s) DEFAULT_NUM_SYNCER := q],
     sync_queue_idx := sync_queue_idx s + 1, mon := (mon s)\<lparr>mon_sync := mon_sync (mon s) + 1\<rparr>\<rparr>"

lemma synced_fields:
  "in_lbn (inode_table (synced s q i) ! j) = in_lbn (inode_table s ! j)"
  "in_volume (inode_table (synced s q i) ! j) = in_volume (inode_table s ! j)"
  "in_block (inode_table (synced s q i) ! j) = in_block (inode_table s ! j)"
  "in_lock (inode_table (synced s q i) ! j) = in_lock (inode_table s ! j)"
  "length (inode_table (synced s q i)) = length (inode_table s)"
  by (cases "i < length (inode_table s)"; cases "j = i"; simp add: synced_def list_update_beyond)+

lemma synced_fun:
  assumes "st s i = DIRTY" "i < length (inode_table s)"
  shows "st (synced s q i) = (st s)(i := SYNC)" "key (synced s q i) = key s" "data_of (synced s q i) = data_of s"
  "vid_of (synced s q i) = vid_of s" "inuse (synced s q i) = inuse s"
  "file_block (synced s q i) = file_block s" "disk_block (synced s q i) = disk_block s"
  "lookup ck (synced s q i) = lookup ck s" "block_owners (synced s q i) = block_owners s"
proof -
  let ?s = "synced s q i"
  show st: "st ?s = (st s)(i := SYNC)" using assms by (auto simp: st_def fun_eq_iff synced_def nth_list_update)
  have f: "max_inode_entry ?s = max_inode_entry s" "max_volume_entry ?s = max_volume_entry s"
    "block_size ?s = block_size s" "volume_table ?s = volume_table s"
    "block_table ?s = block_table s" "system ?s = system s"
    by (simp_all add: synced_def)
  show "key ?s = key s" using assms(1) by (auto simp: key_def st f synced_fields fun_eq_iff)
  show "data_of ?s = data_of s" by (simp add: data_of_def synced_fields f fun_eq_iff)
  show vid: "vid_of ?s = vid_of s" by (simp add: vid_of_def f fun_eq_iff)
  show "inuse ?s = inuse s" by (simp add: inuse_def f vid)
  show "file_block ?s = file_block s" "disk_block ?s = disk_block s"
    by (simp_all add: file_block_def disk_block_def f fun_eq_iff)
  show "lookup ck ?s = lookup ck s" by (simp add: lookup_def f fun_eq_iff)
  have "map in_block (inode_table ?s) = map in_block (inode_table s)"
    by (rule nth_equalityI) (simp_all add: synced_fields)
  then show "block_owners ?s = block_owners s" by (simp add: block_owners_def f)
qed

lemma rr_syncer: "rr x DEFAULT_NUM_SYNCER = 0 \<or> rr x DEFAULT_NUM_SYNCER = 1"
  by (auto simp: rr_2)

text \<open>The inode leaves those the thread holds, and joins a sync queue.\<close>

lemma synced_held:
  assumes dh: "dirty_held s v (i # xs)" and sh: "sync_held s (i # xs)" and v: "v < nV s"
    and i: "i < length (inode_table s)" and len: "length (inode_sync_lfqueue s) = 2"
    and q: "idxs q = idxs (inode_sync_lfqueue s ! rr (sync_queue_idx s) DEFAULT_NUM_SYNCER) @ [i]"
  shows "dirty_held (synced s q i) v xs" "sync_held (synced s q i) xs"
proof -
  let ?s = "synced s q i"
  note H = held_dirty [OF dh v, of i, simplified]
  note F = synced_fun [OF H(2) i, where q = q]
  have f: "max_inode_entry ?s = max_inode_entry s" "max_volume_entry ?s = max_volume_entry s"
    "inode_dirty_lfqueue ?s = inode_dirty_lfqueue s" "inode_dirty_count ?s = inode_dirty_count s - 1"
    "inode_sync_lfqueue ?s = (inode_sync_lfqueue s)[rr (sync_queue_idx s) DEFAULT_NUM_SYNCER := q]"
    by (simp_all add: synced_def)
  have cards: "{j. j < nI s \<and> st ?s j = DIRTY} = {j. j < nI s \<and> st s j = DIRTY} - {i}" using F(1) by auto
  have vset: "{j. j < nI s \<and> st ?s j = DIRTY \<and> in_volume (inode_table s ! j) = Some u} =
      {j. j < nI s \<and> st s j = DIRTY \<and> in_volume (inode_table s ! j) = Some u} - {i}" for u
    unfolding F(1) by auto
  show "dirty_held ?s v xs"
  proof (rule dirty_heldI)
    note D = dirty_heldD [OF dh]
    show "distinct (idxs (inode_dirty_lfqueue ?s ! u)) \<and> set (idxs (inode_dirty_lfqueue ?s ! u)) =
       {i. i < nI ?s \<and> st ?s i = DIRTY \<and> in_volume (inode_table ?s ! i) = Some u}"
      if "u < nV ?s" "u \<noteq> v" for u
      using D(3,4) [of u] that H(3) unfolding synced_fields f vset by auto
    show "distinct (idxs (inode_dirty_lfqueue ?s ! v) @ xs) \<and> set (idxs (inode_dirty_lfqueue ?s ! v) @ xs) =
       {i. i < nI ?s \<and> st ?s i = DIRTY \<and> in_volume (inode_table ?s ! i) = Some v}"
      using D(1) [OF v refl] unfolding synced_fields f vset D(2) [OF v refl, symmetric] by auto
    have c: "unat (inode_dirty_count s) = card {j. j < nI s \<and> st s j = DIRTY}"
      using dh by (simp add: dirty_held_def)
    moreover have "0 < card {j. j < nI s \<and> st s j = DIRTY}" using H by (auto simp: card_gt_0_iff)
    ultimately have "inode_dirty_count s \<noteq> 0" by (metis unat_0 less_irrefl)
    then show "unat (inode_dirty_count ?s) = card {i. i < nI ?s \<and> st ?s i = DIRTY}"
      using c H cards by (simp add: f unat_minus_one card_Diff_singleton)
  qed
  show "sync_held ?s xs"
  proof -
    have "i \<notin> set xs" using dirty_heldD(1) [OF dh v refl] by auto
    then have "in_lock (inode_table ?s ! j) \<longleftrightarrow> st ?s j = SYNC \<or> j \<in> set xs" if "j < nI s" for j
      using sh that F(1) unfolding synced_fields by (auto simp: sync_held_def)
    moreover have "{j. j < nI s \<and> st ?s j = SYNC} = insert i {j. j < nI s \<and> st s j = SYNC}"
      using F(1) H(1) by auto
    moreover have "i \<notin> set (idxs (inode_sync_lfqueue s ! 0) @ idxs (inode_sync_lfqueue s ! 1))"
      using sh H(2) by (simp add: sync_held_def)
    ultimately show ?thesis
      using sh q len rr_syncer [of "sync_queue_idx s"] by (auto simp: sync_held_def f)
  qed
qed

lemma synced_inv:
  assumes inv: "flush_inv ck (Suc m) s v (i # xs)" and v: "v < nV s"
    and q: "idxs q = idxs (inode_sync_lfqueue s ! rr (sync_queue_idx s) DEFAULT_NUM_SYNCER) @ [i]"
      "lfq_ok m q" "capacity q = max_inode_entry s"
    and fb: "file_block s (vid_of s v) (in_lbn (inode_table s ! i)) = data_of s i"
  shows "flush_inv ck m (synced s q i) v xs"
proof -
  note I = flush_invD [OF inv]
  let ?s = "synced s q i"
  note H = held_dirty [OF I(5) v, of i, simplified]
  have len: "length (inode_table s) = nI s" "length (inode_dirty_lfqueue s) = nV s"
    "length (inode_sync_lfqueue s) = 2" using I(1) by (simp_all add: shape_inv_def DEFAULT_NUM_SYNCER_def)
  have il: "i < length (inode_table s)" using H(1) len by simp
  note F = synced_fun [OF H(2) il, where q = q]
  have f: "max_inode_entry ?s = max_inode_entry s" "max_volume_entry ?s = max_volume_entry s"
    "block_size ?s = block_size s" "volume_table ?s = volume_table s"
    "block_table ?s = block_table s" "system ?s = system s" "nodes ?s = nodes s" "next_node ?s = next_node s"
    "inode_free_lfqueue ?s = inode_free_lfqueue s" "inode_free_count ?s = inode_free_count s"
    "free_enqueue_idx ?s = free_enqueue_idx s" "free_dequeue_idx ?s = free_dequeue_idx s"
    "inode_clean_lfqueue ?s = inode_clean_lfqueue s" "inode_dirty_lfqueue ?s = inode_dirty_lfqueue s"
    "inode_dirty_count ?s = inode_dirty_count s - 1"
    "inode_sync_lfqueue ?s = (inode_sync_lfqueue s)[rr (sync_queue_idx s) DEFAULT_NUM_SYNCER := q]"
    by (simp_all add: synced_def)
  have q': "queue_inv m s" using queue_inv_less [OF I(2)] by simp
  have shape: "shape_inv ?s" using I(1) by (simp add: shape_inv_def synced_def)
  have queue: "queue_inv m ?s"
    using q' queues_ok_update [of m "max_inode_entry s" "inode_sync_lfqueue s"] q(2,3)
    by (simp add: queue_inv_def synced_def)
  have block: "block_inv ?s" using I(3) by (simp add: block_inv_def F f)
  have "{j. j < nI s \<and> st ?s j = FREE} = {j. j < nI s \<and> st s j = FREE}" using H(2) F(1) by auto
  then have free: "free_inv ?s" using I(4) unfolding free_inv_def f by simp
  have clean: "clean_inv ?s" using I(7) unfolding clean_inv_def f F(1) by auto
  have vol: "volume_inv ?s" using I(8) by (simp add: volume_inv_def F f)
  have hash: "hash_inv ck ?s" using I(9) H(2) unfolding hash_inv_def F(2-9) f synced_fields F(1) by auto
  have disk: "disk_inv ?s" by (rule disk_inv_moved [OF I(10) F(1-4,6,7)]) (use H(4) fb in simp)
  note held = synced_held [OF I(5,6) v il len(3) q(1)]
  from shape queue block free clean vol hash disk held show ?thesis by (simp add: flush_inv_def)
qed

lemma sync_room:
  assumes "sync_held s xs" "i < nI s" "st s i \<noteq> SYNC" "k = 0 \<or> k = 1"
  shows "length (contents (inode_sync_lfqueue s ! k)) < nI s"
proof -
  have "length (idxs (inode_sync_lfqueue s ! k)) < nI s"
    using assms by (intro distinct_bounded_length [of _ _ i]) (auto simp: sync_held_def)
  then show ?thesis by (simp add: idxs_def)
qed

lemma enqueue_into_sync_ok:
  assumes "flush_inv ck (length is + m) s v (map unat (is @ rest))" "v < nV s"
    "\<forall>i \<in> set is. file_block s (vid_of s v) (in_lbn (inode_table s ! unat i)) = data_of s (unat i)"
  shows "\<exists>s'. enqueue_into_sync s is = Inr s' \<and> flush_inv ck m s' v (map unat rest) \<and>
    abs_store s' = abs_store s \<and> flush_frame s s' \<and>
    inode_dirty_lfqueue s' = inode_dirty_lfqueue s \<and> key s' = key s \<and>
    st s' = (\<lambda>j. if j \<in> unat ` set is then SYNC else st s j)"
  using assms
proof (induction "is" arbitrary: s)
  case Nil
  then show ?case by (simp add: flush_frame_refl)
next
  case (Cons i "is")
  note I = flush_invD [OF Cons.prems(1)]
  note H = held_dirty [OF I(5) Cons.prems(2), of "unat i", simplified]
  let ?k = "rr (sync_queue_idx s) DEFAULT_NUM_SYNCER"
  have len: "length (inode_table s) = nI s" "length (inode_sync_lfqueue s) = 2"
    using I(1) by (simp_all add: shape_inv_def DEFAULT_NUM_SYNCER_def)
  have k: "?k < length (inode_sync_lfqueue s)" using rr_syncer [of "sync_queue_idx s"] len by auto
  have ok: "lfq_ok (Suc (length is + m)) (inode_sync_lfqueue s ! ?k)" "capacity (inode_sync_lfqueue s ! ?k) = max_inode_entry s"
    using queue_member(3) [OF I(2) k] by simp_all
  obtain q where q: "enq_at (inode_sync_lfqueue s) ?k i = Inr ((inode_sync_lfqueue s)[?k := q])"
    "contents q = contents (inode_sync_lfqueue s ! ?k) @ [i]" "lfq_ok (length is + m) q"
    "capacity q = capacity (inode_sync_lfqueue s ! ?k)"
    using enq_at_ok [OF k ok(1), of i] sync_room [OF I(6) H(1)] H(2) rr_syncer ok(2) by auto
  let ?s = "synced s q (unat i)"
  have il: "unat i < length (inode_table s)" using H(1) len by simp
  note F = synced_fun [OF H(2) il, where q = q]
  have qi: "idxs q = idxs (inode_sync_lfqueue s ! ?k) @ [unat i]" "capacity q = max_inode_entry s"
    using q ok by (simp_all add: idxs_def)
  have "flush_inv ck (length is + m) ?s v (map unat (is @ rest))"
    using synced_inv [OF _ Cons.prems(2) qi(1) q(3) qi(2)] Cons.prems(1,3) by simp
  moreover have "v < nV ?s" using Cons.prems(2) by (simp add: synced_def)
  moreover have "\<forall>j \<in> set is. file_block ?s (vid_of ?s v) (in_lbn (inode_table ?s ! unat j)) = data_of ?s (unat j)"
    using Cons.prems(3) unfolding F synced_fields by simp
  ultimately obtain s' where r: "enqueue_into_sync ?s is = Inr s'" "flush_inv ck m s' v (map unat rest)"
    "abs_store s' = abs_store ?s" "flush_frame ?s s'" "inode_dirty_lfqueue s' = inode_dirty_lfqueue ?s"
    "key s' = key ?s" "st s' = (\<lambda>j. if j \<in> unat ` set is then SYNC else st ?s j)" using Cons.IH by blast
  have "enqueue_into_sync s (i # is) = enqueue_into_sync ?s is"
    using q(1) il by (simp add: set_inode_state_def synced_def)
  moreover have "abs_store ?s = abs_store s"
    by (rule abs_cong [OF F(2,4,3,7)]) (simp add: synced_def)
  moreover have "\<exists>ys. idxs (inode_sync_lfqueue ?s ! j) = idxs (inode_sync_lfqueue s ! j) @ ys" for j
    using qi(1) k by (cases "j = ?k") (auto simp: synced_def)
  then have "flush_frame s ?s" unfolding flush_frame_def synced_fields F(1,2) using H(2) by (simp add: synced_def)
  moreover have "inode_dirty_lfqueue ?s = inode_dirty_lfqueue s" by (simp add: synced_def)
  ultimately show ?case using r F(1,2) by (auto simp: fun_eq_iff intro: flush_frame_trans)
qed


section \<open>The flush\<close>

text \<open>A batch first reaches the file, in one call, and then its inodes go on.\<close>

lemma flush_batch_step:
  assumes inv: "flush_inv ck (length batch + m) s v (map unat (batch @ rest))" and v: "v \<in> inuse s"
    and ne: "batch \<noteq> []" "length batch \<le> 1024" and io: "\<not> io_error (system s)"
    and cons: "\<And>k. Suc k < length batch \<Longrightarrow> lbn_of s (batch ! Suc k) = lbn_of s (batch ! k) + 1"
  defines "js \<equiv> map unat batch"
  shows "flush_batch s v batch =
      enqueue_into_sync (wrote s (vid_of s v) (unat (lbn_of s (hd batch))) (map (data_of s) js)) batch"
    "k < length js \<Longrightarrow> unat (in_lbn (inode_table s ! (js ! k))) = unat (lbn_of s (hd batch)) + k"
    "\<forall>b \<in> set (map (data_of s) js). length b = bsz s"
proof -
  note I = flush_invD [OF inv]
  have vV: "v < nV s" using inuse_less [OF v] .
  have len: "length (inode_table s) = nI s" "length (volume_table s) = nV s"
    using I(1) by (simp_all add: shape_inv_def)
  note H = held_dirty [OF I(5) vV]
  have Hb: "unat i < nI s" "in_volume (inode_table s ! unat i) = Some v"
    "key s (unat i) = Some (v, lbn_of s i)" if "i \<in> set batch" for i
    using H [of "unat i"] that by (simp_all add: lbn_of_def)
  have lm: "lbn_of s i \<noteq> - 1" if "i \<in> set batch" for i
    using I(10) Hb(3) [OF that] by (auto simp: disk_inv_def)
  define l0 where "l0 = unat (lbn_of s (hd batch))"
  have hd0: "hd batch = batch ! 0" using ne(1) by (simp add: hd_conv_nth)
  have cons': "unat (in_lbn (inode_table s ! (js ! k))) = l0 + k" if "k < length js" for k
    using consecutive_unat [of "length batch" "\<lambda>k. lbn_of s (batch ! k)" k] cons lm that
    by (simp add: js_def l0_def hd0 lbn_of_def)
  define bs where "bs = map (data_of s) js"
  let ?s = "wrote s (vid_of s v) l0 bs"
  have bl: "\<forall>b \<in> set bs. length b = bsz s"
    using Hb(1) owner_block(1) [OF I(1,3)] I(1) by (auto simp: bs_def js_def data_of_def shape_inv_def)
  obtain f where f: "files (system s) (get_filename (vid_of s v)) = Some f"
    "fds (system s) (ve_fd (volume_table s ! v)) = Some (get_filename (vid_of s v))"
    using I(8) v by (auto simp: volume_inv_def)
  have iov: "flush_iov s (volume_table s ! v) batch = Inr (concat bs)"
  proof -
    have "\<forall>i \<in> set batch. unat i < length (inode_table s) \<and>
      unat (in_block (inode_table s ! unat i)) < length (block_table s) \<and> length (data_of s (unat i)) = bsz s"
      using Hb(1) len owner_block(1) [OF I(1,3)] bl by (auto simp: bs_def js_def)
    then have "flush_iov s (volume_table s ! v) batch = Inr (concat (map (\<lambda>i. data_of s (unat i)) batch))"
      by (rule flush_iov_ok) (use f(1) in \<open>simp add: vid_of_def\<close>)
    then show ?thesis by (simp add: bs_def js_def comp_def)
  qed
  have total: "length (concat bs) = bsz s * length batch"
  proof -
    have "map length bs = replicate (length bs) (bsz s)"
      using bl by (intro nth_equalityI) auto
    then show ?thesis by (simp add: length_concat sum_list_replicate bs_def js_def)
  qed
  have "bsz s * length batch < 2 ^ 32"
  proof -
    have "bsz s * length batch \<le> bsz s * 1024" using ne(2) by simp
    also have "\<dots> < 2 ^ 22 * 1024" using I(1) by (simp add: shape_inv_def)
    finally show ?thesis by simp
  qed
  then have bytes: "uint (block_size s * of_nat (length batch)) = int (bsz s * length batch)"
  proof -
    assume small: "bsz s * length batch < 2 ^ 32"
    have "unat (of_nat (length batch) :: u32) = length batch" using ne(2) by (intro unat_of_nat_u32) simp
    then have "unat (block_size s * of_nat (length batch)) = bsz s * length batch mod 2 ^ LENGTH(32)"
      by (simp only: unat_word_ariths)
    then have "unat (block_size s * of_nat (length batch)) = bsz s * length batch" using small by simp
    then show ?thesis by (simp only: uint_nat)
  qed
  have start: "in_volume (inode_table s ! unat (hd batch)) = Some v"
    "unat (hd batch) < nI s" "unat (in_lbn (inode_table s ! unat (hd batch))) = l0"
    using Hb [of "hd batch"] ne(1) by (simp_all add: l0_def lbn_of_def)
  have pw: "sys_pwrite (system s) (ve_fd (volume_table s ! v)) (concat bs) (bsz s * l0) =
     (int (bsz s * length batch), system ?s)"
    using f io total by (simp add: sys_pwrite_def wrote_def)
  have s_eq: "s\<lparr>system := system ?s\<rparr> = ?s" by (simp add: wrote_def)
  have step: "flush_batch s v batch = enqueue_into_sync ?s batch"
    unfolding flush_batch_def using vV len iov start pw bytes s_eq
    by (simp add: Let_def)
  then show "flush_batch s v batch =
      enqueue_into_sync (wrote s (vid_of s v) (unat (lbn_of s (hd batch))) (map (data_of s) js)) batch"
    by (simp add: l0_def bs_def)
  show "k < length js \<Longrightarrow> unat (in_lbn (inode_table s ! (js ! k))) = unat (lbn_of s (hd batch)) + k"
    using cons' [of k] by (simp add: l0_def)
  show "\<forall>b \<in> set (map (data_of s) js). length b = bsz s" using bl by (simp add: bs_def)
qed

lemma flush_batch_ok:
  assumes inv: "flush_inv ck (length batch + m) s v (map unat (batch @ rest))" and v: "v \<in> inuse s"
    and ne: "batch \<noteq> []" "length batch \<le> 1024" and io: "\<not> io_error (system s)"
    and cons: "\<And>k. Suc k < length batch \<Longrightarrow> lbn_of s (batch ! Suc k) = lbn_of s (batch ! k) + 1"
  shows "\<exists>s'. flush_batch s v batch = Inr s' \<and> flush_inv ck m s' v (map unat rest) \<and>
    abs_store s' = abs_store s \<and> flush_frame s s' \<and>
    inode_dirty_lfqueue s' = inode_dirty_lfqueue s \<and> key s' = key s \<and>
    st s' = (\<lambda>j. if j \<in> unat ` set batch then SYNC else st s j)"
proof -
  note I = flush_invD [OF inv]
  have vV: "v < nV s" using inuse_less [OF v] .
  define js where "js = map unat batch"
  define l0 where "l0 = unat (lbn_of s (hd batch))"
  define bs where "bs = map (data_of s) js"
  let ?s = "wrote s (vid_of s v) l0 bs"
  note step = flush_batch_step(1) [OF assms, folded js_def, folded l0_def bs_def]
  have sub: "set js \<subseteq> set (map unat (batch @ rest))" by (auto simp: js_def)
  have cons': "unat (in_lbn (inode_table s ! (js ! k))) = l0 + k" if "k < length js" for k
    using flush_batch_step(2) [OF assms] that by (simp add: js_def l0_def)
  note W = wrote_inv [OF inv v sub bs_def cons']
  have "\<forall>i \<in> set batch. file_block ?s (vid_of ?s v) (in_lbn (inode_table ?s ! unat i)) = data_of ?s (unat i)"
    using W(2) by (simp add: wrote_fun wrote_fields js_def)
  with enqueue_into_sync_ok [OF W(1)] vV obtain s' where r: "enqueue_into_sync ?s batch = Inr s'"
    "flush_inv ck m s' v (map unat rest)" "abs_store s' = abs_store ?s" "flush_frame ?s s'"
    "inode_dirty_lfqueue s' = inode_dirty_lfqueue ?s" "key s' = key ?s"
    "st s' = (\<lambda>j. if j \<in> unat ` set batch then SYNC else st ?s j)" by (auto simp: wrote_fields)
  have "abs_store ?s = abs_store s" by (rule abs_cong) (simp_all add: wrote_fun wrote_fields)
  moreover have "flush_frame s ?s" unfolding flush_frame_def wrote_fun by (simp add: wrote_def)
  moreover have "inode_dirty_lfqueue ?s = inode_dirty_lfqueue s" by (simp add: wrote_def)
  ultimately show ?thesis using r step by (auto simp: wrote_fun intro: flush_frame_trans)
qed

lemma batch_count_run:
  assumes "xs \<noteq> []" "Suc k < batch_count s xs"
  shows "lbn_of s (xs ! Suc k) = lbn_of s (xs ! k) + 1"
proof -
  obtain x ys where x: "xs = x # ys" using assms(1) by (cases xs) auto
  then have k: "k < run_length (lbn_of s x) (map (lbn_of s) ys)" using assms(2) by (simp add: batch_count_def)
  have "Suc k \<le> length ys" using k run_length_le [of "lbn_of s x" "map (lbn_of s) ys"] by simp
  then have "k < length ys" by simp
  then show ?thesis using run_length_consecutive [OF k] x by (cases k) simp_all
qed

lemma batch_count_bounds:
  assumes "xs \<noteq> []" shows "0 < batch_count s xs \<and> batch_count s xs \<le> length xs"
proof -
  obtain x ys where "xs = x # ys" using assms by (cases xs) auto
  then show ?thesis using run_length_le [of "lbn_of s x" "map (lbn_of s) ys"] by (simp add: batch_count_def)
qed

text \<open>The next batch of a list of held inodes: what it takes, what it leaves, and its run.\<close>

lemma batch_split:
  assumes "flush_inv ck (length xs + m) s v (map unat xs)" "xs \<noteq> []" "length xs \<le> 1024"
  defines "n \<equiv> batch_count s xs"
  shows "flush_inv ck (length (take n xs) + (length (drop n xs) + m)) s v (map unat (take n xs @ drop n xs))"
    "take n xs \<noteq> []" "length (take n xs) \<le> 1024" "length (drop n xs) < length xs" "length (drop n xs) \<le> 1024"
    "Suc k < length (take n xs) \<Longrightarrow> lbn_of s (take n xs ! Suc k) = lbn_of s (take n xs ! k) + 1"
proof -
  have n: "0 < n" "n \<le> length xs" using batch_count_bounds [OF assms(2), of s] by (simp_all add: n_def)
  have lens: "length (take n xs) = n" "length (drop n xs) = length xs - n" using n by simp_all
  then have "length (take n xs) + (length (drop n xs) + m) = length xs + m" using n by simp
  then show "flush_inv ck (length (take n xs) + (length (drop n xs) + m)) s v (map unat (take n xs @ drop n xs))"
    using assms(1) by (simp only: append_take_drop_id)
  show "take n xs \<noteq> []" "length (take n xs) \<le> 1024" "length (drop n xs) < length xs" "length (drop n xs) \<le> 1024"
    using n assms(2,3) by auto
  show "lbn_of s (take n xs ! Suc k) = lbn_of s (take n xs ! k) + 1" if "Suc k < length (take n xs)"
    using batch_count_run [OF assms(2), of k s] that lens(1) by (simp add: n_def)
qed

lemma flush_batches_ok:
  assumes "flush_inv ck (length xs + m) s v (map unat xs)" "v \<in> inuse s" "length xs \<le> 1024"
    "\<not> io_error (system s)"
  shows "\<exists>s'. flush_batches s v xs = Inr s' \<and> flush_inv ck m s' v [] \<and> abs_store s' = abs_store s \<and>
    flush_frame s s' \<and> inode_dirty_lfqueue s' = inode_dirty_lfqueue s \<and>
    st s' = (\<lambda>j. if j \<in> unat ` set xs then SYNC else st s j)"
  using assms
proof (induction "length xs" arbitrary: s xs rule: less_induct)
  case less
  show ?case
  proof (cases "xs = []")
    case True
    then show ?thesis using less.prems by (subst flush_batches.simps) (simp add: flush_frame_refl)
  next
    case False
    let ?n = "batch_count s xs"
    note B = batch_split [OF less.prems(1) False less.prems(3)]
    obtain s1 where s1: "flush_batch s v (take ?n xs) = Inr s1"
      "flush_inv ck (length (drop ?n xs) + m) s1 v (map unat (drop ?n xs))" "abs_store s1 = abs_store s"
      "flush_frame s s1" "inode_dirty_lfqueue s1 = inode_dirty_lfqueue s"
      "st s1 = (\<lambda>j. if j \<in> unat ` set (take ?n xs) then SYNC else st s j)"
      using flush_batch_ok [OF B(1) less.prems(2) B(2,3) less.prems(4) B(6)] by blast
    have "v \<in> inuse s1" "\<not> io_error (system s1)"
      using s1(4) less.prems(2,4) by (auto simp: flush_frame_def inuse_def vid_of_def)
    then obtain s' where s': "flush_batches s1 v (drop ?n xs) = Inr s'" "flush_inv ck m s' v []"
      "abs_store s' = abs_store s1" "flush_frame s1 s'" "inode_dirty_lfqueue s' = inode_dirty_lfqueue s1"
      "st s' = (\<lambda>j. if j \<in> unat ` set (drop ?n xs) then SYNC else st s1 j)"
      using less.hyps [of "drop ?n xs" s1] s1(2) B(4,5) by blast
    have "flush_batches s v xs = Inr s'" using False s1(1) s'(1) by (subst flush_batches.simps) (simp add: Let_def)
    moreover have "unat ` set xs = unat ` set (take ?n xs) \<union> unat ` set (drop ?n xs)"
      by (metis append_take_drop_id set_append image_Un)
    then have "st s' = (\<lambda>j. if j \<in> unat ` set xs then SYNC else st s j)"
      unfolding s'(6) s1(6) by (simp add: fun_eq_iff)
    ultimately show ?thesis
      using s'(2,3,5) s1(3,5) flush_frame_trans [OF s1(4) s'(4)] by (intro exI [of _ s']) simp
  qed
qed

lemma sint_small:
  assumes "unat (w :: u32) < 2 ^ 31"
  shows "sint w = int (unat w)"
proof -
  have "int (unat w) < 2 ^ 31" using assms by (simp only: of_nat_less_numeral_power_cancel_iff)
  then have "signed_take_bit 31 (int (unat w)) = int (unat w)" by (intro signed_take_bit_int_eq_self) linarith+
  then show ?thesis by (simp only: sint_uint uint_nat) simp
qed

text \<open>
  The number of inodes a flush takes: all but one of the volume's dirty inodes, at most a batch.
\<close>

definition flush_size :: "'m nvm \<Rightarrow> nat \<Rightarrow> nat" where
  "flush_size s v = min 1024 (length (contents (inode_dirty_lfqueue s ! v)) - 1)"

text \<open>The first part of \<open>nvm_flush\<close>, up to the first call of \<^verbatim>\<open>pwritev\<close>.\<close>

definition flush_take :: "'m nvm \<Rightarrow> nat \<Rightarrow> (u32 list \<times> 'm nvm) res" where
  "flush_take s v =
     rbind (at_index (inode_dirty_lfqueue s) v) (\<lambda>q.
     let num_dirty = sint (get_size q - 1) in
     flush_acquire s v (if num_dirty \<ge> FLUSH_BATCH_SIZE then FLUSH_BATCH_SIZE else num_dirty) num_dirty [])"

lemma nvm_flush_take: "nvm_flush s v = rbind (flush_take s v) (\<lambda>(i_idxs, s1). flush_batches s1 v i_idxs)"
  by (cases "at_index (inode_dirty_lfqueue s) v") (simp_all add: nvm_flush_def flush_take_def Let_def)

lemma flush_take_ok:
  assumes fi: "flush_inv ck (1024 + m) s v []" and v: "v \<in> inuse s"
    and d: "contents (inode_dirty_lfqueue s ! v) \<noteq> []" and io: "\<not> io_error (system s)"
  shows "\<exists>s1 ys. flush_take s v = Inr (ys, s1) \<and> ys = take (flush_size s v) (contents (inode_dirty_lfqueue s ! v)) \<and>
    length ys \<le> 1024 \<and> flush_inv ck (length ys + m) s1 v (map unat ys) \<and> v \<in> inuse s1 \<and> \<not> io_error (system s1) \<and>
    st s1 = st s \<and> abs_store s1 = abs_store s \<and> flush_frame s s1 \<and>
    contents (inode_dirty_lfqueue s1 ! v) = drop (flush_size s v) (contents (inode_dirty_lfqueue s ! v))"
proof -
  have fi': "flush_inv ck (1024 + m) s v (map unat [])" using fi by simp
  note I = flush_invD [OF fi]
  have vV: "v < nV s" using inuse_less [OF v] .
  let ?q = "inode_dirty_lfqueue s ! v"
  let ?L = "length (contents ?q)" and ?n = "flush_size s v"
  have vl: "v < length (inode_dirty_lfqueue s)" using vV I(1) by (simp add: shape_inv_def)
  have qok: "lfq_ok (1024 + m) ?q" "capacity ?q = max_inode_entry s" using queue_member(2) [OF I(2) vl] by simp_all
  have "?L \<le> nI s" using lfq.waiting_room [OF qok(1)] qok(2) by simp
  then have L: "?L \<le> 2 ^ 26" "0 < ?L" using I(1) d by (auto simp: shape_inv_def)
  have gs: "unat (get_size ?q) = ?L" using qok(1) by (simp add: unat_get_size lfq_ok_def)
  have "get_size ?q \<noteq> 0" using gs L(2) by auto
  then have "unat (get_size ?q - 1) = ?L - 1" using gs by (simp add: unat_minus_one)
  then have nd: "sint (get_size ?q - 1) = int (?L - 1)" using L sint_small [of "get_size ?q - 1"] by simp
  have ws: "(if int (?L - 1) \<ge> FLUSH_BATCH_SIZE then FLUSH_BATCH_SIZE else int (?L - 1)) = int (length ([] :: u32 list) + ?n)"
    by (simp add: FLUSH_BATCH_SIZE_def flush_size_def min_def)
  have nle: "?n \<le> ?L" by (simp add: flush_size_def)
  obtain s1 ys where a: "flush_acquire s v (int (length ([] :: u32 list) + ?n)) (int (?L - 1)) [] = Inr ([] @ ys, s1)"
    "ys = take ?n (contents ?q)" "st s1 = st s" "flush_inv ck (1024 + m) s1 v (map unat ([] @ ys))"
    "abs_store s1 = abs_store s" "flush_frame s s1"
    "contents (inode_dirty_lfqueue s1 ! v) = drop ?n (contents ?q)"
    using flush_acquire_ok [OF fi' vV refl nle] by blast
  have yl: "length ys \<le> 1024" using a(2) by (simp add: flush_size_def)
  have "flush_inv ck (length ys + m) s1 v (map unat ys)"
    using a(4) queue_inv_less [of "1024 + m" s1 "length ys + m"] yl by (simp add: flush_inv_def)
  moreover have "v \<in> inuse s1" "\<not> io_error (system s1)"
    using a(6) v io by (auto simp: flush_frame_def inuse_def vid_of_def)
  moreover have "flush_take s v = Inr (ys, s1)"
    using a(1) by (simp only: flush_take_def at_index_in [OF vl] rbind_simps Let_def nd ws append_Nil)
  ultimately show ?thesis using a yl by (intro exI [of _ s1] exI [of _ ys]) simp
qed

lemma nvm_flush_held:
  assumes fi: "flush_inv ck (1024 + m) s v []" and v: "v \<in> inuse s"
    and d: "contents (inode_dirty_lfqueue s ! v) \<noteq> []" and io: "\<not> io_error (system s)"
  shows "\<exists>s'. nvm_flush s v = Inr s' \<and> flush_inv ck m s' v [] \<and> abs_store s' = abs_store s \<and> flush_frame s s' \<and>
    contents (inode_dirty_lfqueue s' ! v) = drop (flush_size s v) (contents (inode_dirty_lfqueue s ! v)) \<and>
    (\<forall>x \<in> set (take (flush_size s v) (idxs (inode_dirty_lfqueue s ! v))). st s' x = SYNC)"
proof -
  obtain s1 ys where a: "flush_take s v = Inr (ys, s1)" "ys = take (flush_size s v) (contents (inode_dirty_lfqueue s ! v))"
    "length ys \<le> 1024" "flush_inv ck (length ys + m) s1 v (map unat ys)" "v \<in> inuse s1" "\<not> io_error (system s1)"
    "st s1 = st s" "abs_store s1 = abs_store s" "flush_frame s s1"
    "contents (inode_dirty_lfqueue s1 ! v) = drop (flush_size s v) (contents (inode_dirty_lfqueue s ! v))"
    using flush_take_ok [OF assms] by blast
  obtain s' where r: "flush_batches s1 v ys = Inr s'" "flush_inv ck m s' v []" "abs_store s' = abs_store s1"
    "flush_frame s1 s'" "inode_dirty_lfqueue s' = inode_dirty_lfqueue s1"
    "st s' = (\<lambda>j. if j \<in> unat ` set ys then SYNC else st s1 j)"
    using flush_batches_ok [OF a(4,5,3,6)] by blast
  have "nvm_flush s v = Inr s'" using a(1) r(1) by (simp add: nvm_flush_take)
  moreover have "\<forall>x \<in> set (take (flush_size s v) (idxs (inode_dirty_lfqueue s ! v))). st s' x = SYNC"
    using r(6) a(2) by (auto simp: idxs_def take_map)
  ultimately show ?thesis using r a flush_frame_trans [OF a(9) r(4)] by simp
qed

lemma nvm_flush_ok:
  assumes inv: "nvm_inv ck (1024 + m) s" and v: "v \<in> inuse s"
    and d: "contents (inode_dirty_lfqueue s ! v) \<noteq> []" and io: "\<not> io_error (system s)"
  shows "\<exists>s'. nvm_flush s v = Inr s' \<and> nvm_inv ck m s' \<and> abs_store s' = abs_store s \<and> flush_frame s s' \<and>
    contents (inode_dirty_lfqueue s' ! v) = drop (flush_size s v) (contents (inode_dirty_lfqueue s ! v)) \<and>
    (\<forall>x \<in> set (take (flush_size s v) (idxs (inode_dirty_lfqueue s ! v))). st s' x = SYNC)"
proof -
  have fi: "flush_inv ck (1024 + m) s v []" and vq: "volq_inv s"
    using inv nvm_inv_flush [of ck "1024 + m" s v] by simp_all
  obtain s' where r: "nvm_flush s v = Inr s'" "flush_inv ck m s' v []" "abs_store s' = abs_store s" "flush_frame s s'"
    "contents (inode_dirty_lfqueue s' ! v) = drop (flush_size s v) (contents (inode_dirty_lfqueue s ! v))"
    "\<forall>x \<in> set (take (flush_size s v) (idxs (inode_dirty_lfqueue s ! v))). st s' x = SYNC"
    using nvm_flush_held [OF fi v d io] by blast
  have "volq_inv s'" using vq r(4) by (simp add: volq_inv_def flush_frame_def inuse_def vid_of_def)
  then have "nvm_inv ck m s'" using r(2) nvm_inv_flush by blast
  with r show ?thesis by blast
qed

text \<open>
  A round of the flush thread takes a volume from the queue of volumes in use, flushes it, and puts
  it back at the end.
\<close>

text \<open>What a flush does to the rest of the program: it moves inodes from dirty to sync.\<close>

definition flush_moves :: "'m nvm \<Rightarrow> 'm nvm \<Rightarrow> bool" where
  "flush_moves s s' \<longleftrightarrow> key s' = key s \<and> vid_of s' = vid_of s \<and> inuse s' = inuse s \<and>
     disk_block s' = disk_block s \<and> io_error (system s') = io_error (system s) \<and>
     sync_option s' = sync_option s \<and> open_fails (system s') = open_fails (system s) \<and>
     max_inode_entry s' = max_inode_entry s \<and> block_size s' = block_size s \<and>
     (\<forall>j. st s' j = st s j \<or> st s j = DIRTY \<and> st s' j = SYNC) \<and>
     (\<forall>k. \<exists>ys. idxs (inode_sync_lfqueue s' ! k) = idxs (inode_sync_lfqueue s ! k) @ ys)"

lemma frame_moves: "flush_frame s s' \<Longrightarrow> flush_moves s s'"
  by (simp add: flush_frame_def flush_moves_def vid_of_def inuse_def disk_block_def fun_eq_iff)

lemma flush_thread_round_ok:
  assumes inv: "nvm_inv ck (1025 + m) s" and io: "\<not> io_error (system s)"
  shows "\<exists>s'. flush_thread_round s = Inr s' \<and> nvm_inv ck m s' \<and> abs_store s' = abs_store s \<and> flush_moves s s'"
proof (cases "ucast (inode_dirty_count s) < kFlushLwm s \<or> get_size (volume_inuse_lfqueue s) = 0")
  case True
  have "nvm_inv ck m s" using inv queue_inv_less [of "1025 + m" s m] by (simp add: nvm_inv_def flush_inv_def)
  moreover have "flush_moves s s" by (rule frame_moves [OF flush_frame_refl])
  ultimately show ?thesis using True by (auto simp: flush_thread_round_def)
next
  case False
  note I = nvm_invD [OF inv]
  let ?iq = "volume_inuse_lfqueue s"
  have iq: "lfq_ok (1025 + m) ?iq" "capacity ?iq = max_volume_entry s" using I(2) by (simp_all add: queue_inv_def queues_ok_def)
  then have "length (contents ?iq) \<noteq> 0" using False by (metis lfq_ok_def unat_get_size unat_eq_zero)
  then obtain x cs where c: "contents ?iq = x # cs" by (cases "contents ?iq") auto
  obtain q where q: "dequeue ?iq = Inr (x, q)" "contents q = cs" "lfq_ok (1025 + m) q" "capacity q = capacity ?iq"
    using dequeue_ok [OF iq(1) c] by blast
  let ?v = "unat x" and ?s = "s\<lparr>volume_inuse_lfqueue := q\<rparr>"
  have v: "?v \<in> inuse s" using I(11) c by (auto simp: volq_inv_def idxs_def)
  then have vV: "?v < nV s" by (rule inuse_less)
  have vl: "?v < length (inode_dirty_lfqueue s)" using vV I(1) by (simp add: shape_inv_def)
  have f0: "flush_inv ck (1025 + m) s ?v []" using inv nvm_inv_flush by blast
  have cq: "capacity q = max_volume_entry s" using q(4) iq(2) by simp
  note Q = inuse_queue_inv [OF f0 q(3) cq order.refl]
  have "\<exists>s2. (if get_size (inode_dirty_lfqueue ?s ! ?v) > 1 then nvm_flush ?s ?v else Inr ?s) = Inr s2 \<and>
      flush_inv ck (1 + m) s2 ?v [] \<and> abs_store s2 = abs_store s \<and> flush_frame ?s s2"
  proof (cases "get_size (inode_dirty_lfqueue s ! ?v) > 1")
    case True
    have "lfq_ok (1025 + m) (inode_dirty_lfqueue s ! ?v)" using queue_member(2) [OF I(2) vl] by simp
    then have "contents (inode_dirty_lfqueue ?s ! ?v) \<noteq> []"
      using True unat_get_size [of "inode_dirty_lfqueue s ! ?v"] by (auto simp: lfq_ok_def word_less_nat_alt)
    moreover have "1025 + m = 1024 + (1 + m)" by simp
    ultimately show ?thesis using nvm_flush_held [of ck "1 + m" ?s ?v] Q(1,2,5) v io True by auto
  next
    case False
    have "flush_inv ck (1 + m) ?s ?v []"
      using Q(1) queue_inv_less [of "1025 + m" ?s "1 + m"] by (simp add: flush_inv_def)
    with False Q(2) show ?thesis by (simp add: flush_frame_refl)
  qed
  then obtain s2 where s2: "(if get_size (inode_dirty_lfqueue ?s ! ?v) > 1 then nvm_flush ?s ?v else Inr ?s) = Inr s2"
     "flush_inv ck (1 + m) s2 ?v []" "abs_store s2 = abs_store s" "flush_frame ?s s2" by blast
  have vq2: "volume_inuse_lfqueue s2 = q" "volume_free_lfqueue s2 = volume_free_lfqueue s" "inuse s2 = inuse s" "nV s2 = nV s"
    using s2(4) by (auto simp: flush_frame_def inuse_def vid_of_def)
  have qs: "distinct (idxs ?iq)" "set (idxs ?iq) = inuse s" using I(11) by (simp_all add: volq_inv_def)
  have "length (contents ?iq) \<le> nV s" using lfq.waiting_room [OF iq(1)] iq(2) by simp
  then have "length (contents q) < cap_of q" using c q iq by simp
  moreover have "lfq_ok (Suc m) q" using lfq_ok_less [OF q(3), of "Suc m"] by simp
  ultimately obtain q' where q': "enqueue q x = Inr q'" "contents q' = contents q @ [x]" "lfq_ok m q'" "capacity q' = capacity q"
    using enqueue_ok [of m q x] by blast
  let ?s' = "s2\<lparr>volume_inuse_lfqueue := q'\<rparr>"
  have f1: "flush_inv ck (1 + m) s2 0 []" using s2(2) by (simp add: flush_inv_def held_Nil)
  have "capacity q' = max_volume_entry s2" using q'(4) cq s2(4) by (simp add: flush_frame_def)
  note Q' = inuse_queue_inv [OF f1 q'(3) this le_add2]
  have "volq_inv ?s'"
    using I(11) qs vq2 q' q(2) c Q'(5) by (auto simp: volq_inv_def idxs_def)
  then have "nvm_inv ck m ?s'" using Q'(1) by (simp add: nvm_inv_def)
  moreover have "abs_store ?s' = abs_store s" using s2(3) Q'(2) by simp
  moreover have "flush_moves s ?s'"
    using frame_moves [OF s2(4)] unfolding flush_moves_def Q(3-7) Q'(3-7) by simp
  moreover have "flush_thread_round s = Inr ?s'"
    using False q(1) s2(1) vl vq2(1) q'(1) by (auto simp: flush_thread_round_def Let_def)
  ultimately show ?thesis by blast
qed

end
