(* ===== verification/NVM_Close_Inv.thy ===== *)
theory NVM_Close_Inv
  imports NVM_Init_Inv NVM_Flush_Inv
begin

text \<open>
  Closing the system: after the dirty queues are written out the files hold the abstract store, and
  after the two syncs the device does.
\<close>

section \<open>Writing out the dirty queues\<close>

text \<open>The blocks whose inodes still wait in some dirty queue.\<close>

definition pending :: "'m nvm \<Rightarrow> u32 lfqueue list \<Rightarrow> u32 \<Rightarrow> u32 \<Rightarrow> bool" where
  "pending s qs x l \<longleftrightarrow> (\<exists>u < nV s. \<exists>i \<in> set (idxs (qs ! u)). key s i = Some (u, l) \<and> vid_of s u = x)"

definition draining :: "'m nvm \<Rightarrow> 'm nvm \<Rightarrow> bool" where
  "draining s t \<longleftrightarrow> (\<exists>os qs. t = s\<lparr>system := os, inode_dirty_lfqueue := qs\<rparr> \<and>
     fds os = fds (system s) \<and> next_fd os = next_fd (system s) \<and> io_error os = io_error (system s) \<and>
     open_fails os = open_fails (system s) \<and>
     length qs = nV s \<and> (\<forall>u < nV s. lfq_ok 0 (qs ! u) \<and> set (idxs (qs ! u)) \<subseteq> set (idxs (inode_dirty_lfqueue s ! u))) \<and>
     (\<forall>v \<in> inuse s. files os (get_filename (vid_of s v)) \<noteq> None) \<and>
     (\<forall>x l. \<not> pending s qs x l \<longrightarrow> file_block t x l = abs_store s x l))"

lemma drained_start:
  assumes inv: "nvm_inv ck m s"
  shows "draining s s"
proof -
  note I = nvm_invD [OF inv]
  have "file_block s x l = abs_store s x l" if np: "\<not> pending s (inode_dirty_lfqueue s) x l" for x l
  proof (cases "cached s x l")
    case False
    then show ?thesis using I(10) abs_uncached [OF False] by (simp add: disk_inv_def)
  next
    case True
    then obtain i v where k: "key s i = Some (v, l)" "vid_of s v = x" by (auto simp: cached_def)
    note K = key_Some [OF k(1)]
    have vV: "v < nV s" using inuse_less [OF key_inuse [OF I(9) k(1)]] .
    have "st s i \<noteq> DIRTY"
    proof
      assume d: "st s i = DIRTY"
      have "i \<in> set (idxs (inode_dirty_lfqueue s ! v))" using I(5) vV K d by (simp add: dirty_inv_def)
      with np k vV show False by (auto simp: pending_def)
    qed
    then have "st s i = SYNC \<or> st s i = CLEAN" using K by (cases "st s i") auto
    then have "file_block s (vid_of s v) l = data_of s i" using I(10) k(1) unfolding disk_inv_def by blast
    then show ?thesis using abs_cached [OF I(9,8) k(1)] k(2) by simp
  qed
  moreover have "lfq_ok 0 (inode_dirty_lfqueue s ! u)" if "u < nV s" for u
    using queue_member(2) [OF I(2)] I(1) that lfq_ok_less [of m _ 0] by (simp add: shape_inv_def)
  ultimately show ?thesis
    unfolding draining_def using I(1,8)
    by (intro exI [of _ "system s"] exI [of _ "inode_dirty_lfqueue s"]) (simp add: shape_inv_def volume_inv_def)
qed

lemma drain_step:
  assumes inv: "nvm_inv ck m s" and io: "\<not> io_error (system s)" and v: "v < nV s" and d: "draining s t"
    and c: "contents (inode_dirty_lfqueue t ! v) = x # cs"
  shows "\<exists>qs t'. deq_at (inode_dirty_lfqueue t) v = Inr (x, qs) \<and>
    close_write (t\<lparr>inode_dirty_lfqueue := qs\<rparr>) x = Inr t' \<and> draining s t' \<and>
    contents (inode_dirty_lfqueue t' ! v) = cs \<and>
    (\<forall>u. u \<noteq> v \<longrightarrow> inode_dirty_lfqueue t' ! u = inode_dirty_lfqueue t ! u)"
proof -
  note I = nvm_invD [OF inv]
  obtain os qs where t: "t = s\<lparr>system := os, inode_dirty_lfqueue := qs\<rparr>"
    and os: "fds os = fds (system s)" "next_fd os = next_fd (system s)" "io_error os = io_error (system s)"
      "open_fails os = open_fails (system s)"
    and qs: "length qs = nV s" "\<forall>u < nV s. lfq_ok 0 (qs ! u) \<and> set (idxs (qs ! u)) \<subseteq> set (idxs (inode_dirty_lfqueue s ! u))"
    and fe: "\<forall>v \<in> inuse s. files os (get_filename (vid_of s v)) \<noteq> None"
    and fb: "\<forall>x l. \<not> pending s qs x l \<longrightarrow> file_block t x l = abs_store s x l"
    using d unfolding draining_def by blast
  have c': "contents (qs ! v) = x # cs" using c by (simp add: t)
  have ok: "lfq_ok 0 (qs ! v)" using qs v by blast
  obtain q where q: "dequeue (qs ! v) = Inr (x, q)" "contents q = cs" "lfq_ok 0 q"
    using lfq.deq_front [OF ok c'] by blast
  let ?qs = "qs[v := q]" and ?i = "unat x"
  have deq: "deq_at (inode_dirty_lfqueue t) v = Inr (x, ?qs)" using q v qs by (simp add: deq_at_def t)
  have "?i \<in> set (idxs (qs ! v))" using c' by (simp add: idxs_def)
  then have "?i \<in> {i. i < nI s \<and> st s i = DIRTY \<and> in_volume (inode_table s ! i) = Some v}"
    using qs(2) v I(5) unfolding dirty_inv_def by blast
  then have i: "?i < nI s" "st s ?i = DIRTY" "in_volume (inode_table s ! ?i) = Some v" by simp_all
  let ?l = "in_lbn (inode_table s ! ?i)"
  have k: "key s ?i = Some (v, ?l)" using i by (simp add: key_def)
  have vi: "v \<in> inuse s" using key_inuse [OF I(9) k] .
  have len: "length (inode_table s) = nI s" "length (volume_table s) = nV s" using I(1) by (simp_all add: shape_inv_def)
  have ob: "unat (in_block (inode_table s ! ?i)) < length (block_table s)" using owner_block(1) [OF I(1,3) i(1)] .
  then have bl: "length (data_of s ?i) = bsz s" using I(1) by (simp add: data_of_def shape_inv_def)
  have "fds os (ve_fd (volume_table s ! v)) = Some (get_filename (vid_of s v))"
    using I(8) vi os(1) by (simp add: volume_inv_def)
  then have r: "close_write (t\<lparr>inode_dirty_lfqueue := ?qs\<rparr>) x =
      Inr (wrote (t\<lparr>inode_dirty_lfqueue := ?qs\<rparr>) (vid_of s v) (unat ?l) [data_of s ?i])"
    using i v len ob bl io os(3)
    by (simp add: close_write_def t sys_pwrite_def wrote_def data_of_def vid_of_def)
  let ?t = "wrote (t\<lparr>inode_dirty_lfqueue := ?qs\<rparr>) (vid_of s v) (unat ?l) [data_of s ?i]"
  obtain f where f: "files os (get_filename (vid_of s v)) = Some f" using fe vi by blast
  have fb': "file_block ?t y l = (if y = vid_of s v \<and> l = ?l then data_of s ?i else file_block t y l)" for y l
  proof -
    have "file_block ?t y l = (if y = vid_of s v \<and> unat ?l \<le> unat l \<and> unat l < unat ?l + 1
        then data_of s ?i else file_block (t\<lparr>inode_dirty_lfqueue := ?qs\<rparr>) y l)"
      using wrote_file_block [of "[data_of s ?i]" "t\<lparr>inode_dirty_lfqueue := ?qs\<rparr>" "vid_of s v" f "unat ?l" y l] bl f
      by (auto simp: t)
    moreover have "unat ?l \<le> unat l \<and> unat l < unat ?l + 1 \<longleftrightarrow> l = ?l" by (auto simp: word_unat_eq_iff)
    moreover have "file_block (t\<lparr>inode_dirty_lfqueue := ?qs\<rparr>) y l = file_block t y l" by (simp add: file_block_def t)
    ultimately show ?thesis by simp
  qed
  have ab: "abs_store s (vid_of s v) ?l = data_of s ?i" using abs_cached [OF I(9,8) k] .
  have qv: "?qs ! u = (if u = v then q else qs ! u)" for u using v qs(1) by (simp add: nth_list_update)
  have qc: "idxs (qs ! v) = ?i # idxs q" using c' q(2) by (simp add: idxs_def)
  have pn: "pending s qs y l \<longrightarrow> pending s ?qs y l \<or> (y = vid_of s v \<and> l = ?l)" for y l
    unfolding pending_def qv using k qc by fastforce
  have "file_block ?t y l = abs_store s y l" if "\<not> pending s ?qs y l" for y l
  proof (cases "y = vid_of s v \<and> l = ?l")
    case True
    have "file_block ?t y l = data_of s ?i" unfolding fb' by (rule if_P [OF True])
    also have "\<dots> = abs_store s y l" using ab True by metis
    finally show ?thesis .
  next
    case False
    then have "\<not> pending s qs y l" using pn that by blast
    then have "file_block t y l = abs_store s y l" using fb by blast
    moreover have "file_block ?t y l = file_block t y l" unfolding fb' by (rule if_not_P [OF False])
    ultimately show ?thesis by (rule trans [rotated])
  qed
  moreover have "lfq_ok 0 (?qs ! u)" "set (idxs (?qs ! u)) \<subseteq> set (idxs (inode_dirty_lfqueue s ! u))" if "u < nV s" for u
  proof -
    have o: "lfq_ok 0 (qs ! u)" "set (idxs (qs ! u)) \<subseteq> set (idxs (inode_dirty_lfqueue s ! u))"
      using qs(2) that by blast+
    show "lfq_ok 0 (?qs ! u)" using o(1) q(3) unfolding qv by simp
    have "set (idxs q) \<subseteq> set (idxs (qs ! v))" using qc by auto
    then show "set (idxs (?qs ! u)) \<subseteq> set (idxs (inode_dirty_lfqueue s ! u))"
      using o(2) unfolding qv by (cases "u = v") auto
  qed
  moreover have "?t = s\<lparr>system := system ?t, inode_dirty_lfqueue := ?qs\<rparr>" unfolding wrote_def t by simp
  moreover have "fds (system ?t) = fds (system s)" "next_fd (system ?t) = next_fd (system s)"
    "io_error (system ?t) = io_error (system s)" "open_fails (system ?t) = open_fails (system s)"
    using os by (simp_all add: wrote_def t)
  moreover have "files (system ?t) (get_filename (vid_of s u)) \<noteq> None" if "u \<in> inuse s" for u
    using fe that by (simp add: wrote_def t)
  moreover have "length ?qs = nV s" using qs(1) by simp
  ultimately have "draining s ?t" unfolding draining_def by blast
  moreover have "inode_dirty_lfqueue ?t = ?qs" by (simp add: wrote_def)
  ultimately show ?thesis using deq r q(2) qv by (intro exI [of _ ?qs] exI [of _ ?t]) (simp add: t)
qed

lemma drain_volume:
  assumes inv: "nvm_inv ck m s" and io: "\<not> io_error (system s)" and v: "v < nV s" and d: "draining s t"
  shows "\<exists>t'. close_drain v t = Inr t' \<and> draining s t' \<and> contents (inode_dirty_lfqueue t' ! v) = [] \<and>
    (\<forall>u. u \<noteq> v \<longrightarrow> inode_dirty_lfqueue t' ! u = inode_dirty_lfqueue t ! u)"
  using d
proof (induction "contents (inode_dirty_lfqueue t ! v)" arbitrary: t)
  case Nil
  have "v < length (inode_dirty_lfqueue t)" "lfq_ok 0 (inode_dirty_lfqueue t ! v)"
    using Nil.prems v unfolding draining_def by auto
  moreover from this have "is_empty (inode_dirty_lfqueue t ! v)" using Nil.hyps by (simp add: is_empty_iff lfq_ok_def)
  ultimately show ?case using Nil.hyps Nil.prems by (subst close_drain.simps) simp
next
  case (Cons x cs)
  obtain qs t' where s': "deq_at (inode_dirty_lfqueue t) v = Inr (x, qs)"
    "close_write (t\<lparr>inode_dirty_lfqueue := qs\<rparr>) x = Inr t'" "draining s t'"
    "contents (inode_dirty_lfqueue t' ! v) = cs"
    "\<forall>u. u \<noteq> v \<longrightarrow> inode_dirty_lfqueue t' ! u = inode_dirty_lfqueue t ! u"
    using drain_step [OF inv io v Cons.prems Cons.hyps(2) [symmetric]] by blast
  have "v < length (inode_dirty_lfqueue t)" "lfq_ok 0 (inode_dirty_lfqueue t ! v)"
    using Cons.prems v unfolding draining_def by auto
  moreover from this have "\<not> is_empty (inode_dirty_lfqueue t ! v)"
    using Cons.hyps(2) by (metis is_empty_iff lfq_ok_def list.distinct(1))
  ultimately have "close_drain v t = close_drain v t'" using s'(1,2) by (subst close_drain.simps) simp
  moreover obtain t'' where "close_drain v t' = Inr t''" "draining s t''" "contents (inode_dirty_lfqueue t'' ! v) = []"
    "\<forall>u. u \<noteq> v \<longrightarrow> inode_dirty_lfqueue t'' ! u = inode_dirty_lfqueue t' ! u"
    using Cons.hyps(1) [OF s'(4) [symmetric] s'(3)] by blast
  ultimately show ?case using s'(5) by auto
qed

lemma drain_all:
  assumes inv: "nvm_inv ck m s" and io: "\<not> io_error (system s)"
  shows "\<exists>t. for_upto close_drain (nV s) s = Inr t \<and> draining s t \<and> file_block t = abs_store s"
proof -
  let ?P = "\<lambda>n t. draining s t \<and> (\<forall>u < n. contents (inode_dirty_lfqueue t ! u) = [])"
  have "?P 0 s" using drained_start [OF inv] by simp
  then have "\<exists>t. for_upto close_drain (nV s) s = Inr t \<and> ?P (nV s) t"
  proof (rule for_upto_inv)
    fix i t assume i: "i < nV s" "?P i t"
    from drain_volume [OF inv io i(1)] i(2) obtain t' where t': "close_drain i t = Inr t'" "draining s t'"
      "contents (inode_dirty_lfqueue t' ! i) = []"
      "\<forall>u. u \<noteq> i \<longrightarrow> inode_dirty_lfqueue t' ! u = inode_dirty_lfqueue t ! u" by blast
    then show "\<exists>t'. close_drain i t = Inr t' \<and> ?P (Suc i) t'"
      using i(2) by (intro exI [of _ t']) (auto simp: less_Suc_eq)
  qed
  then obtain t where t: "for_upto close_drain (nV s) s = Inr t" "draining s t"
    "\<forall>u < nV s. contents (inode_dirty_lfqueue t ! u) = []" by blast
  then have "file_block t x l = abs_store s x l" for x l
    by (auto simp: draining_def pending_def idxs_def)
  with t show ?thesis by (intro exI [of _ t]) (simp add: fun_eq_iff)
qed

section \<open>Closing the volumes\<close>

definition closing :: "'m nvm \<Rightarrow> 'm nvm \<Rightarrow> bool" where
  "closing s t \<longleftrightarrow> (\<exists>q os vt. t = s\<lparr>volume_inuse_lfqueue := q, system := os, volume_table := vt\<rparr> \<and>
     files os = files (system s) \<and> durable os = durable (system s) \<and> next_fd os = next_fd (system s) \<and>
     open_fails os = open_fails (system s) \<and> io_error os = io_error (system s) \<and>
     map (\<lambda>e. (ve_vid e, ve_fd e, ve_block e)) vt = map (\<lambda>e. (ve_vid e, ve_fd e, ve_block e)) (volume_table s) \<and>
     lfq_ok 0 q \<and> set (idxs q) \<subseteq> {..<length (volume_table s)} \<and>
     (\<forall>v < length (volume_table s). v \<notin> set (idxs q) \<longrightarrow>
        ve_table (vt ! v) = None \<and> (ve_table (volume_table s ! v) \<noteq> None \<longrightarrow> fds os (ve_fd (volume_table s ! v)) = None)))"

lemma close_volumes_ok:
  assumes "closing s t"
  shows "\<exists>t'. close_volumes t = Inr t' \<and> closing s t' \<and> contents (volume_inuse_lfqueue t') = []"
  using assms
proof (induction "contents (volume_inuse_lfqueue t)" arbitrary: t)
  case Nil
  then have "lfq_ok 0 (volume_inuse_lfqueue t)" by (auto simp: closing_def)
  then have "is_empty (volume_inuse_lfqueue t)" using Nil.hyps by (simp add: is_empty_iff lfq_ok_def)
  with Nil show ?case by (subst close_volumes.simps) simp
next
  case (Cons x cs)
  obtain q os vt where t: "t = s\<lparr>volume_inuse_lfqueue := q, system := os, volume_table := vt\<rparr>"
    and os: "files os = files (system s)" "durable os = durable (system s)" "next_fd os = next_fd (system s)"
      "open_fails os = open_fails (system s)" "io_error os = io_error (system s)"
    and vt: "map (\<lambda>e. (ve_vid e, ve_fd e, ve_block e)) vt = map (\<lambda>e. (ve_vid e, ve_fd e, ve_block e)) (volume_table s)"
    and q: "lfq_ok 0 q" "set (idxs q) \<subseteq> {..<length (volume_table s)}"
    and cl: "\<forall>v < length (volume_table s). v \<notin> set (idxs q) \<longrightarrow>
        ve_table (vt ! v) = None \<and> (ve_table (volume_table s ! v) \<noteq> None \<longrightarrow> fds os (ve_fd (volume_table s ! v)) = None)"
    using Cons.prems unfolding closing_def by blast
  have len: "length vt = length (volume_table s)" using map_eq_imp_length_eq [OF vt] .
  have c: "contents q = x # cs" using Cons.hyps(2) by (simp add: t)
  obtain q' where q': "dequeue q = Inr (x, q')" "contents q' = cs" "lfq_ok 0 q'"
    using lfq.deq_front [OF q(1) c] by blast
  let ?v = "unat x"
  have qc: "idxs q = ?v # idxs q'" using c q'(2) by (simp add: idxs_def)
  have v: "?v < length (volume_table s)" using qc q(2) by simp
  have "\<not> is_empty q" using c q(1) by (metis is_empty_iff lfq_ok_def list.distinct(1))
  let ?vt = "vt[?v := (vt ! ?v)\<lparr>ve_table := None\<rparr>]" and ?os = "sys_close os (ve_fd (vt ! ?v))"
  let ?t = "s\<lparr>volume_inuse_lfqueue := q', system := ?os, volume_table := ?vt\<rparr>"
  have fdv: "ve_fd (vt ! u) = ve_fd (volume_table s ! u)" if "u < length (volume_table s)" for u
  proof -
    have "map (\<lambda>e. (ve_vid e, ve_fd e, ve_block e)) vt ! u = map (\<lambda>e. (ve_vid e, ve_fd e, ve_block e)) (volume_table s) ! u"
      by (simp add: vt)
    then show ?thesis using that len by simp
  qed
  have step: "close_volumes t = close_volumes ?t"
    using \<open>\<not> is_empty q\<close> q'(1) v len by (subst close_volumes.simps) (simp add: t)
  have "map (\<lambda>e. (ve_vid e, ve_fd e, ve_block e)) ?vt = map (\<lambda>e. (ve_vid e, ve_fd e, ve_block e)) vt"
    using v len by (intro nth_equalityI) (simp_all add: nth_list_update)
  then have vt': "map (\<lambda>e. (ve_vid e, ve_fd e, ve_block e)) ?vt = map (\<lambda>e. (ve_vid e, ve_fd e, ve_block e)) (volume_table s)"
    using vt by simp
  have cl': "ve_table (?vt ! u) = None \<and> (ve_table (volume_table s ! u) \<noteq> None \<longrightarrow> fds ?os (ve_fd (volume_table s ! u)) = None)"
    if u: "u < length (volume_table s)" "u \<notin> set (idxs q')" for u
  proof (cases "u = ?v")
    case True
    then show ?thesis using v len fdv [OF v] by (simp add: sys_close_def)
  next
    case False
    then have "u \<notin> set (idxs q)" using qc u(2) by simp
    with cl u(1) have "ve_table (vt ! u) = None" "ve_table (volume_table s ! u) \<noteq> None \<longrightarrow> fds os (ve_fd (volume_table s ! u)) = None"
      by blast+
    with False show ?thesis by (simp add: sys_close_def)
  qed
  have "closing s ?t"
    unfolding closing_def
  proof (intro exI conjI)
    show "?t = s\<lparr>volume_inuse_lfqueue := q', system := ?os, volume_table := ?vt\<rparr>" ..
    show "set (idxs q') \<subseteq> {..<length (volume_table s)}" using q(2) qc by simp
    show "\<forall>v < length (volume_table s). v \<notin> set (idxs q') \<longrightarrow> ve_table (?vt ! v) = None \<and>
      (ve_table (volume_table s ! v) \<noteq> None \<longrightarrow> fds ?os (ve_fd (volume_table s ! v)) = None)" using cl' by blast
  qed (use os vt' q'(3) in \<open>simp_all add: sys_close_def\<close>)
  with step Cons.hyps(1) [of ?t] q'(2) show ?case by simp
qed

section \<open>The close\<close>

lemma nvm_system_close_ok:
  assumes inv: "nvm_inv ck m s" and io: "\<not> io_error (system s)"
  shows "\<exists>s'. nvm_system_close s = Inr s' \<and> disk_block s' = abs_store s \<and> durable (system s') = files (system s') \<and>
    (\<forall>i < nI s. st s' i \<noteq> DIRTY \<and> st s' i \<noteq> SYNC) \<and>
    (\<forall>v \<in> inuse s. fds (system s') (ve_fd (volume_table s ! v)) = None) \<and>
    (\<forall>v < nV s. ve_table (volume_table s' ! v) = None) \<and> contents (volume_inuse_lfqueue s') = [] \<and>
    block_owners s' = block_owners s \<and> block_table s' = block_table s \<and> block_size s' = block_size s \<and>
    max_inode_entry s' = max_inode_entry s \<and> max_volume_entry s' = max_volume_entry s \<and>
    length (inode_table s') = nI s \<and> length (volume_table s') = nV s \<and> sys_terminate s' \<and>
    open_fails (system s') = open_fails (system s) \<and> next_fd (system s') = next_fd (system s)"
proof -
  note I = nvm_invD [OF inv]
  let ?s0 = "s\<lparr>sys_terminate := True\<rparr>"
  have inv0: "nvm_inv ck m ?s0"
  proof -
    have fn: "st ?s0 = st s" "key ?s0 = key s" "data_of ?s0 = data_of s" "disk_block ?s0 = disk_block s"
      "file_block ?s0 = file_block s" "vid_of ?s0 = vid_of s" "inuse ?s0 = inuse s" "lookup ck ?s0 = lookup ck s"
      "cached ?s0 = cached s"
      by (simp_all add: fun_eq_iff state_funs)
    show ?thesis
      using I by (simp add: nvm_inv_def flush_inv_def held_Nil shape_inv_def queue_inv_def block_inv_def block_owners_def
          free_inv_def dirty_inv_def sync_inv_def clean_inv_def volume_inv_def hash_inv_def disk_inv_def volq_inv_def fn)
  qed
  have ab0: "abs_store ?s0 = abs_store s"
    by (rule abs_cong) (simp_all add: fun_eq_iff state_funs)
  obtain t where t: "for_upto close_drain (nV s) ?s0 = Inr t" "draining ?s0 t" "file_block t = abs_store s"
    using drain_all [OF inv0] io ab0 by auto
  obtain os qs where tt: "t = s\<lparr>sys_terminate := True, system := os, inode_dirty_lfqueue := qs\<rparr>"
    "fds os = fds (system s)" "next_fd os = next_fd (system s)" "io_error os = io_error (system s)"
    "open_fails os = open_fails (system s)"
    using t(2) unfolding draining_def by auto
  let ?s2 = "t\<lparr>system := sys_sync (sys_sync os)\<rparr>"
  let ?it = "upd_upto (\<lambda>_. settle) (nI s) (inode_table s)"
  let ?s3 = "?s2\<lparr>inode_table := ?it\<rparr>"
  have len: "length (inode_table s) = nI s" "length (volume_table s) = nV s" using I(1) by (simp_all add: shape_inv_def)
  have ci: "for_upto clean_inode (nI s) ?s2 = Inr ?s3" using clean_inodes [of "nI s" ?s2] len by (simp add: tt)
  have "lfq_ok 0 (volume_inuse_lfqueue s)"
    using I(2) lfq_ok_less [of m "volume_inuse_lfqueue s" 0] by (simp add: queue_inv_def queues_ok_def)
  moreover have "set (idxs (volume_inuse_lfqueue s)) = inuse s" using I(11) by (simp add: volq_inv_def)
  ultimately have "closing ?s3 ?s3"
    unfolding closing_def using I(8) len inuse_less [of _ s]
    by (intro exI [of _ "volume_inuse_lfqueue s"] exI [of _ "sys_sync (sys_sync os)"] exI [of _ "volume_table s"])
      (auto simp: tt volume_inv_def)
  then obtain s' where s': "close_volumes ?s3 = Inr s'" "closing ?s3 s'" "contents (volume_inuse_lfqueue s') = []"
    using close_volumes_ok by blast
  have r: "nvm_system_close s = Inr s'"
    using t(1) ci s'(1) by (simp add: nvm_system_close_def Let_def tt)
  obtain q os' vt where s'e: "s' = ?s3\<lparr>volume_inuse_lfqueue := q, system := os', volume_table := vt\<rparr>"
    and os': "files os' = files os" "durable os' = files os" "next_fd os' = next_fd os" "open_fails os' = open_fails os"
    and vt: "map (\<lambda>e. (ve_vid e, ve_fd e, ve_block e)) vt = map (\<lambda>e. (ve_vid e, ve_fd e, ve_block e)) (volume_table s)"
    and cl: "\<forall>v < nV s. v \<notin> set (idxs q) \<longrightarrow> ve_table (vt ! v) = None \<and>
       (ve_table (volume_table s ! v) \<noteq> None \<longrightarrow> fds os' (ve_fd (volume_table s ! v)) = None)"
    using s'(2) len unfolding closing_def by (auto simp: tt sys_sync_def)
  have qe: "idxs q = []" using s'(3) by (simp add: s'e idxs_def)
  have vb: "map ve_block vt = map ve_block (volume_table s)"
  proof -
    have "map (snd \<circ> snd) (map (\<lambda>e. (ve_vid e, ve_fd e, ve_block e)) vt) =
        map (snd \<circ> snd) (map (\<lambda>e. (ve_vid e, ve_fd e, ve_block e)) (volume_table s))"
      by (simp only: vt)
    then show ?thesis by (simp add: comp_def)
  qed
  have ib: "map in_block ?it = map in_block (inode_table s)"
    using len by (intro nth_equalityI) (simp_all add: settle_def)
  have st': "st s' i \<noteq> DIRTY \<and> st s' i \<noteq> SYNC" if "i < nI s" for i
    using that len by (simp add: s'e st_def settle_def)
  have "disk_block s' x l = file_block t x l" for x l
    by (simp add: disk_block_def file_block_def s'e os' tt)
  then have db: "disk_block s' = abs_store s" using t(3) by (intro ext) metis
  have tab: "\<forall>v < nV s. ve_table (volume_table s' ! v) = None" using cl qe by (simp add: s'e)
  have fd: "\<forall>v \<in> inuse s. fds (system s') (ve_fd (volume_table s ! v)) = None"
  proof
    fix v assume v: "v \<in> inuse s"
    then have "ve_table (volume_table s ! v) \<noteq> None" using I(8) unfolding volume_inv_def by blast
    with cl qe inuse_less [OF v] show "fds (system s') (ve_fd (volume_table s ! v)) = None" by (simp add: s'e)
  qed
  have vl: "length vt = nV s" using map_eq_imp_length_eq [OF vt] len by simp
  show ?thesis
    using r db st' tab fd s'(3)
    by (intro exI [of _ s'] conjI) (use len vl in \<open>simp_all add: s'e os' tt block_owners_def vb ib\<close>)
qed

section \<open>Power failure and restart\<close>

lemma boot_after_failure:
  assumes t: "tables_ok s" and n: "0 < nI s" "nI s \<le> 2 ^ 26" "0 < nV s" "nV s \<le> 2 ^ 31" "0 < bsz s" "bsz s < 2 ^ 22"
  shows "boot_ok (power_failure s)" "file_block (power_failure s) = disk_block s"
proof -
  let ?p = "power_failure s"
  have len: "length (volume_table s) = nV s" "length (inode_table s) = nI s" using t by (simp_all add: tables_ok_def)
  have f: "max_inode_entry ?p = max_inode_entry s" "max_volume_entry ?p = max_volume_entry s" "block_size ?p = block_size s"
    "inode_table ?p = inode_table s" "block_table ?p = block_table s"
    "volume_table ?p = map (\<lambda>e. e\<lparr>ve_table := None\<rparr>) (volume_table s)"
    by (simp_all add: power_failure_def)
  have "map ve_block (volume_table ?p) = map ve_block (volume_table s)" by (simp add: f)
  then have "block_owners ?p = block_owners s" by (simp add: block_owners_def f)
  then have "tables_ok ?p" using t by (simp add: tables_ok_def block_inv_def unsaved_def st_def f)
  then show "boot_ok ?p" using n len by (simp add: boot_ok_def f) (simp add: power_failure_def)
  show "file_block ?p = disk_block s" by (intro ext) (simp add: file_block_def disk_block_def power_failure_def)
qed

lemma failure_same:
  "unsaved (power_failure s) = unsaved s" "data_of (power_failure s) = data_of s"
  "inode_table (power_failure s) = inode_table s" "block_size (power_failure s) = block_size s"
  by (simp_all add: power_failure_def vid_of_def unsaved_def st_def data_of_def fun_eq_iff)

lemma running_tables:
  assumes "nvm_inv ck m s"
  shows "tables_ok s" "0 < nI s" "nI s \<le> 2 ^ 26" "0 < bsz s" "bsz s < 2 ^ 22" "0 < nV s"
proof -
  note I = nvm_invD [OF assms]
  show "0 < nI s" "nI s \<le> 2 ^ 26" "0 < bsz s" "bsz s < 2 ^ 22" using I(1) by (simp_all add: shape_inv_def)
  have "\<exists>v < nV s. in_volume (inode_table s ! i) = Some v" if "unsaved s i" for i
  proof -
    have "i < nI s" "st s i \<noteq> FREE" using that by (auto simp: unsaved_def)
    then obtain v where "v \<in> inuse s" "in_volume (inode_table s ! i) = Some v"
      using I(9) unfolding hash_inv_def by blast
    then show ?thesis using inuse_less by blast
  qed
  then show "tables_ok s" using I(1,3) by (simp add: tables_ok_def shape_inv_def)
  have "lfq_ok m (volume_free_lfqueue s)" "capacity (volume_free_lfqueue s) = max_volume_entry s"
    using I(2) by (simp_all add: queue_inv_def queues_ok_def)
  then show "0 < nV s" by (auto simp: lfq_ok_def lfq_inv_def Let_def)
qed

text \<open>Whatever was cached, the store after a power failure and a start is what the device held.\<close>

lemma restart_ok:
  assumes inv: "nvm_inv ck m s" and V: "nV s \<le> 2 ^ 31" and k: "k \<le> 2 ^ 61"
  shows "\<exists>s'. nvm_system_init raw (power_failure s) = Inr s' \<and> nvm_inv ck' k s' \<and> abs_store s' = disk_block s \<and>
    (recoverable (power_failure s) \<longrightarrow>
       (\<forall>j. unsaved s j \<longrightarrow> saved_block (power_failure s) (system s') j = data_of s j))"
proof -
  note R = running_tables [OF inv]
  note B = boot_after_failure [OF R(1,2,3,6) V R(4,5)]
  from nvm_system_init_ok [OF B(1) k, of raw ck'] show ?thesis unfolding B(2) failure_same(1,2) by blast
qed

lemma close_restart_ok:
  assumes inv: "nvm_inv ck m s" and V: "nV s \<le> 2 ^ 31" and io: "\<not> io_error (system s)" and k: "k \<le> 2 ^ 61"
  shows "\<exists>s1 s2. nvm_system_close s = Inr s1 \<and> nvm_system_init raw (power_failure s1) = Inr s2 \<and>
    nvm_inv ck k s2 \<and> abs_store s2 = abs_store s"
proof -
  note R = running_tables [OF inv] and I = nvm_invD [OF inv]
  obtain s1 where s1: "nvm_system_close s = Inr s1" "disk_block s1 = abs_store s"
    "\<forall>i < nI s. st s1 i \<noteq> DIRTY \<and> st s1 i \<noteq> SYNC" "block_owners s1 = block_owners s"
    "block_table s1 = block_table s" "block_size s1 = block_size s" "max_inode_entry s1 = max_inode_entry s"
    "max_volume_entry s1 = max_volume_entry s" "length (inode_table s1) = nI s" "length (volume_table s1) = nV s"
    using nvm_system_close_ok [OF inv io] by blast
  have "tables_ok s1" using R(1) s1 by (auto simp: tables_ok_def block_inv_def unsaved_def)
  then have B: "boot_ok (power_failure s1)" "file_block (power_failure s1) = disk_block s1"
    using boot_after_failure [of s1] R V s1(6-8) by simp_all
  from nvm_system_init_ok [OF B(1) k, of raw ck] obtain s2 where
    "nvm_system_init raw (power_failure s1) = Inr s2" "nvm_inv ck k s2" "abs_store s2 = file_block (power_failure s1)"
    by blast
  with s1(1,2) B(2) show ?thesis by metis
qed

text \<open>What the recovery saves, and where.\<close>

lemma recovery_saves:
  assumes inv: "nvm_inv ck m s" and V: "nV s \<le> 2 ^ 31" and k: "k \<le> 2 ^ 61"
    and io: "\<not> io_error (system s)" "\<And>x. \<not> open_fails (system s) (recovery_filename x)"
    and off: "\<And>i. unsaved s i \<Longrightarrow> bsz s * unat (in_lbn (inode_table s ! i)) < 2 ^ 32"
  shows "\<exists>s'. nvm_system_init raw (power_failure s) = Inr s' \<and> nvm_inv ck' k s' \<and>
    (\<forall>i v l. unsaved s i \<longrightarrow> key s i = Some (v, l) \<longrightarrow>
       fblock (bsz s) (files (system s') (recovery_filename (vid_of s v))) (unat l) = abs_store s (vid_of s v) l)"
proof -
  note R = running_tables [OF inv] and I = nvm_invD [OF inv]
  let ?p = "power_failure s"
  have len: "length (volume_table s) = nV s" using I(1) by (simp add: shape_inv_def)
  have vd: "vid_of ?p v = vid_of s v" if "v < nV s" for v using that len by (simp add: power_failure_def vid_of_def)
  have ky: "\<exists>v < nV s. key s i = Some (v, in_lbn (inode_table s ! i)) \<and> in_volume (inode_table s ! i) = Some v"
    if "unsaved s i" for i
    using R(1) that unfolding tables_ok_def by (auto simp: unsaved_def key_def)
  have uniq: "i = j" if u: "unsaved s i" "unsaved s j" and vol: "in_volume (inode_table s ! i) = Some u"
    "in_volume (inode_table s ! j) = Some v" and e: "vid_of ?p u = vid_of ?p v" "in_lbn (inode_table s ! i) = in_lbn (inode_table s ! j)"
  for i j u v
  proof -
    let ?l = "in_lbn (inode_table s ! i)"
    have "key s i = Some (u, ?l)" "u < nV s" "key s j = Some (v, ?l)" "v < nV s"
      using ky [OF u(1)] ky [OF u(2)] vol e(2) by auto
    then show ?thesis using key_unique [OF I(9,8), of i u ?l j v] vd e(1) by simp
  qed
  have rec: "recoverable ?p"
    unfolding recoverable_def failure_same
  proof (intro conjI allI impI)
    show "\<not> io_error (system ?p)" "\<not> open_fails (system ?p) (recovery_filename x)" for x
      using io by (simp_all add: power_failure_def)
    show "bsz s * unat (in_lbn (inode_table s ! i)) < 2 ^ 32" if "unsaved s i" for i by (rule off [OF that])
    show "i = j" if "unsaved s i" "unsaved s j" "in_volume (inode_table s ! i) = Some u"
      "in_volume (inode_table s ! j) = Some v" "vid_of ?p u = vid_of ?p v" "in_lbn (inode_table s ! i) = in_lbn (inode_table s ! j)"
      for i j u v using uniq that by blast
  qed
  from restart_ok [OF inv V k, of raw ck'] obtain s' where s': "nvm_system_init raw ?p = Inr s'" "nvm_inv ck' k s'"
    "\<forall>j. unsaved s j \<longrightarrow> saved_block ?p (system s') j = data_of s j" using rec by blast
  have "fblock (bsz s) (files (system s') (recovery_filename (vid_of s v))) (unat l) = abs_store s (vid_of s v) l"
    if u: "unsaved s i" and k: "key s i = Some (v, l)" for i v l
  proof -
    have "v < nV s" using inuse_less [OF key_inuse [OF I(9) k]] .
    then have "saved_block ?p (system s') i = fblock (bsz s) (files (system s') (recovery_filename (vid_of s v))) (unat l)"
      using key_Some [OF k] vd by (simp add: saved_block_def failure_same(3,4))
    then show ?thesis using s'(3) u abs_cached [OF I(9,8) k] by simp
  qed
  with s'(1,2) show ?thesis by blast
qed

end
