(* ===== verification/NVM_Write.thy ===== *)
theory NVM_Write
  imports NVM_Volume "HOL-Library.Signed_Division"
begin

text \<open>
  The durable write (\<^verbatim>\<open>src/nvm0write.cc\<close>): finding or making the hash node of a block, taking an
  inode from the free queues, and the shadow-block store. \<open>Blocked\<close> is a call that waits: for a
  lock another thread holds, or for the balloon threads to free inodes. The loop over the blocks
  of a write ends when the block counter passes the last block; that counter is 32 bits wide, so
  the loop is a partial function.
\<close>

section \<open>Hash nodes and inodes\<close>

definition isValidNode :: "'m nvm \<Rightarrow> nat option \<Rightarrow> bool res" where
  "isValidNode s node = (case node of None \<Rightarrow> Inr False
     | Some a \<Rightarrow> rbind (deref (nodes s) node) (\<lambda>nd. Inr (hn_is_valid nd)))"

definition isFreeLFQueueEnough :: "'m nvm \<Rightarrow> bool" where
  "isFreeLFQueueEnough s \<longleftrightarrow> inode_free_count s \<ge> DEFAULT_FREE_MIN_COUNT"

text \<open>
  The index of a node's inode: the distance in bytes from the start of the table, cast to 32
  bits before it is divided. A null pointer gives a meaningless number here and is dereferenced
  by the next statement of the caller, which is where the model reports it too.
\<close>

definition get_inode_entry_idx_from_hash :: "nat \<Rightarrow> u32" where
  "get_inode_entry_idx_from_hash i =
     (of_nat (i * SIZEOF_INODE_ENTRY) :: u32) div of_nat SIZEOF_INODE_ENTRY"

definition getFreeInodeFromFreeLFQueue :: "'m nvm \<Rightarrow> nat \<Rightarrow> u32 \<Rightarrow> (u32 \<times> 'm nvm) res" where
  "getFreeInodeFromFreeLFQueue s ve lbn =
     (let free_idx = free_dequeue_idx s in
      rbind (deq_at (inode_free_lfqueue s) (rr free_idx DEFAULT_NUM_FREE)) (\<lambda>(idx, qs).
      rbind (at_index (inode_table s) (unat idx)) (\<lambda>e.
        Inr (idx, s\<lparr>free_dequeue_idx := free_idx + 1, inode_free_lfqueue := qs,
                    inode_table := (inode_table s)[unat idx := e\<lparr>in_lbn := lbn, in_volume := Some ve\<rparr>],
                    inode_free_count := inode_free_count s - 1\<rparr>))))"

text \<open>
  \<open>get_hash_node_with_lock\<close> run alone. Its loop goes round again only while free inodes are
  short, and then only a balloon thread can change that.
\<close>

definition get_hash_node_with_lock :: "'m cuckoo \<Rightarrow> 'm nvm \<Rightarrow> nat \<Rightarrow> u32 \<Rightarrow> (nat \<times> 'm nvm) res" where
  "get_hash_node_with_lock ck s v lbn =
     rbind (at_index (volume_table s) v) (\<lambda>ve.
     case ve_table ve of None \<Rightarrow> Inl NullDeref
     | Some table \<Rightarrow>
       let hash_node = search_hash_node ck table lbn in
       rbind (isValidNode s hash_node) (\<lambda>valid.
       if \<not> valid then
         (if \<not> isFreeLFQueueEnough s then Inl Blocked
          else rbind (getFreeInodeFromFreeLFQueue s v lbn) (\<lambda>(i_idx, s1).
            case hash_node of
              None \<Rightarrow>
                let a = next_node s1 in
                rbind (new_hash_node (inode_table s1) (nodes s1) a (Some (unat i_idx))) (\<lambda>h.
                rbind (insert_hash_node ck (inode_table s1) h table a) (\<lambda>table'.
                rbind (lock_node (s1\<lparr>nodes := h, next_node := a + 1,
                    volume_table := (volume_table s1)[v := ve\<lparr>ve_table := Some table'\<rparr>]\<rparr>) a) (\<lambda>s2.
                  Inr (a, s2))))
            | Some a \<Rightarrow>
                rbind (validate_hash_node (inode_table s1) (nodes s1) hash_node (Some (unat i_idx))) (\<lambda>h.
                rbind (lock_node (s1\<lparr>nodes := h\<rparr>) a) (\<lambda>s2. Inr (a, s2)))))
       else
         (case hash_node of None \<Rightarrow> Inl NullDeref
          | Some a \<Rightarrow> rbind (lock_node s a) (\<lambda>s1. Inr (a, s1)))))"

section \<open>The shadow-block store\<close>

text \<open>
  The data goes to the volume's ownerless block; then the two block indices are exchanged. The
  three stores to non-volatile memory are kept apart: a power failure can fall between them.
\<close>

definition store_block :: "'m nvm \<Rightarrow> u32 \<Rightarrow> u8 list \<Rightarrow> u64 \<Rightarrow> 'm nvm res" where
  "store_block s blk ptr count =
     rbind (at_index (block_table s) (unat blk)) (\<lambda>old.
       if unat count > length ptr \<or> unat count > length old then Inl OutOfBounds
       else Inr (s\<lparr>block_table := (block_table s)[unat blk := take (unat count) ptr @ drop (unat count) old]\<rparr>))"

definition store_volume_block :: "'m nvm \<Rightarrow> nat \<Rightarrow> u32 \<Rightarrow> 'm nvm res" where
  "store_volume_block s v blk =
     rbind (at_index (volume_table s) v) (\<lambda>ve.
       Inr (s\<lparr>volume_table := (volume_table s)[v := ve\<lparr>ve_block := blk\<rparr>]\<rparr>))"

definition store_inode_block :: "'m nvm \<Rightarrow> nat \<Rightarrow> u32 \<Rightarrow> 'm nvm res" where
  "store_inode_block s i blk =
     rbind (at_index (inode_table s) i) (\<lambda>e.
       Inr (s\<lparr>inode_table := (inode_table s)[i := e\<lparr>in_block := blk\<rparr>]\<rparr>))"

definition writeDataToNvmBlock ::
    "'m nvm \<Rightarrow> u32 \<Rightarrow> u32 \<Rightarrow> u8 list \<Rightarrow> u64 \<Rightarrow> (u64 \<times> 'm nvm) res" where
  "writeDataToNvmBlock s inode_index offset ptr count =
     rbind (at_index (inode_table s) (unat inode_index)) (\<lambda>inode.
     case in_volume inode of None \<Rightarrow> Inl NullDeref
     | Some v \<Rightarrow>
       rbind (at_index (volume_table s) v) (\<lambda>ve.
       rbind (store_block s (ve_block ve) ptr count) (\<lambda>s1.
       rbind (store_volume_block s1 v (in_block inode)) (\<lambda>s2.
       rbind (store_inode_block s2 (unat inode_index) (ve_block ve)) (\<lambda>s3.
         Inr (count, s3))))))"

section \<open>The write\<close>

text \<open>One round of the loop in \<open>nvm_durable_write\<close>.\<close>

definition write_block ::
    "'m cuckoo \<Rightarrow> 'm nvm \<Rightarrow> u32 \<Rightarrow> u32 \<Rightarrow> u32 \<Rightarrow> u8 list \<Rightarrow> u32 \<Rightarrow> (u64 \<times> 'm nvm) res" where
  "write_block ck s v_idx lbn local_offset buf local_count =
     rbind (get_hash_node_with_lock ck s (unat v_idx) lbn) (\<lambda>(a, s1).
     rbind (deref (nodes s1) (Some a)) (\<lambda>hash_node.
     case hn_inode hash_node of None \<Rightarrow> Inl NullDeref
     | Some i \<Rightarrow>
       let idx = get_inode_entry_idx_from_hash i in
       rbind (lock_inode s1 i) (\<lambda>s2.
       rbind (at_index (inode_table s2) i) (\<lambda>e.
       let old_state = in_state e in
       rbind (set_inode_state s2 i DIRTY) (\<lambda>s3.
       rbind (writeDataToNvmBlock s3 idx local_offset buf (ucast local_count)) (\<lambda>(n, s4).
       rbind (if old_state \<noteq> DIRTY then
                rbind (enq_at (inode_dirty_lfqueue s4) (unat v_idx) idx) (\<lambda>qs.
                  Inr (s4\<lparr>inode_dirty_count := inode_dirty_count s4 + 1, inode_dirty_lfqueue := qs,
                          mon := (mon s4)\<lparr>mon_dirty := mon_dirty (mon s4) + 1\<rparr>\<rparr>))
              else Inr s4) (\<lambda>s5.
       rbind (unlock_inode s5 i) (\<lambda>s6.
       rbind (unlock_node s6 a) (\<lambda>s7. Inr (n, s7))))))))))"

partial_function (option) write_loop ::
    "'m cuckoo \<Rightarrow> 'm nvm \<Rightarrow> u32 \<Rightarrow> u32 \<Rightarrow> u32 \<Rightarrow> u32 \<Rightarrow> u8 list \<Rightarrow> u64 \<Rightarrow> u32 \<Rightarrow> u64 \<Rightarrow>
     (u64 \<times> 'm nvm) res option" where
  "write_loop ck s v_idx lbn lbn_end local_offset buf count local_count bytes_written =
     (case write_block ck s v_idx lbn local_offset buf local_count of
        Inl e \<Rightarrow> Some (Inl e)
      | Inr r \<Rightarrow>
        let write_count = fst r; s' = snd r;
            count' = count - write_count;
            bytes' = bytes_written + write_count;
            local_count' = (if count' > ucast (block_size s') then block_size s' else ucast count');
            lbn' = lbn + 1
        in if lbn' \<le> lbn_end
           then write_loop ck s' v_idx lbn' lbn_end 0 buf count' local_count' bytes'
           else Some (Inr (bytes', s')))"

text \<open>
  \<open>offset\<close> is a signed 64-bit number and is divided as such; \<open>offset + count - 1\<close> is unsigned.
  The quotients are cut to 32 bits.
\<close>

definition nvm_durable_write ::
    "'m cuckoo \<Rightarrow> 'm nvm \<Rightarrow> u32 \<Rightarrow> u64 \<Rightarrow> u8 list \<Rightarrow> u64 \<Rightarrow> (u64 \<times> 'm nvm) res option" where
  "nvm_durable_write ck s vid offset buf count =
     (case get_volume_entry_idx ck s vid of Inl e \<Rightarrow> Some (Inl e)
      | Inr r \<Rightarrow>
        let v_idx = fst r; s1 = snd r; bs = block_size s1 in
        if bs = 0 then Some (Inl DivByZero)
        else
          let lbn_start = word_of_int (sint offset sdiv uint bs);
              lbn_end = ucast ((offset + count - 1) div ucast bs);
              local_offset = word_of_int (sint offset smod uint bs);
              local_count = bs - local_offset
          in write_loop ck s1 v_idx lbn_start lbn_end local_offset buf count local_count 0)"

end
