(* ===== verification/NVM_Write_Inv.thy ===== *)
theory NVM_Write_Inv
  imports NVM_Write NVM_Inv
begin

text \<open>
  What one round of the durable write does to the state, and that it keeps the invariant: the
  block's abstract content becomes the new data, and nothing else changes in the abstract store.
\<close>

section \<open>Facts of the invariant\<close>

lemma idx_from_hash:
  assumes "i < 2 ^ 26"
  shows "get_inode_entry_idx_from_hash i = of_nat i"
proof -
  have "unat (of_nat (i * 64) :: u32) = i * 64" using assms by (intro unat_of_nat_u32) simp
  then have "unat (get_inode_entry_idx_from_hash i) = i"
    unfolding get_inode_entry_idx_from_hash_def SIZEOF_INODE_ENTRY_def by (simp add: unat_div_distrib)
  moreover have "unat (of_nat i :: u32) = i" using assms by (intro unat_of_nat_u32) simp
  ultimately show ?thesis by (metis word_unat_eq_iff)
qed

lemma free_queues_nonempty:
  assumes "free_inv s" "isFreeLFQueueEnough s"
  shows "contents (inode_free_lfqueue s ! rr n DEFAULT_NUM_FREE) \<noteq> []"
proof -
  let ?q0 = "idxs (inode_free_lfqueue s ! 0)" and ?q1 = "idxs (inode_free_lfqueue s ! 1)"
  have "100 \<le> unat (inode_free_count s)"
    using assms(2) by (simp add: isFreeLFQueueEnough_def DEFAULT_FREE_MIN_COUNT_def word_le_nat_alt)
  then have "100 \<le> length ?q0 + length ?q1" using assms(1) by (simp add: free_inv_def Let_def)
  moreover have d: "int (length ?q0) - int (length ?q1) =
        int (nI s mod 2) + int (unat (free_enqueue_idx s) mod 2) - int (unat (free_dequeue_idx s) mod 2)"
    using assms(1) by (simp add: free_inv_def Let_def)
  moreover have "int (length ?q0) - int (length ?q1) \<le> 2 \<and> - 1 \<le> int (length ?q0) - int (length ?q1)"
    unfolding d by linarith
  ultimately have "?q0 \<noteq> []" "?q1 \<noteq> []" by auto
  then show ?thesis by (auto simp: rr_2 idxs_def mod2_eq_if)
qed

section \<open>The effect of a block write\<close>

text \<open>The inode's entry after the write, and the data its block holds.\<close>

definition new_data :: "'m nvm \<Rightarrow> nat \<Rightarrow> u8 list \<Rightarrow> nat \<Rightarrow> u8 list" where
  "new_data s v buf c = take c buf @ drop c (block_table s ! unat (ve_block (volume_table s ! v)))"

text \<open>
  \<open>hit\<close>: the inode already caches the block; otherwise it comes from the head of a free queue.
\<close>

definition block_written :: "'m cuckoo \<Rightarrow> nat \<Rightarrow> 'm nvm \<Rightarrow> nat \<Rightarrow> u32 \<Rightarrow> u8 list \<Rightarrow> bool \<Rightarrow> nat \<Rightarrow> nat \<Rightarrow> 'm nvm \<Rightarrow> bool" where
  "block_written ck m s v lbn bytes hit i a s' \<longleftrightarrow>
     (let k = rr (free_dequeue_idx s) DEFAULT_NUM_FREE in
     (\<exists>T. inode_table s' = (inode_table s)[i := \<lparr>in_lbn = lbn, in_state = DIRTY, in_volume = Some v,
           in_block = ve_block (volume_table s ! v), in_lock = False\<rparr>] \<and>
        volume_table s' = (volume_table s)[v := (volume_table s ! v)
           \<lparr>ve_table := Some T, ve_block := in_block (inode_table s ! i)\<rparr>] \<and>
        tail_ok (nodes s') T) \<and>
     block_table s' = (block_table s)[unat (ve_block (volume_table s ! v)) := bytes] \<and>
     max_volume_entry s' = max_volume_entry s \<and> max_inode_entry s' = max_inode_entry s \<and>
     block_size s' = block_size s \<and> system s' = system s \<and>
     volume_free_lfqueue s' = volume_free_lfqueue s \<and> volume_inuse_lfqueue s' = volume_inuse_lfqueue s \<and>
     inode_sync_lfqueue s' = inode_sync_lfqueue s \<and> inode_clean_lfqueue s' = inode_clean_lfqueue s \<and>
     free_enqueue_idx s' = free_enqueue_idx s \<and> sync_option s' = sync_option s \<and>
     (if hit then inode_free_lfqueue s' = inode_free_lfqueue s \<and> inode_free_count s' = inode_free_count s \<and>
        free_dequeue_idx s' = free_dequeue_idx s
      else \<exists>q'. inode_free_lfqueue s' = (inode_free_lfqueue s)[k := q'] \<and>
        idxs (inode_free_lfqueue s ! k) = i # idxs q' \<and> capacity q' = max_inode_entry s \<and>
        lfq_ok m q' \<and>
        inode_free_count s' = inode_free_count s - 1 \<and> free_dequeue_idx s' = free_dequeue_idx s + 1) \<and>
     (if st s i = DIRTY then inode_dirty_lfqueue s' = inode_dirty_lfqueue s \<and>
        inode_dirty_count s' = inode_dirty_count s
      else \<exists>q'. inode_dirty_lfqueue s' = (inode_dirty_lfqueue s)[v := q'] \<and>
        idxs q' = idxs (inode_dirty_lfqueue s ! v) @ [i] \<and> capacity q' = max_inode_entry s \<and>
        lfq_ok m q' \<and>
        inode_dirty_count s' = inode_dirty_count s + 1) \<and>
     lookup ck s' = (lookup ck s)(v := (lookup ck s v)(lbn \<mapsto> a)) \<and>
     view (nodes s') = (view (nodes s))(a \<mapsto> (Some i, lbn, True, False)) \<and>
     next_node s \<le> next_node s' \<and> (\<forall>b \<ge> next_node s'. nodes s' b = None))"

section \<open>The code has that effect\<close>

lemma take_free_inode:
  fixes s :: "'m nvm"
  assumes inv: "nvm_inv ck (Suc m) s" and enough: "isFreeLFQueueEnough s"
  obtains w q' where
    "getFreeInodeFromFreeLFQueue s v lbn = Inr (w, s\<lparr>free_dequeue_idx := free_dequeue_idx s + 1,
       inode_free_lfqueue := (inode_free_lfqueue s)[rr (free_dequeue_idx s) DEFAULT_NUM_FREE := q'],
       inode_table := (inode_table s)[unat w := (inode_table s ! unat w)\<lparr>in_lbn := lbn, in_volume := Some v\<rparr>],
       inode_free_count := inode_free_count s - 1\<rparr>)"
    "idxs (inode_free_lfqueue s ! rr (free_dequeue_idx s) DEFAULT_NUM_FREE) = unat w # idxs q'"
    "lfq_ok m q'" "capacity q' = max_inode_entry s"
    "unat w < nI s" "st s (unat w) = FREE" "\<not> in_lock (inode_table s ! unat w)"
proof -
  note I = nvm_invD [OF inv]
  let ?k = "rr (free_dequeue_idx s) DEFAULT_NUM_FREE"
  have k: "?k < length (inode_free_lfqueue s)"
    using I(1) by (simp add: shape_inv_def DEFAULT_NUM_FREE_def rr_less)
  obtain w ws where w: "contents (inode_free_lfqueue s ! ?k) = w # ws"
    using free_queues_nonempty [OF I(4) enough] by (meson list.exhaust)
  obtain q' where q': "deq_at (inode_free_lfqueue s) ?k = Inr (w, (inode_free_lfqueue s)[?k := q'])"
    "contents q' = ws" "lfq_ok (Suc m) q'" "capacity q' = capacity (inode_free_lfqueue s ! ?k)"
    using deq_at_ok [OF k _ w] queue_member(1) [OF I(2) k] by blast
  have id: "idxs (inode_free_lfqueue s ! ?k) = unat w # idxs q'" using w q'(2) by (simp add: idxs_def)
  moreover have "?k = 0 \<or> ?k = 1" by (auto simp: rr_2)
  ultimately have "unat w \<in> set (idxs (inode_free_lfqueue s ! 0) @ idxs (inode_free_lfqueue s ! 1))" by auto
  then have f: "unat w < nI s" "st s (unat w) = FREE" using I(4) by (auto simp: free_inv_def Let_def)
  then have "\<not> in_lock (inode_table s ! unat w)" using I(6) by (simp add: sync_inv_def)
  moreover have "lfq_ok m q'" using q'(3) by (simp add: lfq_ok_def)
  moreover have "capacity q' = max_inode_entry s" using q'(4) queue_member(1) [OF I(2) k] by simp
  moreover have "unat w < length (inode_table s)" using f I(1) by (simp add: shape_inv_def)
  then have "getFreeInodeFromFreeLFQueue s v lbn = Inr (w, s\<lparr>free_dequeue_idx := free_dequeue_idx s + 1,
       inode_free_lfqueue := (inode_free_lfqueue s)[?k := q'],
       inode_table := (inode_table s)[unat w := (inode_table s ! unat w)\<lparr>in_lbn := lbn, in_volume := Some v\<rparr>],
       inode_free_count := inode_free_count s - 1\<rparr>)"
    using q'(1) by (simp add: getFreeInodeFromFreeLFQueue_def Let_def)
  ultimately show thesis using that id f by blast
qed

text \<open>
  The state after a block that no inode cached is written through the free inode \<open>w\<close>: \<open>h\<close>, \<open>nx\<close>
  and \<open>t'\<close> are the node heap, the next free node and the hash table, \<open>fq\<close> and \<open>dq\<close> the queues the
  inode left and joined.
\<close>

definition taken :: "'m nvm \<Rightarrow> nat \<Rightarrow> u32 \<Rightarrow> nat \<Rightarrow> u32 lfqueue \<Rightarrow> u32 lfqueue \<Rightarrow> u8 list \<Rightarrow> node_heap \<Rightarrow> nat \<Rightarrow>
    'm hash_table \<Rightarrow> 'm nvm" where
  "taken s v lbn w fq dq bytes h nx t' = s\<lparr>
     block_table := (block_table s)[unat (ve_block (volume_table s ! v)) := bytes],
     volume_table := (volume_table s)[v := (volume_table s ! v)
       \<lparr>ve_table := Some t', ve_block := in_block (inode_table s ! w)\<rparr>],
     inode_table := (inode_table s)[w := \<lparr>in_lbn = lbn, in_state = DIRTY, in_volume = Some v,
       in_block = ve_block (volume_table s ! v), in_lock = False\<rparr>],
     nodes := h, next_node := nx, free_dequeue_idx := free_dequeue_idx s + 1,
     inode_free_lfqueue := (inode_free_lfqueue s)[rr (free_dequeue_idx s) DEFAULT_NUM_FREE := fq],
     inode_free_count := inode_free_count s - 1, inode_dirty_count := inode_dirty_count s + 1,
     inode_dirty_lfqueue := (inode_dirty_lfqueue s)[v := dq],
     mon := (mon s)\<lparr>mon_dirty := mon_dirty (mon s) + 1\<rparr>\<rparr>"

lemma taken_lookup:
  assumes "v < nV s" "length (volume_table s) = nV s"
  shows "lookup ck (taken s v lbn w fq dq bytes h nx t') = (lookup ck s)(v := search_hash_node ck t')"
  using assms by (auto simp: lookup_def fun_eq_iff taken_def)

lemma taken_written:
  assumes "st s w = FREE" "lookup ck (taken s v lbn w fq dq bytes h nx t') = (lookup ck s)(v := (lookup ck s v)(lbn \<mapsto> a))"
    "view h = (view (nodes s))(a \<mapsto> (Some w, lbn, True, False))" "tail_ok h t'"
    "next_node s \<le> nx" "\<And>b. nx \<le> b \<Longrightarrow> h b = None"
    "idxs (inode_free_lfqueue s ! rr (free_dequeue_idx s) DEFAULT_NUM_FREE) = w # idxs fq"
    "lfq_ok m fq" "capacity fq = max_inode_entry s"
    "idxs dq = idxs (inode_dirty_lfqueue s ! v) @ [w]" "lfq_ok m dq" "capacity dq = max_inode_entry s"
  shows "block_written ck m s v lbn bytes False w a (taken s v lbn w fq dq bytes h nx t')"
proof -
  let ?s = "taken s v lbn w fq dq bytes h nx t'"
  have f: "nodes ?s = h" "next_node ?s = nx" by (simp_all add: taken_def)
  show ?thesis
    unfolding block_written_def Let_def assms(2) f using assms(1,3-)
    by (intro conjI exI [of _ t']) (auto simp: taken_def)
qed

text \<open>What the operations of the call find: the spare block of the volume, and room in its dirty queue.\<close>

lemma write_space:
  assumes inv: "nvm_inv ck m s" and v: "v < nV s"
  shows "unat (ve_block (volume_table s ! v)) < length (block_table s)"
    "length (block_table s ! unat (ve_block (volume_table s ! v))) = bsz s"
    "length (volume_table s) = nV s" "length (inode_table s) = nI s" "length (inode_dirty_lfqueue s) = nV s"
proof -
  note I = nvm_invD [OF inv]
  show b: "unat (ve_block (volume_table s ! v)) < length (block_table s)" using owner_block(2) [OF I(1,3) v] .
  show "length (block_table s ! unat (ve_block (volume_table s ! v))) = bsz s" using I(1) b by (simp add: shape_inv_def)
  show "length (volume_table s) = nV s" "length (inode_table s) = nI s" "length (inode_dirty_lfqueue s) = nV s"
    using I(1) by (simp_all add: shape_inv_def)
qed

lemma dirty_enqueued:
  assumes inv: "nvm_inv ck (Suc m) s" and v: "v < nV s" and w: "unat w < nI s" "st s (unat w) \<noteq> DIRTY"
  obtains q where "enq_at (inode_dirty_lfqueue s) v w = Inr ((inode_dirty_lfqueue s)[v := q])"
    "idxs q = idxs (inode_dirty_lfqueue s ! v) @ [unat w]" "lfq_ok m q" "capacity q = max_inode_entry s"
proof -
  note I = nvm_invD [OF inv] and len = write_space(5) [OF inv v]
  have c: "lfq_ok (Suc m) (inode_dirty_lfqueue s ! v)" "capacity (inode_dirty_lfqueue s ! v) = max_inode_entry s"
    using queue_member(2) [OF I(2), of v] v len by simp_all
  obtain q where "enq_at (inode_dirty_lfqueue s) v w = Inr ((inode_dirty_lfqueue s)[v := q])"
    "contents q = contents (inode_dirty_lfqueue s ! v) @ [w]" "lfq_ok m q" "capacity q = capacity (inode_dirty_lfqueue s ! v)"
    using enq_at_ok [of v "inode_dirty_lfqueue s" m w] dirty_room [OF I(1,5) v w] c v len by auto
  then show thesis using that c(2) by (simp add: idxs_def)
qed

lemmas write_block_eval = write_block_def get_hash_node_with_lock_def isValidNode_def lock_node_def
  lock_inode_def set_inode_state_def writeDataToNvmBlock_def store_block_def store_volume_block_def
  store_inode_block_def unlock_inode_def unlock_node_def idx_from_hash st_def

lemma entry_updates:
  "r\<lparr>in_lbn := l, in_volume := x, in_state := z, in_block := b, in_lock := k\<rparr> =
     \<lparr>in_lbn = l, in_state = z, in_volume = x, in_block = b, in_lock = k\<rparr>"
  "ve_table e = Some t \<Longrightarrow> e\<lparr>ve_table := Some t, ve_block := c\<rparr> = e\<lparr>ve_block := c\<rparr>"
  by (cases r, simp, cases e, simp)

lemma write_block_hit:
  fixes s :: "'m nvm"
  assumes inv: "nvm_inv ck (Suc m) s" and v: "v \<in> inuse s" "v = unat v_idx"
    and hit: "key s i = Some (v, lbn)" and free: "st s i \<noteq> SYNC"
    and c: "unat local_count \<le> length buf" "unat local_count \<le> bsz s"
  shows "\<exists>a s'. write_block ck s v_idx lbn lo buf local_count = Inr (ucast local_count, s') \<and>
     lookup ck s v lbn = Some a \<and>
     block_written ck m s v lbn (new_data s v buf (unat local_count)) True i a s'"
proof -
  note I = nvm_invD [OF inv]
  from core_key [OF I(9)[unfolded hash_inv_def, THEN conjunct1] hit]
  obtain a where a: "lookup ck s v lbn = Some a" "view (nodes s) a = Some (Some i, lbn, True, False)" by blast
  from view_nodes [OF a(2)] obtain nd where nd: "nodes s a = Some nd" "hn_inode nd = Some i"
    "hn_lbn nd = lbn" "hn_is_valid nd" "\<not> hn_mutex nd" by auto
  from lookup_Some [OF a(1)] obtain t where t: "v < nV s" "ve_table (volume_table s ! v) = Some t"
    "search_hash_node ck t lbn = Some a" by blast
  note K = key_Some [OF hit]
  note sp = write_space [OF inv t(1)]
  have i26: "i < 2 ^ 26" using K(1) I(1) by (simp add: shape_inv_def)
  have wi: "unat (of_nat i :: u32) = i" using i26 by (intro unat_of_nat_u32) simp
  have lock: "\<not> in_lock (inode_table s ! i)" using I(6) K(1) free by (simp add: sync_inv_def)
  have lc: "unat (ucast local_count :: u64) = unat local_count" by (rule unat_ucast_u32_u64)
  let ?s1 = "s\<lparr>block_table := (block_table s)
            [unat (ve_block (volume_table s ! v)) := new_data s v buf (unat local_count)],
          volume_table := (volume_table s)[v := (volume_table s ! v)\<lparr>ve_block := in_block (inode_table s ! i)\<rparr>],
          inode_table := (inode_table s)[i := (inode_table s ! i)\<lparr>in_state := DIRTY,
            in_block := ve_block (volume_table s ! v), in_lock := False\<rparr>],
          nodes := (nodes s)(a \<mapsto> nd\<lparr>hn_mutex := False\<rparr>)\<rparr>"
  have lk: "lookup ck ?s1 = lookup ck s"
    using sp(3) t by (auto simp: lookup_def fun_eq_iff nth_list_update)
  have tk: "tail_ok ((nodes s)(a \<mapsto> nd\<lparr>hn_mutex := False\<rparr>)) t"
    using I(9) t nd(1) by (auto simp: hash_inv_def tail_ok_def)
  have fr: "\<forall>b\<ge>next_node s. ((nodes s)(a \<mapsto> nd\<lparr>hn_mutex := False\<rparr>)) b = None"
    using I(9) nd(1) by (auto simp: hash_inv_def)
  have upds: "(inode_table s ! i)\<lparr>in_state := DIRTY, in_block := b, in_lock := False\<rparr> = \<lparr>in_lbn = lbn, in_state = DIRTY,
      in_volume = Some v, in_block = b, in_lock = False\<rparr>" for b
    using K by (cases "inode_table s ! i") simp
  note updv = entry_updates(2) [OF t(2)]
  have lka: "(lookup ck s v)(lbn \<mapsto> a) = lookup ck s v" using a(1) by (simp add: fun_upd_idem)
  show ?thesis
  proof (cases "st s i = DIRTY")
    case True
    have "write_block ck s v_idx lbn lo buf local_count = Inr (ucast local_count, ?s1)"
      using v t nd K sp wi lock lc c i26 True by (simp add: write_block_eval new_data_def)
    moreover have "block_written ck m s v lbn (new_data s v buf (unat local_count)) True i a ?s1"
      unfolding block_written_def lk Let_def using True tk fr nd
      by (intro conjI exI [of _ t]) (simp_all add: upds updv lka view_upd node_view_def)
    ultimately show ?thesis using a(1) by blast
  next
    case False
    obtain q' where q': "enq_at (inode_dirty_lfqueue s) v (of_nat i) = Inr ((inode_dirty_lfqueue s)[v := q'])"
      "idxs q' = idxs (inode_dirty_lfqueue s ! v) @ [i]" "lfq_ok m q'" "capacity q' = max_inode_entry s"
      using dirty_enqueued [OF inv t(1), of "of_nat i"] K(1) False unfolding wi by blast
    let ?s2 = "?s1\<lparr>inode_dirty_count := inode_dirty_count s + 1,
      inode_dirty_lfqueue := (inode_dirty_lfqueue s)[v := q'],
      mon := (mon s)\<lparr>mon_dirty := mon_dirty (mon s) + 1\<rparr>\<rparr>"
    have lk2: "lookup ck ?s2 = lookup ck s" unfolding lk [symmetric] by (simp add: lookup_def fun_eq_iff)
    have "write_block ck s v_idx lbn lo buf local_count = Inr (ucast local_count, ?s2)"
      using v t nd K sp wi lock lc c i26 False q'(1) by (simp add: write_block_eval new_data_def)
    moreover have "block_written ck m s v lbn (new_data s v buf (unat local_count)) True i a ?s2"
      unfolding block_written_def lk2 Let_def using False tk fr nd q'(2-4)
      by (intro conjI exI [of _ t]) (auto simp: upds updv lka view_upd node_view_def)
    ultimately show ?thesis using a(1) by blast
  qed
qed

text \<open>The block has no node: a new one is inserted.\<close>

lemma write_block_new:
  fixes s :: "'m nvm"
  assumes inv: "nvm_inv ck (Suc m) s" and v: "v < nV s" "v = unat v_idx" and t: "ve_table (volume_table s ! v) = Some t"
    and enough: "isFreeLFQueueEnough s" and miss: "lookup ck s v lbn = None"
    and c: "unat local_count \<le> length buf" "unat local_count \<le> bsz s"
    and w: "getFreeInodeFromFreeLFQueue s v lbn = Inr (w, s\<lparr>free_dequeue_idx := free_dequeue_idx s + 1,
       inode_free_lfqueue := (inode_free_lfqueue s)[rr (free_dequeue_idx s) DEFAULT_NUM_FREE := fq],
       inode_table := (inode_table s)[unat w := (inode_table s ! unat w)\<lparr>in_lbn := lbn, in_volume := Some v\<rparr>],
       inode_free_count := inode_free_count s - 1\<rparr>)"
      "unat w < nI s" "st s (unat w) = FREE" "\<not> in_lock (inode_table s ! unat w)"
    and dq: "enq_at (inode_dirty_lfqueue s) v w = Inr ((inode_dirty_lfqueue s)[v := dq])"
  shows "write_block ck s v_idx lbn lo buf local_count = Inr (ucast local_count,
    taken s v lbn (unat w) fq dq (new_data s v buf (unat local_count))
      ((nodes s)(next_node s \<mapsto> \<lparr>hn_inode = Some (unat w), hn_lbn = lbn, hn_is_valid = True, hn_mutex = False,
         hn_prev = None, hn_next = None\<rparr>))
      (next_node s + 1) (t\<lparr>ht_map := ck_assign ck (ht_map t) lbn (next_node s)\<rparr>))"
proof -
  note sp = write_space [OF inv v(1)]
  have i26: "unat w < 2 ^ 26" using w(2) nvm_invD(1) [OF inv] by (simp add: shape_inv_def)
  have lc: "unat (ucast local_count :: u64) = unat local_count" by (rule unat_ucast_u32_u64)
  have sn: "search_hash_node ck t lbn = None" using miss v t by (simp add: lookup_def)
  show ?thesis
    using v t sn sp lc c i26 w dq enough
    by (simp add: write_block_eval new_data_def Let_def new_hash_node_def validate_hash_node_def insert_hash_node_def
      taken_def entry_updates)
qed

text \<open>The block has an invalid node: it is made valid again.\<close>

lemma write_block_reuse:
  fixes s :: "'m nvm"
  assumes inv: "nvm_inv ck (Suc m) s" and v: "v < nV s" "v = unat v_idx" and t: "ve_table (volume_table s ! v) = Some t"
    and enough: "isFreeLFQueueEnough s" and found: "lookup ck s v lbn = Some a"
    and n: "nodes s a = Some n" "hn_inode n = None" "hn_lbn n = lbn" "\<not> hn_is_valid n" "\<not> hn_mutex n"
    and c: "unat local_count \<le> length buf" "unat local_count \<le> bsz s"
    and w: "getFreeInodeFromFreeLFQueue s v lbn = Inr (w, s\<lparr>free_dequeue_idx := free_dequeue_idx s + 1,
       inode_free_lfqueue := (inode_free_lfqueue s)[rr (free_dequeue_idx s) DEFAULT_NUM_FREE := fq],
       inode_table := (inode_table s)[unat w := (inode_table s ! unat w)\<lparr>in_lbn := lbn, in_volume := Some v\<rparr>],
       inode_free_count := inode_free_count s - 1\<rparr>)"
      "unat w < nI s" "st s (unat w) = FREE" "\<not> in_lock (inode_table s ! unat w)"
    and dq: "enq_at (inode_dirty_lfqueue s) v w = Inr ((inode_dirty_lfqueue s)[v := dq])"
  shows "write_block ck s v_idx lbn lo buf local_count = Inr (ucast local_count,
    taken s v lbn (unat w) fq dq (new_data s v buf (unat local_count))
      ((nodes s)(a \<mapsto> n\<lparr>hn_inode := Some (unat w), hn_is_valid := True, hn_mutex := False\<rparr>)) (next_node s) t)"
proof -
  note sp = write_space [OF inv v(1)]
  have i26: "unat w < 2 ^ 26" using w(2) nvm_invD(1) [OF inv] by (simp add: shape_inv_def)
  have lc: "unat (ucast local_count :: u64) = unat local_count" by (rule unat_ucast_u32_u64)
  have sn: "search_hash_node ck t lbn = Some a" using found v t by (simp add: lookup_def)
  have updn: "n\<lparr>hn_inode := Some (unat w), hn_lbn := lbn, hn_is_valid := True, hn_mutex := False\<rparr> =
     n\<lparr>hn_inode := Some (unat w), hn_is_valid := True, hn_mutex := False\<rparr>" using n by (cases n) simp
  show ?thesis
    using v t sn sp lc c i26 w dq enough n
    by (simp add: write_block_eval new_data_def updn Let_def new_hash_node_def validate_hash_node_def
      insert_hash_node_def taken_def entry_updates)
qed

lemma write_block_miss:
  fixes s :: "'m nvm"
  assumes inv: "nvm_inv ck (Suc m) s" and laws: "cuckoo_laws ck"
    and v: "v \<in> inuse s" "v = unat v_idx" and enough: "isFreeLFQueueEnough s"
    and miss: "\<forall>i. key s i \<noteq> Some (v, lbn)"
    and c: "unat local_count \<le> length buf" "unat local_count \<le> bsz s"
  shows "\<exists>i a s'. write_block ck s v_idx lbn lo buf local_count = Inr (ucast local_count, s') \<and>
     i < nI s \<and> st s i = FREE \<and>
     (lookup ck s v lbn = Some a \<and> view (nodes s) a = Some (None, lbn, False, False) \<or>
      lookup ck s v lbn = None \<and> view (nodes s) a = None) \<and>
     block_written ck m s v lbn (new_data s v buf (unat local_count)) False i a s'"
proof -
  note I = nvm_invD [OF inv]
  obtain w fq where w: "getFreeInodeFromFreeLFQueue s v lbn = Inr (w, s\<lparr>free_dequeue_idx := free_dequeue_idx s + 1,
       inode_free_lfqueue := (inode_free_lfqueue s)[rr (free_dequeue_idx s) DEFAULT_NUM_FREE := fq],
       inode_table := (inode_table s)[unat w := (inode_table s ! unat w)\<lparr>in_lbn := lbn, in_volume := Some v\<rparr>],
       inode_free_count := inode_free_count s - 1\<rparr>)"
    "unat w < nI s" "st s (unat w) = FREE" "\<not> in_lock (inode_table s ! unat w)" and
    fq: "idxs (inode_free_lfqueue s ! rr (free_dequeue_idx s) DEFAULT_NUM_FREE) = unat w # idxs fq"
    "lfq_ok m fq" "capacity fq = max_inode_entry s"
    by (rule take_free_inode [OF inv enough])
  have vV: "v < nV s" using inuse_less [OF v(1)] .
  note sp = write_space [OF inv vV]
  obtain t where t: "ve_table (volume_table s ! v) = Some t" using inuse_table [OF I(8) v(1)] by blast
  have tail: "tail_ok (nodes s) t" and na: "\<And>b. next_node s \<le> b \<Longrightarrow> nodes s b = None"
    and core: "hash_core (lookup ck s) (view (nodes s)) (key s)"
    using I(9) vV t by (simp_all add: hash_inv_def)
  have sv: "search_hash_node ck t = lookup ck s v" using vV t by (simp add: lookup_def fun_eq_iff)
  obtain dq where dq: "enq_at (inode_dirty_lfqueue s) v w = Inr ((inode_dirty_lfqueue s)[v := dq])"
    "idxs dq = idxs (inode_dirty_lfqueue s ! v) @ [unat w]" "lfq_ok m dq" "capacity dq = max_inode_entry s"
    by (rule dirty_enqueued [OF inv vV w(2)]) (use w(3) in simp_all)
  note W = taken_written [OF w(3) _ _ _ _ _ fq dq(2-4)]
  let ?b = "new_data s v buf (unat local_count)"
  show ?thesis
  proof (cases "lookup ck s v lbn")
    case None
    let ?t = "t\<lparr>ht_map := ck_assign ck (ht_map t) lbn (next_node s)\<rparr>"
    let ?nd = "\<lparr>hn_inode = Some (unat w), hn_lbn = lbn, hn_is_valid = True, hn_mutex = False, hn_prev = None, hn_next = None\<rparr>"
    have "search_hash_node ck ?t = (lookup ck s v)(lbn \<mapsto> next_node s)"
      unfolding sv [symmetric] using laws by (auto simp: fun_eq_iff search_hash_node_def cuckoo_laws_def)
    note l = taken_lookup [OF vV sp(3), where ck = ck and t' = ?t, unfolded this]
    have "view (nodes s) (next_node s) = None" using na by (simp add: view_def)
    moreover have "block_written ck m s v lbn ?b False (unat w) (next_node s)
        (taken s v lbn (unat w) fq dq ?b ((nodes s)(next_node s \<mapsto> ?nd)) (next_node s + 1) ?t)"
      using tail na by (intro W l) (auto simp: view_upd node_view_def tail_ok_def)
    ultimately show ?thesis
      using write_block_new [OF inv vV v(2) t enough None c w dq(1)] w(2,3) None by blast
  next
    case (Some a)
    have va: "view (nodes s) a = Some (None, lbn, False, False)" using core_cases [OF core Some] miss by blast
    from view_nodes [OF this] obtain n where n: "nodes s a = Some n" "hn_inode n = None" "hn_lbn n = lbn"
      "\<not> hn_is_valid n" "\<not> hn_mutex n" by auto
    have "search_hash_node ck t = (lookup ck s v)(lbn \<mapsto> a)" using sv Some by (simp add: fun_upd_idem)
    note l = taken_lookup [OF vV sp(3), where ck = ck and t' = t, unfolded this]
    have "block_written ck m s v lbn ?b False (unat w) a (taken s v lbn (unat w) fq dq ?b
        ((nodes s)(a \<mapsto> n\<lparr>hn_inode := Some (unat w), hn_is_valid := True, hn_mutex := False\<rparr>)) (next_node s) t)"
      using tail na n by (intro W l) (auto simp: view_upd node_view_def tail_ok_def)
    then show ?thesis
      using write_block_reuse [OF inv vV v(2) t enough Some n c w dq(1)] w(2,3) Some va by blast
  qed
qed

section \<open>The effect on the functions of the state\<close>

lemma written_fun:
  assumes W: "block_written ck m s v lbn bytes hit i a s'" and i: "i < nI s" and v: "v < nV s"
    and sh: "shape_inv s"
  shows "nI s' = nI s" "nV s' = nV s" "bsz s' = bsz s"
    "st s' = (st s)(i := DIRTY)"
    "in_volume (inode_table s' ! j) = (if j = i then Some v else in_volume (inode_table s ! j))"
    "in_lock (inode_table s' ! j) = (if j = i then False else in_lock (inode_table s ! j))"
    "key s' = (key s)(i \<mapsto> (v, lbn))" "vid_of s' = vid_of s" "inuse s' = inuse s"
    "file_block s' = file_block s" "disk_block s' = disk_block s"
proof -
  have len: "length (volume_table s) = nV s" "length (inode_table s) = nI s"
    using sh by (simp_all add: shape_inv_def)
  note W' = W [unfolded block_written_def Let_def]
  have it: "inode_table s' ! j = (if j = i then \<lparr>in_lbn = lbn, in_state = DIRTY, in_volume = Some v,
           in_block = ve_block (volume_table s ! v), in_lock = False\<rparr> else inode_table s ! j)" for j
    using W' i len by auto
  show n: "nI s' = nI s" "nV s' = nV s" "bsz s' = bsz s" using W' by simp_all
  show st: "st s' = (st s)(i := DIRTY)" by (simp add: st_def it fun_eq_iff)
  show "in_volume (inode_table s' ! j) = (if j = i then Some v else in_volume (inode_table s ! j))"
    "in_lock (inode_table s' ! j) = (if j = i then False else in_lock (inode_table s ! j))"
    by (simp_all add: it)
  show "key s' = (key s)(i \<mapsto> (v, lbn))"
    using i by (auto simp: key_def fun_eq_iff n st it)
  show vid: "vid_of s' = vid_of s"
    using W' len v by (auto simp: vid_of_def fun_eq_iff nth_list_update)
  show "inuse s' = inuse s" using n vid by (simp add: inuse_def)
  show "file_block s' = file_block s" "disk_block s' = disk_block s"
    using W' by (simp_all add: file_block_def disk_block_def fun_eq_iff)
qed

lemma list_swap_blocks:
  assumes "i < length xs" "v < length ys"
  shows "xs[i := ys ! v] @ ys[v := xs ! i] =
    (xs @ ys)[i := (xs @ ys) ! (length xs + v), length xs + v := (xs @ ys) ! i]"
  using assms by (simp add: list_update_append nth_append)

lemma written_block_inv:
  assumes W: "block_written ck m s v lbn bytes hit i a s'" and i: "i < nI s" and v: "v < nV s"
    and sh: "shape_inv s" and b: "block_inv s"
  shows "block_inv s'"
proof -
  have len: "length (volume_table s) = nV s" "length (inode_table s) = nI s"
    using sh by (simp_all add: shape_inv_def)
  have "block_owners s' = (block_owners s)[i := block_owners s ! (nI s + v), nI s + v := block_owners s ! i]"
    using W len i v list_swap_blocks [of i "map in_block (inode_table s)" v "map ve_block (volume_table s)"]
    by (auto simp: block_owners_def block_written_def Let_def map_update)
  moreover have "i < length (block_owners s)" "nI s + v < length (block_owners s)"
    using len i v by (simp_all add: block_owners_def)
  moreover have "length (block_table s') = length (block_table s)"
    using W by (simp add: block_written_def Let_def)
  ultimately show ?thesis using b by (simp add: block_inv_def)
qed

text \<open>The new data is in the block of the inode written, and no other inode's data changed.\<close>

lemma written_data:
  assumes W: "block_written ck m s v lbn bytes hit i a s'" and i: "i < nI s" and v: "v < nV s"
    and sh: "shape_inv s" and b: "block_inv s" and j: "j < nI s"
  shows "data_of s' j = (if j = i then bytes else data_of s j)"
proof -
  have len: "length (volume_table s) = nV s" "length (inode_table s) = nI s"
    using sh by (simp_all add: shape_inv_def)
  let ?o = "ve_block (volume_table s ! v)"
  have o: "unat ?o < length (block_table s)" using owner_block [OF sh b] v by blast
  have "in_block (inode_table s ! j) \<noteq> ?o"
  proof -
    have "block_owners s ! j \<noteq> block_owners s ! (nI s + v)"
      using b len j v by (simp add: block_inv_def nth_eq_iff_index_eq block_owners_def)
    then show ?thesis using len j v by (simp add: block_owners_def nth_append)
  qed
  then have "unat (in_block (inode_table s ! j)) \<noteq> unat ?o" by (metis word_unat_eq_iff)
  then show ?thesis using W o len i j by (auto simp: data_of_def block_written_def Let_def nth_list_update)
qed

lemma written_shape:
  assumes W: "block_written ck m s v lbn bytes hit i a s'" and sh: "shape_inv s" and l: "length bytes = bsz s"
  shows "shape_inv s'"
proof -
  have "\<forall>b\<in>set (block_table s'). length b = bsz s"
    using W sh l set_update_subset_insert [of "block_table s"]
    by (auto simp: shape_inv_def block_written_def Let_def)
  then show ?thesis using W sh unfolding shape_inv_def block_written_def Let_def
    by (auto split: if_splits)
qed

lemma written_queue:
  assumes W: "block_written ck m s v lbn bytes hit i a s'" and q: "queue_inv (Suc m) s"
  shows "queue_inv m s'"
proof -
  have q': "queue_inv m s" using queue_inv_less [OF q] by simp
  have "queues_ok m (max_inode_entry s) (inode_free_lfqueue s')"
    using W q' queues_ok_update by (cases hit) (auto simp: queue_inv_def block_written_def Let_def)
  moreover have "queues_ok m (max_inode_entry s) (inode_dirty_lfqueue s')"
    using W q' queues_ok_update by (cases "st s i = DIRTY") (auto simp: queue_inv_def block_written_def Let_def)
  ultimately show ?thesis using W q' by (simp add: queue_inv_def block_written_def Let_def)
qed

lemma written_free:
  assumes W: "block_written ck m s v lbn bytes hit i a s'" and i: "i < nI s" and v: "v < nV s"
    and sh: "shape_inv s" and f: "free_inv s" and st: "hit \<longleftrightarrow> st s i \<noteq> FREE"
  shows "free_inv s'"
proof (cases hit)
  case True
  then have "inode_free_lfqueue s' = inode_free_lfqueue s" "inode_free_count s' = inode_free_count s"
     "free_dequeue_idx s' = free_dequeue_idx s" "free_enqueue_idx s' = free_enqueue_idx s"
    using W by (simp_all add: block_written_def Let_def)
  moreover have "{j. j < nI s' \<and> st s' j = FREE} = {j. j < nI s \<and> st s j = FREE}"
    using st True written_fun(1,4) [OF W i v sh] by auto
  ultimately show ?thesis using f written_fun(1) [OF W i v sh] by (simp add: free_inv_def Let_def)
next
  case False
  let ?k = "rr (free_dequeue_idx s) DEFAULT_NUM_FREE"
  obtain q' where q': "inode_free_lfqueue s' = (inode_free_lfqueue s)[?k := q']"
    "idxs (inode_free_lfqueue s ! ?k) = i # idxs q'" "inode_free_count s' = inode_free_count s - 1"
    "free_dequeue_idx s' = free_dequeue_idx s + 1" "free_enqueue_idx s' = free_enqueue_idx s"
    using W False by (auto simp: block_written_def Let_def)
  have len: "length (inode_free_lfqueue s) = 2" using sh by (simp add: shape_inv_def DEFAULT_NUM_FREE_def)
  have set': "{j. j < nI s' \<and> st s' j = FREE} = {j. j < nI s \<and> st s j = FREE} - {i}"
    using written_fun(1,4) [OF W i v sh] by auto
  have "inode_free_count s \<noteq> 0" using f q'(2) by (cases "?k = 0") (auto simp: free_inv_def Let_def rr_2)
  then have cnt: "unat (inode_free_count s') = unat (inode_free_count s) - 1"
    using q'(3) by (simp add: unat_minus_one)
  have dq: "unat (free_dequeue_idx s') mod 2 = 1 - unat (free_dequeue_idx s) mod 2"
  proof -
    have "unat (free_dequeue_idx s + 1) mod 2 = (unat (free_dequeue_idx s) + 1) mod 2"
      by (simp add: unat_word_ariths mod_mod_cancel)
    then show ?thesis using q'(4) by (simp add: mod2_eq_if split: if_splits)
  qed
  show ?thesis
  proof (cases "?k = 0")
    case True
    then have z: "unat (free_dequeue_idx s) mod 2 = 0" by (simp add: rr_2)
    show ?thesis
      using f q' True len set' cnt dq z written_fun(1) [OF W i v sh]
      by (auto simp: free_inv_def Let_def)
  next
    case False
    then have z: "unat (free_dequeue_idx s) mod 2 = 1" "?k = 1" by (auto simp: rr_2)
    show ?thesis
      using f q' len set' cnt dq z written_fun(1) [OF W i v sh]
      by (auto simp: free_inv_def Let_def)
  qed
qed

lemma written_dirty:
  assumes W: "block_written ck m s v lbn bytes hit i a s'" and i: "i < nI s" and v: "v < nV s"
    and sh: "shape_inv s" and d: "dirty_inv s" and h: "st s i = DIRTY \<longrightarrow> in_volume (inode_table s ! i) = Some v"
  shows "dirty_inv s'"
proof -
  note F = written_fun [OF W i v sh]
  have len: "length (inode_dirty_lfqueue s) = nV s" using sh by (simp add: shape_inv_def)
  have cardle: "card {j. j < nI s \<and> st s j = DIRTY} \<le> nI s"
    using card_mono [of "{..<nI s}" "{j. j < nI s \<and> st s j = DIRTY}"] by auto
  show ?thesis
  proof (cases "st s i = DIRTY")
    case True
    then have "st s' = st s" using F(4) by auto
    moreover have "in_volume (inode_table s' ! j) = in_volume (inode_table s ! j)" for j
      using F(5) h True by auto
    ultimately show ?thesis using W True d F(1,2) by (simp add: dirty_inv_def block_written_def Let_def)
  next
    case False
    then obtain q' where q': "inode_dirty_lfqueue s' = (inode_dirty_lfqueue s)[v := q']"
      "idxs q' = idxs (inode_dirty_lfqueue s ! v) @ [i]" "inode_dirty_count s' = inode_dirty_count s + 1"
      using W by (auto simp: block_written_def Let_def)
    have sets: "{j. j < nI s' \<and> st s' j = DIRTY} = insert i {j. j < nI s \<and> st s j = DIRTY}"
      using F i by auto
    have "Suc (card {j. j < nI s \<and> st s j = DIRTY}) \<le> nI s"
      using card_mono [of "{..<nI s}" "insert i {j. j < nI s \<and> st s j = DIRTY}"] i False
      by (auto simp: card_insert_if)
    then have "unat (inode_dirty_count s) + 1 < 2 ^ LENGTH(32)"
      using d sh by (simp add: dirty_inv_def shape_inv_def)
    then have "unat (inode_dirty_count s') = card {j. j < nI s' \<and> st s' j = DIRTY}"
      using q'(3) sets d False by (simp add: unat_Suc_no_wrap dirty_inv_def card_insert_if)
    moreover have "distinct (idxs (inode_dirty_lfqueue s' ! u)) \<and>
       set (idxs (inode_dirty_lfqueue s' ! u)) =
          {j. j < nI s' \<and> st s' j = DIRTY \<and> in_volume (inode_table s' ! j) = Some u}" if "u < nV s" for u
    proof (cases "u = v")
      case True
      then show ?thesis using d q' F len v i False by (auto simp: dirty_inv_def)
    next
      case ne: False
      then have "idxs (inode_dirty_lfqueue s' ! u) = idxs (inode_dirty_lfqueue s ! u)" using q'(1) by simp
      moreover have "{j. j < nI s' \<and> st s' j = DIRTY \<and> in_volume (inode_table s' ! j) = Some u} =
         {j. j < nI s \<and> st s j = DIRTY \<and> in_volume (inode_table s ! j) = Some u}"
        using F ne False by auto
      ultimately show ?thesis using d that by (simp add: dirty_inv_def)
    qed
    ultimately show ?thesis using F(2) by (simp add: dirty_inv_def)
  qed
qed

lemma written_sync_clean:
  assumes W: "block_written ck m s v lbn bytes hit i a s'" and i: "i < nI s" and v: "v < nV s"
    and sh: "shape_inv s" and y: "sync_inv s" and c: "clean_inv s" and ns: "st s i \<noteq> SYNC"
  shows "sync_inv s' \<and> clean_inv s'"
proof -
  note F = written_fun [OF W i v sh]
  have q: "inode_sync_lfqueue s' = inode_sync_lfqueue s" "inode_clean_lfqueue s' = inode_clean_lfqueue s"
    using W by (simp_all add: block_written_def Let_def)
  have "{j. j < nI s' \<and> st s' j = SYNC} = {j. j < nI s \<and> st s j = SYNC}" using F ns by auto
  then have "sync_inv s'" using y F(1,4,6) q ns unfolding sync_inv_def by auto
  moreover have "clean_inv s'" using c F(1,4) q unfolding clean_inv_def by auto
  ultimately show ?thesis ..
qed


lemma written_volume:
  assumes W: "block_written ck m s v lbn bytes hit i a s'" and i: "i < nI s" and v: "v \<in> inuse s"
    and sh: "shape_inv s" and vi: "volume_inv s"
  shows "volume_inv s'"
proof -
  have vV: "v < nV s" using inuse_less [OF v] .
  note F = written_fun [OF W i vV sh]
  have len: "length (volume_table s) = nV s" using sh by (simp add: shape_inv_def)
  have sy: "system s' = system s" using W by (simp add: block_written_def Let_def)
  have fd: "ve_fd (volume_table s' ! u) = ve_fd (volume_table s ! u)" for u
    using W len vV by (auto simp: block_written_def Let_def nth_list_update)
  have tb: "ve_table (volume_table s ! u) \<noteq> None \<Longrightarrow> ve_table (volume_table s' ! u) \<noteq> None" for u
    using W len vV by (auto simp: block_written_def Let_def nth_list_update)
  have nt: "u \<notin> inuse s \<Longrightarrow> ve_table (volume_table s' ! u) = ve_table (volume_table s ! u)" for u
    using W v by (cases "u = v") (auto simp: block_written_def Let_def)
  have 1: "\<forall>u \<in> inuse s. ve_table (volume_table s' ! u) \<noteq> None" using vi tb by (simp add: volume_inv_def)
  have 2: "\<forall>u < nV s. u \<notin> inuse s \<longrightarrow> ve_table (volume_table s' ! u) = None"
    using vi nt by (simp add: volume_inv_def)
  show ?thesis using vi 1 2 by (simp add: volume_inv_def F sy fd)
qed

lemma written_hash:
  assumes W: "block_written ck m s v lbn bytes hit i a s'" and i: "i < nI s" and v: "v \<in> inuse s"
    and sh: "shape_inv s" and vi: "volume_inv s" and h: "hash_inv ck s"
    and c: "lookup ck s v lbn = Some a \<and> key s i = Some (v, lbn) \<or>
      lookup ck s v lbn = Some a \<and> view (nodes s) a = Some (None, lbn, False, False) \<and> st s i = FREE \<or>
      lookup ck s v lbn = None \<and> view (nodes s) a = None \<and> st s i = FREE"
  shows "hash_inv ck s'"
proof -
  have vV: "v < nV s" using inuse_less [OF v] .
  note F = written_fun [OF W i vV sh]
  have len: "length (volume_table s) = nV s" using sh by (simp add: shape_inv_def)
  have core: "hash_core (lookup ck s) (view (nodes s)) (key s)" using h by (simp add: hash_inv_def)
  have kf: "st s i = FREE \<Longrightarrow> key s i = None" by (simp add: key_def)
  have lk: "lookup ck s' = (lookup ck s)(v := (lookup ck s v)(lbn \<mapsto> a))"
    and vw: "view (nodes s') = (view (nodes s))(a \<mapsto> (Some i, lbn, True, False))"
    using W by (simp_all add: block_written_def Let_def)
  have 1: "hash_core (lookup ck s') (view (nodes s')) (key s')"
    using c
  proof (elim disjE conjE)
    assume a: "lookup ck s v lbn = Some a" "key s i = Some (v, lbn)"
    then have "view (nodes s) a = Some (Some i, lbn, True, False)" using core_key [OF core a(2)] by auto
    with a core show ?thesis unfolding lk vw F(7) by (simp add: fun_upd_idem)
  next
    assume a: "lookup ck s v lbn = Some a" "view (nodes s) a = Some (None, lbn, False, False)" "st s i = FREE"
    from core_validate [OF core a(1,2) kf [OF a(3)]] show ?thesis
      unfolding lk vw F(7) using a(1) by (simp add: fun_upd_idem)
  next
    assume a: "lookup ck s v lbn = None" "view (nodes s) a = None" "st s i = FREE"
    from core_new [OF core a(2,1) kf [OF a(3)]] show ?thesis unfolding lk vw F(7) .
  qed
  have 2: "\<forall>j < nI s'. st s' j \<noteq> FREE \<longrightarrow> (\<exists>u \<in> inuse s'. in_volume (inode_table s' ! j) = Some u)"
    using h v unfolding F(1,4,5,9) hash_inv_def by auto
  have sub: "nodes s b \<noteq> None \<Longrightarrow> nodes s' b \<noteq> None" for b
    using fun_cong [OF vw, of b] by (auto simp: view_def split: if_splits)
  have 4: "tail_ok (nodes s') t" if "u < nV s'" "ve_table (volume_table s' ! u) = Some t" for u t
  proof (cases "u = v")
    case True
    with W that len vV show ?thesis by (auto simp: block_written_def Let_def)
  next
    case False
    with W that have "ve_table (volume_table s ! u) = Some t" "u < nV s"
      by (auto simp: block_written_def Let_def)
    with h have "tail_ok (nodes s) t" by (simp add: hash_inv_def)
    with sub show ?thesis by (simp add: tail_ok_def)
  qed
  have 3: "\<forall>b \<ge> next_node s'. nodes s' b = None" using W by (simp add: block_written_def Let_def)
  from 1 2 3 4 show ?thesis by (simp add: hash_inv_def)
qed

lemma written_disk:
  assumes W: "block_written ck m s v lbn bytes hit i a s'" and i: "i < nI s" and v: "v < nV s"
    and sh: "shape_inv s" and b: "block_inv s" and d: "disk_inv s"
    and k: "key s i = None \<or> key s i = Some (v, lbn)" and lm: "lbn \<noteq> - 1"
  shows "disk_inv s'"
proof -
  note F = written_fun [OF W i v sh]
  have 1: "l \<noteq> - 1 \<and> (st s' j = SYNC \<or> st s' j = CLEAN \<longrightarrow> file_block s' (vid_of s' u) l = data_of s' j) \<and>
        (st s' j = CLEAN \<longrightarrow> disk_block s' (vid_of s' u) l = data_of s' j)" if "key s' j = Some (u, l)" for j u l
  proof (cases "j = i")
    case True
    then show ?thesis using F(4,7) that lm by simp
  next
    case False
    then have k: "key s j = Some (u, l)" using that F(7) by simp
    then show ?thesis using key_Some(1) [OF k] d F(4) False written_data [OF W i v sh b]
      unfolding F(8,10,11) by (simp add: disk_inv_def)
  qed
  have 2: "cached s vid l \<Longrightarrow> cached s' vid l" for vid l
  proof -
    assume "cached s vid l"
    then obtain j u where j: "key s j = Some (u, l)" "vid_of s u = vid" by (auto simp: cached_def)
    then have "key s' j = Some (u, l)" using F(7) k by auto
    with j(2) F(8) show ?thesis by (auto simp: cached_def)
  qed
  show ?thesis
    unfolding disk_inv_def
  proof (intro conjI allI impI)
    fix vid l assume "\<not> cached s' vid l"
    with 2 have "\<not> cached s vid l" by blast
    with d show "file_block s' vid l = disk_block s' vid l" unfolding F(10,11) by (simp add: disk_inv_def)
  qed (use 1 in blast)+
qed


section \<open>The effect on the abstract store\<close>

lemma written_abs:
  assumes W: "block_written ck m s v lbn bytes hit i a s'" and i: "i < nI s" and v: "v \<in> inuse s"
    and sh: "shape_inv s" and b: "block_inv s" and h: "hash_inv ck s" and vi: "volume_inv s"
    and old: "key s i = Some (v, lbn) \<or> key s i = None \<and> (\<forall>j. key s j \<noteq> Some (v, lbn))"
  shows "abs_store s' = (abs_store s)(vid_of s v := (abs_store s (vid_of s v))(lbn := bytes))"
proof -
  note F = written_fun [OF W i inuse_less [OF v] sh] and D = written_data [OF W i inuse_less [OF v] sh b]
  have "data_of s' j = data_of s j" if "key s j \<noteq> None" "j \<noteq> i" for j
    using D [of j] key_Some(1) [of s j] that by auto
  from abs_store_update [OF h vi v F(7) old _ this F(11)] show ?thesis using F(8) D [OF i] by simp
qed

text \<open>All parts together.\<close>

lemma written_inv:
  assumes W: "block_written ck m s v lbn bytes hit i a s'" and inv: "nvm_inv ck (Suc m) s"
    and i: "i < nI s" and v: "v \<in> inuse s" and l: "length bytes = bsz s"
    and c: "hit \<and> lookup ck s v lbn = Some a \<and> key s i = Some (v, lbn) \<and> st s i \<noteq> SYNC \<or>
      \<not> hit \<and> st s i = FREE \<and> (\<forall>j. key s j \<noteq> Some (v, lbn)) \<and>
       (lookup ck s v lbn = Some a \<and> view (nodes s) a = Some (None, lbn, False, False) \<or>
        lookup ck s v lbn = None \<and> view (nodes s) a = None)"
    and lm: "lbn \<noteq> - 1"
  shows "nvm_inv ck m s' \<and> inuse s' = inuse s \<and>
    abs_store s' = (abs_store s)(vid_of s v := (abs_store s (vid_of s v))(lbn := bytes))"
proof -
  note I = nvm_invD [OF inv]
  have vV: "v < nV s" using inuse_less [OF v] .
  have hit: "hit \<longleftrightarrow> st s i \<noteq> FREE" using c key_Some(2) [of s i v lbn] by blast
  have ns: "st s i \<noteq> SYNC" using c by auto
  have k: "key s i = None \<or> key s i = Some (v, lbn)" using c by (auto simp: key_def)
  have miss: "\<forall>j. key s j \<noteq> Some (v, lbn)" if "key s i = None" using c that by auto
  have dv: "st s i = DIRTY \<longrightarrow> in_volume (inode_table s ! i) = Some v"
    using c key_Some(3) [of s i v lbn] by auto
  have hc: "lookup ck s v lbn = Some a \<and> key s i = Some (v, lbn) \<or>
      lookup ck s v lbn = Some a \<and> view (nodes s) a = Some (None, lbn, False, False) \<and> st s i = FREE \<or>
      lookup ck s v lbn = None \<and> view (nodes s) a = None \<and> st s i = FREE" using c by blast
  note F = written_fun [OF W i vV I(1)]
  have vq: "volq_inv s'" using I(11) W F(2,9) by (simp add: volq_inv_def block_written_def Let_def)
  note parts = written_shape [OF W I(1) l] written_queue [OF W I(2)] written_block_inv [OF W i vV I(1,3)]
    written_free [OF W i vV I(1,4) hit] written_dirty [OF W i vV I(1,5) dv]
    written_sync_clean [OF W i vV I(1,6,7) ns] written_volume [OF W i v I(1,8)]
    written_hash [OF W i v I(1,8,9) hc] written_disk [OF W i vV I(1,3,10) k lm]
  then have "nvm_inv ck m s'" using vq by (simp add: nvm_inv_def flush_inv_def held_Nil)
  moreover have "abs_store s' = (abs_store s)(vid_of s v := (abs_store s (vid_of s v))(lbn := bytes))"
    using written_abs [OF W i v I(1,3,9,8)] k miss by blast
  ultimately show ?thesis using written_fun(9) [OF W i vV I(1)] by simp
qed

text \<open>What the write leaves alone, for the lemmas about sequences of writes.\<close>

definition write_frame :: "'m nvm \<Rightarrow> 'm nvm \<Rightarrow> nat \<Rightarrow> u32 \<Rightarrow> bool" where
  "write_frame s s' v lbn \<longleftrightarrow> system s' = system s \<and> sync_option s' = sync_option s \<and>
     max_inode_entry s' = max_inode_entry s \<and> max_volume_entry s' = max_volume_entry s \<and>
     block_size s' = block_size s \<and> inuse s' = inuse s \<and> vid_of s' = vid_of s \<and>
     unat (inode_free_count s) \<le> Suc (unat (inode_free_count s')) \<and>
     inode_sync_lfqueue s' = inode_sync_lfqueue s \<and> inode_clean_lfqueue s' = inode_clean_lfqueue s \<and>
     (\<exists>i. st s i \<noteq> SYNC \<and> (key s i = None \<or> key s i = Some (v, lbn)) \<and>
        key s' = (key s)(i \<mapsto> (v, lbn)) \<and> st s' = (st s)(i := DIRTY))"

lemma unat_le_Suc_pred: "unat (x :: u32) \<le> Suc (unat (x - 1))"
  by (cases "x = 0") (simp_all add: unat_minus_one)

lemma written_frame:
  assumes W: "block_written ck m s v lbn bytes hit i a s'" and i: "i < nI s" and v: "v < nV s"
    and sh: "shape_inv s" and ns: "st s i \<noteq> SYNC" and ky: "key s i = None \<or> key s i = Some (v, lbn)"
  shows "write_frame s s' v lbn"
proof -
  note W' = W [unfolded block_written_def Let_def]
  have "system s' = system s" "sync_option s' = sync_option s" "max_inode_entry s' = max_inode_entry s"
    "max_volume_entry s' = max_volume_entry s" "block_size s' = block_size s"
    "inode_sync_lfqueue s' = inode_sync_lfqueue s" "inode_clean_lfqueue s' = inode_clean_lfqueue s"
    using W' by simp_all
  moreover have "inode_free_count s' = inode_free_count s \<or> inode_free_count s' = inode_free_count s - 1"
    using W' by (cases hit) auto
  then have "unat (inode_free_count s) \<le> Suc (unat (inode_free_count s'))"
    using unat_le_Suc_pred [of "inode_free_count s"] by auto
  ultimately show ?thesis
    using written_fun(4,7,8,9) [OF W i v sh] ns ky unfolding write_frame_def by blast
qed

lemma write_block_blocked:
  assumes inv: "nvm_inv ck m s" and v: "v \<in> inuse s" "v = unat v_idx"
    and b: "(\<exists>i. key s i = Some (v, lbn) \<and> st s i = SYNC) \<or>
       (\<forall>i. key s i \<noteq> Some (v, lbn)) \<and> \<not> isFreeLFQueueEnough s"
  shows "write_block ck s v_idx lbn lo buf local_count = Inl Blocked"
proof -
  note I = nvm_invD [OF inv]
  have core: "hash_core (lookup ck s) (view (nodes s)) (key s)" using I(9) by (simp add: hash_inv_def)
  have vV: "v < nV s" using inuse_less [OF v(1)] .
  obtain t where t: "ve_table (volume_table s ! v) = Some t" using inuse_table [OF I(8) v(1)] by blast
  have len: "length (volume_table s) = nV s" "length (inode_table s) = nI s"
    using I(1) by (simp_all add: shape_inv_def)
  have sn: "search_hash_node ck t lbn = lookup ck s v lbn" using vV t by (simp add: lookup_def)
  note ev = write_block_def get_hash_node_with_lock_def isValidNode_def lock_node_def lock_inode_def
  from b show ?thesis
  proof (elim disjE conjE exE)
    fix i assume i: "key s i = Some (v, lbn)" "st s i = SYNC"
    note K = key_Some [OF i(1)]
    obtain a where a: "lookup ck s v lbn = Some a" "view (nodes s) a = Some (Some i, lbn, True, False)"
      using core_key [OF core i(1)] by blast
    from view_nodes [OF a(2)] obtain nd where nd: "nodes s a = Some nd" "hn_inode nd = Some i"
      "hn_is_valid nd" "\<not> hn_mutex nd" by auto
    have "in_lock (inode_table s ! i)" using I(6) K(1) i(2) by (simp add: sync_inv_def)
    then show ?thesis using v vV t len sn a nd K by (simp add: ev Let_def)
  next
    assume miss: "\<forall>i. key s i \<noteq> Some (v, lbn)" and ne: "\<not> isFreeLFQueueEnough s"
    show ?thesis
    proof (cases "lookup ck s v lbn")
      case None
      then show ?thesis using v vV t len sn ne by (simp add: ev Let_def)
    next
      case (Some a)
      have "view (nodes s) a = Some (None, lbn, False, False)" using core_cases [OF core Some] miss by blast
      from view_nodes [OF this] obtain nd where "nodes s a = Some nd" "\<not> hn_is_valid nd" by auto
      then show ?thesis using v vV t len sn ne Some by (simp add: ev Let_def)
    qed
  qed
qed

lemma write_block_ok:
  fixes s :: "'m nvm"
  assumes inv: "nvm_inv ck (Suc m) s" and laws: "cuckoo_laws ck" and lm: "lbn \<noteq> - 1"
    and v: "v \<in> inuse s" "v = unat v_idx"
    and c: "unat local_count \<le> length buf" "unat local_count \<le> bsz s"
    and go: "\<forall>i. key s i = Some (v, lbn) \<longrightarrow> st s i \<noteq> SYNC"
      "(\<forall>i. key s i \<noteq> Some (v, lbn)) \<longrightarrow> isFreeLFQueueEnough s"
  shows "\<exists>s'. write_block ck s v_idx lbn lo buf local_count = Inr (ucast local_count, s') \<and>
    nvm_inv ck m s' \<and> write_frame s s' v lbn \<and>
    abs_store s' = (abs_store s)(vid_of s v := (abs_store s (vid_of s v))
      (lbn := new_data s v buf (unat local_count)))"
proof -
  note I = nvm_invD [OF inv]
  have vV: "v < nV s" using inuse_less [OF v(1)] .
  have "length (block_table s ! unat (ve_block (volume_table s ! v))) = bsz s"
    using I(1) owner_block(2) [OF I(1,3) vV] by (simp add: shape_inv_def)
  then have len: "length (new_data s v buf (unat local_count)) = bsz s"
    using c by (simp add: new_data_def)
  show ?thesis
  proof (cases "\<exists>i. key s i = Some (v, lbn)")
    case True
    then obtain i where i: "key s i = Some (v, lbn)" by blast
    then have ns: "st s i \<noteq> SYNC" using go by blast
    obtain a s' where W: "write_block ck s v_idx lbn lo buf local_count = Inr (ucast local_count, s')"
     "lookup ck s v lbn = Some a" "block_written ck m s v lbn (new_data s v buf (unat local_count)) True i a s'"
      using write_block_hit [OF inv v i ns c] by blast
    note iI = key_Some(1) [OF i]
    show ?thesis
      using W(1) written_inv [OF W(3) inv iI v(1) len _ lm] W(2) i ns written_frame [OF W(3) iI vV I(1) ns]
      by auto
  next
    case False
    then have miss: "\<forall>i. key s i \<noteq> Some (v, lbn)" by blast
    obtain i a s' where W: "write_block ck s v_idx lbn lo buf local_count = Inr (ucast local_count, s')"
      "i < nI s" "st s i = FREE" "lookup ck s v lbn = Some a \<and> view (nodes s) a = Some (None, lbn, False, False) \<or>
      lookup ck s v lbn = None \<and> view (nodes s) a = None"
      "block_written ck m s v lbn (new_data s v buf (unat local_count)) False i a s'"
      using write_block_miss [OF inv laws v _ miss c] go(2) miss by blast
    have kn: "key s i = None" using W(3) by (simp add: key_def)
    show ?thesis
      using W(1) written_inv [OF W(5) inv W(2) v(1) len _ lm] W(3,4) miss written_frame [OF W(5,2) vV I(1)] kn
      by auto
  qed
qed

end
