(* ===== verification/NVM_Volume_Inv.thy ===== *)
theory NVM_Volume_Inv
  imports NVM_Inv
begin

text \<open>
  Opening volumes: \<open>get_volume_entry_idx\<close> keeps the invariant of the system and the abstract store.
\<close>

section \<open>Finding a volume\<close>

lemma find_volume_Some:
  "find_volume es v vid = Some w \<Longrightarrow> \<exists>k < length es. w = v + of_nat k \<and> ve_vid (es ! k) = vid"
proof (induction es v vid rule: find_volume.induct)
  case (2 e es v vid)
  show ?case
  proof (cases "ve_vid e = vid")
    case True
    with 2(2) show ?thesis by (intro exI [of _ 0]) simp
  next
    case False
    with 2 obtain k where "k < length es" "w = v + 1 + of_nat k" "ve_vid (es ! k) = vid" by auto
    then show ?thesis by (intro exI [of _ "Suc k"]) simp
  qed
qed simp

lemma find_volume_None: "find_volume es v vid = None \<Longrightarrow> e \<in> set es \<Longrightarrow> ve_vid e \<noteq> vid"
  by (induction es v vid rule: find_volume.induct) (auto split: if_splits)

section \<open>Allocating an entry\<close>

definition opened :: "'m cuckoo \<Rightarrow> 'm nvm \<Rightarrow> u32 lfqueue \<Rightarrow> u32 lfqueue \<Rightarrow> nat \<Rightarrow> u32 \<Rightarrow> 'm nvm" where
  "opened ck s fq iq v vid = s\<lparr>volume_free_lfqueue := fq, volume_inuse_lfqueue := iq,
     system := snd (sys_open (system s) (get_filename vid)),
     volume_table := (volume_table s)[v := (volume_table s ! v)
       \<lparr>ve_vid := vid, ve_fd := next_fd (system s), ve_table := Some (new_hash_table ck)\<rparr>]\<rparr>"

text \<open>What the functions of the state become, and the volume entries with their files.\<close>

lemma opened_fun:
  assumes len: "length (volume_table s) = nV s" and v: "v < nV s" "v \<notin> inuse s" and vid: "vid \<noteq> - 1"
    and op: "\<not> open_fails (system s) (get_filename vid)"
  shows "volume_table (opened ck s fq iq v vid) ! u = (if u = v then (volume_table s ! v)
       \<lparr>ve_vid := vid, ve_fd := next_fd (system s), ve_table := Some (new_hash_table ck)\<rparr> else volume_table s ! u)"
    "fds (system (opened ck s fq iq v vid)) = (fds (system s))(next_fd (system s) \<mapsto> get_filename vid)"
    "next_fd (system (opened ck s fq iq v vid)) = next_fd (system s) + 1"
    "durable (system (opened ck s fq iq v vid)) = durable (system s)"
    "files (system (opened ck s fq iq v vid)) = (if files (system s) (get_filename vid) = None
       then (files (system s))(get_filename vid \<mapsto> []) else files (system s))"
    "vid_of (opened ck s fq iq v vid) = (vid_of s)(v := vid)"
    "inuse (opened ck s fq iq v vid) = insert v (inuse s)"
proof -
  let ?s = "opened ck s fq iq v vid"
  show vt: "volume_table ?s ! u = (if u = v then (volume_table s ! v)
       \<lparr>ve_vid := vid, ve_fd := next_fd (system s), ve_table := Some (new_hash_table ck)\<rparr> else volume_table s ! u)" for u
    using v len by (simp add: opened_def)
  show "fds (system ?s) = (fds (system s))(next_fd (system s) \<mapsto> get_filename vid)"
    "next_fd (system ?s) = next_fd (system s) + 1" "durable (system ?s) = durable (system s)"
    "files (system ?s) = (if files (system s) (get_filename vid) = None
       then (files (system s))(get_filename vid \<mapsto> []) else files (system s))"
    using op by (simp_all add: opened_def sys_open_def)
  show vo: "vid_of ?s = (vid_of s)(v := vid)" by (auto simp: vid_of_def vt)
  have "nV ?s = nV s" by (simp add: opened_def)
  then show "inuse ?s = insert v (inuse s)" using v vid by (auto simp: inuse_def vo)
qed

lemma opened_volume_inv:
  assumes inv: "volume_inv s" and len: "length (volume_table s) = nV s" and v: "v < nV s" "v \<notin> inuse s"
    and vid: "vid \<noteq> - 1" "\<forall>u < nV s. vid_of s u \<noteq> vid" and op: "\<not> open_fails (system s) (get_filename vid)"
  shows "volume_inv (opened ck s fq iq v vid)"
proof -
  let ?s = "opened ck s fq iq v vid"
  note F = opened_fun [OF len v vid(1) op, where ck = ck and fq = fq and iq = iq]
  have n: "nV ?s = nV s" by (simp add: opened_def)
  have old: "ve_table (volume_table s ! u) \<noteq> None"
    "fds (system s) (ve_fd (volume_table s ! u)) = Some (get_filename (vid_of s u))"
    "files (system s) (get_filename (vid_of s u)) \<noteq> None" if "u \<in> inuse s" for u
    using inv that by (simp_all add: volume_inv_def)
  have fd: "ve_fd (volume_table s ! u) \<noteq> next_fd (system s)" if "u \<in> inuse s" for u
    using old(2) [OF that] inv by (force simp: volume_inv_def)
  have "inj_on (vid_of ?s) (inuse s)" using inv v(2) by (auto simp: volume_inv_def inj_on_def F(6))
  moreover have "vid_of ?s v \<notin> vid_of ?s ` inuse s" using v(2) vid(2) by (auto simp: F(6) inuse_def)
  ultimately have inj: "inj_on (vid_of ?s) (insert v (inuse s))" using v(2) by simp
  show ?thesis
    unfolding volume_inv_def F(7)
  proof (intro conjI ballI allI impI inj)
    fix u assume "u \<in> insert v (inuse s)"
    then consider "u = v" | "u \<noteq> v" "u \<in> inuse s" by blast
    then show "ve_table (volume_table ?s ! u) \<noteq> None"
      "fds (system ?s) (ve_fd (volume_table ?s ! u)) = Some (get_filename (vid_of ?s u))"
      "files (system ?s) (get_filename (vid_of ?s u)) \<noteq> None"
      by (cases; use old fd in \<open>simp add: F\<close>)+
  qed (use inv in \<open>auto simp: volume_inv_def F n\<close>)
qed

lemma opened_inv:
  assumes inv: "nvm_inv ck (Suc m) s" and laws: "cuckoo_laws ck"
    and v: "v < nV s" "v \<notin> inuse s" and vid: "vid \<noteq> - 1" "\<forall>u < nV s. vid_of s u \<noteq> vid"
    and op: "\<not> open_fails (system s) (get_filename vid)"
    and fq: "idxs (volume_free_lfqueue s) = v # idxs fq" "lfq_ok m fq" "capacity fq = max_volume_entry s"
    and iq: "idxs iq = idxs (volume_inuse_lfqueue s) @ [v]" "lfq_ok m iq" "capacity iq = max_volume_entry s"
  shows "nvm_inv ck m (opened ck s fq iq v vid)" "abs_store (opened ck s fq iq v vid) = abs_store s"
    "inuse (opened ck s fq iq v vid) = insert v (inuse s)"
    "vid_of (opened ck s fq iq v vid) = (vid_of s)(v := vid)"
proof -
  note I = nvm_invD [OF inv]
  let ?s = "opened ck s fq iq v vid"
  have len: "length (volume_table s) = nV s" using I(1) by (simp add: shape_inv_def)
  have f: "max_inode_entry ?s = max_inode_entry s" "max_volume_entry ?s = max_volume_entry s"
    "block_size ?s = block_size s" "inode_table ?s = inode_table s" "block_table ?s = block_table s"
    "nodes ?s = nodes s" "next_node ?s = next_node s" "inode_free_lfqueue ?s = inode_free_lfqueue s"
    "inode_free_count ?s = inode_free_count s" "free_enqueue_idx ?s = free_enqueue_idx s"
    "free_dequeue_idx ?s = free_dequeue_idx s" "inode_clean_lfqueue ?s = inode_clean_lfqueue s"
    "inode_dirty_lfqueue ?s = inode_dirty_lfqueue s" "inode_dirty_count ?s = inode_dirty_count s"
    "inode_sync_lfqueue ?s = inode_sync_lfqueue s" "volume_free_lfqueue ?s = fq" "volume_inuse_lfqueue ?s = iq"
    by (simp_all add: opened_def)
  note F = opened_fun [OF len v vid(1) op, where ck = ck and fq = fq and iq = iq]
  note vt = F(1) and sys = F(2-5)
  have fn: "st ?s = st s" "key ?s = key s" "data_of ?s = data_of s" "disk_block ?s = disk_block s"
    by (simp_all add: fun_eq_iff st_def key_def data_of_def disk_block_def f sys)
  show vo: "vid_of ?s = (vid_of s)(v := vid)" and iu: "inuse ?s = insert v (inuse s)" by (rule F(6), rule F(7))
  have fb: "file_block ?s = file_block s"
    by (auto simp: fun_eq_iff file_block_def f sys fblock_created)
  have vn: "ve_table (volume_table s ! v) = None" using I(8) v by (simp add: volume_inv_def)
  have lk: "lookup ck ?s = lookup ck s"
    using vn laws by (auto simp: fun_eq_iff lookup_def f vt new_hash_table_def search_hash_node_def cuckoo_laws_def)
  have kv: "u \<noteq> v" if "key s i = Some (u, l)" for i u l using key_inuse [OF I(9) that] v(2) by auto
  have kvid: "vid_of ?s u = vid_of s u" if "key s i = Some (u, l)" for i u l using kv [OF that] vo by simp
  have "cached ?s x l \<longleftrightarrow> cached s x l" for x l unfolding cached_def fn using kvid by metis
  then have ca: "cached ?s = cached s" by (intro ext)
  have shape: "shape_inv ?s" using I(1) by (simp add: shape_inv_def opened_def)
  have q': "queue_inv m s" using queue_inv_less [OF I(2)] by simp
  have queue: "queue_inv m ?s" using q' fq(2,3) iq(2,3) by (simp add: queue_inv_def f queues_ok_def)
  have "map ve_block (volume_table ?s) = map ve_block (volume_table s)"
    using len by (intro nth_equalityI) (auto simp: vt, simp_all add: opened_def)
  then have block: "block_inv ?s" using I(3) by (simp add: block_inv_def block_owners_def f)
  have vol: "volume_inv ?s" by (rule opened_volume_inv [OF I(8) len v vid op])
  have volq: "volq_inv ?s"
    using I(11) fq(1) iq(1) v by (auto simp: volq_inv_def f iu)
  have hash: "hash_inv ck ?s"
  proof -
    have "tail_ok (nodes s) t" if "u < nV s" "ve_table (volume_table ?s ! u) = Some t" for u t
      using I(9) that by (cases "u = v") (auto simp: hash_inv_def vt tail_ok_def new_hash_table_def new_list_def)
    then show ?thesis using I(9) by (auto simp: hash_inv_def lk fn f iu)
  qed
  have disk: "disk_inv ?s" using I(10) kvid by (auto simp: disk_inv_def fn fb ca)
  show "nvm_inv ck m ?s" using shape queue block vol volq hash disk I(4-7)
    by (simp add: nvm_inv_def flush_inv_def held_Nil free_inv_def dirty_inv_def sync_inv_def clean_inv_def fn f)
  show "abs_store ?s = abs_store s" by (rule abs_cong_cached) (simp_all add: fn f kvid)
qed

text \<open>
  Looking a volume up finds its entry or allocates one; the abstract store does not change. The id
  \<open>0x0U - 1\<close> marks free entries and must not be asked for.
\<close>

lemma get_volume_entry_idx_ok:
  assumes inv: "nvm_inv ck (Suc m) s" and laws: "cuckoo_laws ck" and vid: "vid \<noteq> - 1"
    and op: "\<not> open_fails (system s) (get_filename vid)"
    and room: "(\<exists>v \<in> inuse s. vid_of s v = vid) \<or> inuse s \<noteq> {..<nV s}"
  shows "\<exists>w s'. get_volume_entry_idx ck s vid = Inr (w, s') \<and> nvm_inv ck m s' \<and> unat w \<in> inuse s' \<and>
    vid_of s' (unat w) = vid \<and> abs_store s' = abs_store s \<and> block_size s' = block_size s \<and>
    inode_table s' = inode_table s \<and> block_table s' = block_table s \<and>
    inode_free_count s' = inode_free_count s \<and> max_inode_entry s' = max_inode_entry s \<and>
    ((\<exists>v \<in> inuse s. vid_of s v = vid) \<longrightarrow> s' = s) \<and>
    sync_frame s s' \<and> (\<forall>v \<in> inuse s. vid_of s' v = vid_of s v)"
proof -
  note I = nvm_invD [OF inv]
  have len: "length (volume_table s) = nV s" using I(1) by (simp add: shape_inv_def)
  have inv0: "nvm_inv ck m s"
    using inv queue_inv_less [of "Suc m" s m] by (simp add: nvm_inv_def flush_inv_def)
  show ?thesis
  proof (cases "find_volume (volume_table s) 0 vid")
    case (Some w)
    then obtain k where k: "k < length (volume_table s)" "w = of_nat k" "ve_vid (volume_table s ! k) = vid"
      using find_volume_Some by fastforce
    have "k < 2 ^ 32" using k(1) len unat_u32_less [of "max_volume_entry s"] by simp
    then have "unat w = k" using k(2) by (simp add: unat_of_nat_u32)
    then have "unat w \<in> inuse s" "vid_of s (unat w) = vid" using k len vid by (simp_all add: inuse_def vid_of_def)
    moreover have "get_volume_entry_idx ck s vid = Inr (w, s)" using Some len by (simp add: get_volume_entry_idx_def)
    moreover have "sync_frame s s" by (simp add: sync_frame_def)
    ultimately show ?thesis using inv0 by blast
  next
    case None
    then have nv: "\<forall>u < nV s. vid_of s u \<noteq> vid" using find_volume_None [OF None] nth_mem len by (metis vid_of_def)
    then have no: "\<not> (\<exists>v \<in> inuse s. vid_of s v = vid)" by (auto simp: inuse_def)
    then have "inuse s \<noteq> {..<nV s}" using room by blast
    then have "{..<nV s} - inuse s \<noteq> {}" by (auto simp: inuse_def)
    then have "idxs (volume_free_lfqueue s) \<noteq> []" using I(11) by (auto simp: volq_inv_def)
    then obtain x cs where c: "contents (volume_free_lfqueue s) = x # cs"
      by (cases "contents (volume_free_lfqueue s)") (auto simp: idxs_def)
    let ?v = "unat x"
    have fok: "lfq_ok (Suc m) (volume_free_lfqueue s)" "capacity (volume_free_lfqueue s) = max_volume_entry s"
      "lfq_ok (Suc m) (volume_inuse_lfqueue s)" "capacity (volume_inuse_lfqueue s) = max_volume_entry s"
      using I(2) by (simp_all add: queue_inv_def queues_ok_def)
    obtain fq where fq: "dequeue (volume_free_lfqueue s) = Inr (x, fq)" "contents fq = cs" "lfq_ok (Suc m) fq"
      "capacity fq = capacity (volume_free_lfqueue s)" using dequeue_ok [OF fok(1) c] by blast
    have v: "?v < nV s" "?v \<notin> inuse s" using I(11) c by (auto simp: volq_inv_def idxs_def)
    have "length (idxs (volume_inuse_lfqueue s)) < nV s"
      using I(11) v by (intro distinct_bounded_length [of _ _ ?v]) (auto simp: volq_inv_def inuse_def)
    then have room: "length (contents (volume_inuse_lfqueue s)) < cap_of (volume_inuse_lfqueue s)"
      using fok(4) by (simp add: idxs_def)
    obtain iq where iq: "enqueue (volume_inuse_lfqueue s) x = Inr iq"
      "contents iq = contents (volume_inuse_lfqueue s) @ [x]" "lfq_ok m iq" "capacity iq = capacity (volume_inuse_lfqueue s)"
      using enqueue_ok [OF fok(3) room] by blast
    let ?s = "opened ck s fq iq ?v vid"
    have ids: "idxs (volume_free_lfqueue s) = ?v # idxs fq" "idxs iq = idxs (volume_inuse_lfqueue s) @ [?v]"
      using c fq(2) iq(2) by (simp_all add: idxs_def)
    have fqm: "lfq_ok m fq" using lfq_ok_less [OF fq(3)] by simp
    have caps: "capacity fq = max_volume_entry s" "capacity iq = max_volume_entry s" using fq(4) iq(4) fok by simp_all
    note O = opened_inv [OF inv laws v vid nv op ids(1) fqm caps(1) ids(2) iq(3) caps(2)]
    have "0 \<le> next_fd (system s)" using I(8) by (simp add: volume_inv_def)
    then have "alloc_volume_entry_idx ck s vid = Inr (x, ?s)"
      using c fok(1) fq(1) op v len iq(1)
      by (simp add: alloc_volume_entry_idx_def is_empty_iff lfq_ok_def sys_open_def opened_def)
    then have "get_volume_entry_idx ck s vid = Inr (x, ?s)" using None len by (simp add: get_volume_entry_idx_def)
    moreover have "inode_table ?s = inode_table s" "block_table ?s = block_table s" "block_size ?s = block_size s"
      "inode_free_count ?s = inode_free_count s" "max_inode_entry ?s = max_inode_entry s"
      by (simp_all add: opened_def)
    moreover have "sync_frame s ?s"
      using op by (simp add: sync_frame_def opened_def sys_open_def disk_block_def key_def st_def fun_eq_iff)
    moreover have "\<forall>u \<in> inuse s. vid_of ?s u = vid_of s u" using O(4) v(2) by auto
    ultimately show ?thesis using O no by (intro exI [of _ x] exI [of _ ?s]) simp
  qed
qed

end
