(* ===== verification/NVM_Write_Loop.thy ===== *)
theory NVM_Write_Loop
  imports NVM_Write_Inv NVM_Volume_Inv
begin

text \<open>
  The whole \<open>nvm_durable_write\<close>: its loop ends for every request that does not reach the last block
  number, and what it leaves in the abstract store.
\<close>

section \<open>The loop over the blocks\<close>

text \<open>
  Writing \<open>Suc n\<close> whole blocks. The buffer is not advanced in the loop, so every block receives
  the first block of the buffer.
\<close>

definition spread :: "(u32 \<Rightarrow> u32 \<Rightarrow> u8 list) \<Rightarrow> u32 \<Rightarrow> nat \<Rightarrow> nat \<Rightarrow> u8 list \<Rightarrow> u32 \<Rightarrow> u32 \<Rightarrow> u8 list" where
  "spread G vid k n bytes = (\<lambda>x l. if x = vid \<and> k \<le> unat l \<and> unat l < k + n then bytes else G x l)"

lemma unat_window:
  "unat l \<le> unat l' \<and> unat l' < unat l + Suc n \<longleftrightarrow> l' = l \<or> Suc (unat l) \<le> unat l' \<and> unat l' < Suc (unat l) + n" for l :: u32
  using word_unat_eq_iff [of l' l] by linarith

lemma spread_Suc: "spread (G(x := (G x)(l := b))) x (Suc (unat l)) n b = spread G x (unat l) (Suc n) b"
  unfolding spread_def by (intro ext) (simp only: unat_window, auto)

lemma spread_1: "G(x := (G x)(l := b)) = spread G x (unat l) (Suc 0) b"
  unfolding spread_def by (intro ext) (simp only: unat_window, auto)

text \<open>None of the blocks is being synced.\<close>

definition range_quiet :: "'m nvm \<Rightarrow> u32 \<Rightarrow> nat \<Rightarrow> nat \<Rightarrow> bool" where
  "range_quiet s vid k n \<longleftrightarrow> (\<forall>i v l. key s i = Some (v, l) \<longrightarrow> st s i = SYNC \<longrightarrow> vid_of s v = vid \<longrightarrow>
     \<not> (k \<le> unat l \<and> unat l < k + n))"

lemma range_quiet_first:
  assumes "range_quiet s (vid_of s v) (unat lbn) (Suc n)" "key s i = Some (v, lbn)"
  shows "st s i \<noteq> SYNC"
proof -
  have "unat lbn \<le> unat lbn \<and> unat lbn < unat lbn + Suc n" by simp
  with assms show ?thesis unfolding range_quiet_def by blast
qed

lemma block_bytes:
  assumes "bsz s < 2 ^ 22" "n < 2 ^ 32"
  shows "unat (of_nat (n * bsz s) :: u64) = n * bsz s"
proof (rule unat_of_nat_u64)
  have "n * bsz s \<le> 2 ^ 32 * 2 ^ 22" using assms by (intro mult_le_mono) simp_all
  then show "n * bsz s < 18446744073709551616" by simp
qed

lemma new_data_full:
  assumes inv: "nvm_inv ck m s" and v: "v \<in> inuse s"
  shows "new_data s v buf (bsz s) = take (bsz s) buf"
proof -
  note I = nvm_invD [OF inv]
  have "length (block_table s ! unat (ve_block (volume_table s ! v))) = bsz s"
    using owner_block(2) [OF I(1,3) inuse_less [OF v]] I(1) by (simp add: shape_inv_def)
  then show ?thesis by (simp add: new_data_def)
qed

text \<open>One turn of the loop on a whole block, and the length of the next turn.\<close>

lemma aligned_block:
  fixes s :: "'m nvm"
  assumes inv: "nvm_inv ck (Suc m) s" and laws: "cuckoo_laws ck" and v: "unat v \<in> inuse s" and nl: "lbn \<noteq> - 1"
    and buf: "bsz s \<le> length buf" and room: "100 + n < unat (inode_free_count s)"
    and quiet: "range_quiet s (vid_of s (unat v)) (unat lbn) (Suc n)"
  obtains s' where "write_block ck s v lbn lo buf (block_size s) = Inr (ucast (block_size s), s')" "nvm_inv ck m s'"
    "write_frame s s' (unat v) lbn" "abs_store s' = (abs_store s)(vid_of s (unat v) := (abs_store s (vid_of s (unat v)))
      (lbn := take (bsz s) buf))"
proof -
  have go: "\<forall>i. key s i = Some (unat v, lbn) \<longrightarrow> st s i \<noteq> SYNC" "(\<forall>i. key s i \<noteq> Some (unat v, lbn)) \<longrightarrow> isFreeLFQueueEnough s"
    using room range_quiet_first [OF quiet]
    by (auto simp: isFreeLFQueueEnough_def DEFAULT_FREE_MIN_COUNT_def word_le_nat_alt)
  have bl: "unat (block_size s) \<le> bsz s" by simp
  show thesis
    using write_block_ok [OF inv laws nl v refl buf bl go] new_data_full [OF inv v, of buf] that by metis
qed

lemma next_length:
  assumes c: "c = (of_nat (Suc n * bsz s) :: u64)" and b: "0 < bsz s" "bsz s < 2 ^ 22" and n: "Suc n < 2 ^ 32"
  shows "(if c > ucast (block_size s) then block_size s else ucast c) = block_size s"
proof (cases n)
  case 0
  then have "c = ucast (block_size s)" using c by (simp add: unat_ucast_u32_u64 word_unat_eq_iff)
  then show ?thesis by (simp add: ucast_down_ucast_id is_down)
next
  case (Suc p)
  have "unat c = Suc n * bsz s" unfolding c using n by (intro block_bytes [OF b(2)]) simp
  then have "ucast (block_size s) < c" using Suc b(1) by (simp add: word_less_nat_alt unat_ucast_u32_u64)
  then show ?thesis by simp
qed

lemma write_loop_aligned:
  fixes s :: "'m nvm"
  assumes "nvm_inv ck (Suc n + m) s" and laws: "cuckoo_laws ck" and "unat v \<in> inuse s"
    and "unat lbn + n = unat lbn_end" "lbn_end \<noteq> - 1" "bsz s \<le> length buf" "100 + n < unat (inode_free_count s)"
    and "range_quiet s (vid_of s (unat v)) (unat lbn) (Suc n)"
    and "count = of_nat (Suc n * bsz s)" "bytes + count = tot"
  shows "\<exists>s'. write_loop ck s v lbn lbn_end lo buf count (block_size s) bytes = Some (Inr (tot, s')) \<and>
    nvm_inv ck m s' \<and> vid_of s' = vid_of s \<and>
    abs_store s' = spread (abs_store s) (vid_of s (unat v)) (unat lbn) (Suc n) (take (bsz s) buf)"
  using assms(1,3-)
proof (induction n arbitrary: s lbn lo count bytes)
  case (0 s lbn lo count bytes)
  note P = "0.prems"
  have lb: "lbn = lbn_end" using P(3) by (simp add: word_unat_eq_iff)
  have inv: "nvm_inv ck (Suc m) s" using P(1) by simp
  have nl: "lbn \<noteq> - 1" using lb P(4) by simp
  obtain s' where W: "write_block ck s v lbn lo buf (block_size s) = Inr (ucast (block_size s), s')" "nvm_inv ck m s'"
    "write_frame s s' (unat v) lbn" "abs_store s' = (abs_store s)(vid_of s (unat v) := (abs_store s (vid_of s (unat v)))
      (lbn := take (bsz s) buf))"
    by (rule aligned_block [OF inv laws P(2) nl P(5-7)])
  have "\<not> lbn + 1 \<le> lbn_end"
    using lb P(4) unat_Suc_u32 [of lbn] by (simp add: word_le_nat_alt)
  moreover have "ucast (block_size s) = count" using P(8) by (simp add: unat_ucast_u32_u64 word_unat_eq_iff)
  ultimately have "write_loop ck s v lbn lbn_end lo buf count (block_size s) bytes = Some (Inr (tot, s'))"
    using W(1) P(9) by (subst write_loop.simps) (simp add: Let_def)
  moreover have "abs_store s' = spread (abs_store s) (vid_of s (unat v)) (unat lbn) (Suc 0) (take (bsz s) buf)"
    unfolding W(4) by (rule spread_1)
  ultimately show ?case using W(2,3) by (auto simp: write_frame_def)
next
  case (Suc n s lbn lo count bytes)
  note P = Suc.prems
  have inv: "nvm_inv ck (Suc (Suc n + m)) s" using P(1) by simp
  note I = nvm_invD [OF inv]
  have B: "0 < bsz s" "bsz s < 2 ^ 22" using I(1) by (simp_all add: shape_inv_def)
  have lt: "unat lbn < unat lbn_end" using P(3) by simp
  have nl: "lbn \<noteq> - 1"
  proof
    assume "lbn = - 1"
    with lt unat_u32_less [of lbn_end] show False by (simp add: unsigned_minus_1_eq_mask mask_eq_exp_minus_1)
  qed
  obtain s1 where W: "write_block ck s v lbn lo buf (block_size s) = Inr (ucast (block_size s), s1)" "nvm_inv ck (Suc n + m) s1"
    "write_frame s s1 (unat v) lbn" "abs_store s1 = (abs_store s)(vid_of s (unat v) := (abs_store s (vid_of s (unat v)))
      (lbn := take (bsz s) buf))"
    by (rule aligned_block [OF inv laws P(2) nl P(5-7)])
  note fr = W(3) [unfolded write_frame_def]
  have nxt: "unat (lbn + 1) = Suc (unat lbn)" using unat_Suc_u32 [OF nl] .
  have n32: "Suc (Suc n) < 2 ^ 32" using P(6) unat_u32_less [of "inode_free_count s"] by simp
  let ?c = "count - ucast (block_size s)"
  have c: "?c = of_nat (Suc n * bsz s)"
  proof -
    have "(of_nat (bsz s) :: u64) = ucast (block_size s)" by (simp add: unat_ucast_u32_u64 word_unat_eq_iff)
    then show ?thesis using P(8) by (simp add: algebra_simps)
  qed
  have lc: "(if ?c > ucast (block_size s1) then block_size s1 else ucast ?c) = block_size s1"
    using next_length [of ?c n s1] c B n32 fr by simp
  have le: "lbn + 1 \<le> lbn_end" using nxt lt by (simp add: word_le_nat_alt)
  have step: "write_loop ck s v lbn lbn_end lo buf count (block_size s) bytes =
      write_loop ck s1 v (lbn + 1) lbn_end 0 buf ?c (block_size s1) (bytes + ucast (block_size s))"
    by (subst write_loop.simps) (simp only: W(1) sum.case Let_def fst_conv snd_conv lc le if_True)
  obtain j where j: "key s1 = (key s)(j \<mapsto> (unat v, lbn))" "st s1 = (st s)(j := DIRTY)" using fr by blast
  have q: "range_quiet s1 (vid_of s1 (unat v)) (unat (lbn + 1)) (Suc n)"
    using P(7) fr unfolding range_quiet_def j nxt by (auto split: if_splits)
  have "\<exists>s'. write_loop ck s1 v (lbn + 1) lbn_end 0 buf ?c (block_size s1) (bytes + ucast (block_size s)) = Some (Inr (tot, s')) \<and>
      nvm_inv ck m s' \<and> vid_of s' = vid_of s1 \<and>
      abs_store s' = spread (abs_store s1) (vid_of s1 (unat v)) (unat (lbn + 1)) (Suc n) (take (bsz s1) buf)"
  proof (rule Suc.IH [OF W(2) _ _ P(4) _ _ q])
    show "unat v \<in> inuse s1" "bsz s1 \<le> length buf" using fr P(2,5) by simp_all
    show "unat (lbn + 1) + n = unat lbn_end" using nxt P(3) by simp
    show "100 + n < unat (inode_free_count s1)" using fr P(6) by linarith
    show "?c = of_nat (Suc n * bsz s1)" using c fr by simp
    show "bytes + ucast (block_size s) + ?c = tot" using P(9) by simp
  qed
  then obtain s' where s': "write_loop ck s1 v (lbn + 1) lbn_end 0 buf ?c (block_size s1) (bytes + ucast (block_size s)) = Some (Inr (tot, s'))"
    "nvm_inv ck m s'" "vid_of s' = vid_of s1"
    "abs_store s' = spread (abs_store s1) (vid_of s1 (unat v)) (unat (lbn + 1)) (Suc n) (take (bsz s1) buf)" by blast
  have "abs_store s' = spread (abs_store s) (vid_of s (unat v)) (unat lbn) (Suc (Suc n)) (take (bsz s) buf)"
    unfolding s'(4) W(4) nxt using fr by (simp add: spread_Suc)
  with s' step fr show ?case by auto
qed


section \<open>The whole call\<close>

lemma sint_u64_small:
  assumes "unat (w :: u64) < 2 ^ 63"
  shows "sint w = int (unat w)"
proof -
  have "int (unat w) < 2 ^ 63" using assms by (simp only: of_nat_less_numeral_power_cancel_iff)
  then have "signed_take_bit 63 (int (unat w)) = int (unat w)" by (intro signed_take_bit_int_eq_self) linarith+
  then show ?thesis by (simp only: sint_uint uint_nat) simp
qed

lemma sdiv_of_nat: "int a sdiv int b = int (a div b)" "int a smod int b = int (a mod b)"
proof -
  show d: "int a sdiv int b = int (a div b)" by (cases "a = 0"; cases "b = 0"; simp add: signed_divide_int_def zdiv_int)
  show "int a smod int b = int (a mod b)" by (cases "a = 0") (simp_all add: signed_modulo_int_def zmod_int)
qed

text \<open>The block numbers of a request that starts at a block and ends in block \<open>n\<close> after it.\<close>

lemma aligned_range:
  fixes bs :: u32
  assumes b: "0 < unat bs" "unat bs < 2 ^ 22" and kn: "k + Suc n < 2 ^ 32" and c: "0 < c" "c \<le> unat bs"
  defines "off \<equiv> (of_nat (k * unat bs) :: u64)" and "cnt \<equiv> (of_nat (n * unat bs + c) :: u64)"
  shows "word_of_int (sint off sdiv uint bs) = (of_nat k :: u32)" "word_of_int (sint off smod uint bs) = (0 :: u32)"
    "ucast ((off + cnt - 1) div ucast bs) = (of_nat (k + n) :: u32)"
proof -
  have mul: "a * unat bs < 2 ^ 54" if "a < 2 ^ 32" for a
  proof -
    have "a * unat bs < 2 ^ 32 * 2 ^ 22" using that b by (intro mult_strict_mono) simp_all
    then show ?thesis by simp
  qed
  have o: "unat off = k * unat bs" unfolding off_def using mul [of k] kn by (intro unat_of_nat_u64) simp
  have "sint off = int (k * unat bs)" using sint_u64_small [of off] o mul [of k] kn by simp
  then have sd: "sint off sdiv uint bs = int k" "sint off smod uint bs = 0"
    unfolding uint_nat using sdiv_of_nat [of "k * unat bs" "unat bs"] b(1) by simp_all
  show "word_of_int (sint off sdiv uint bs) = (of_nat k :: u32)" "word_of_int (sint off smod uint bs) = (0 :: u32)"
    unfolding sd by simp_all
  have t: "(k + Suc n) * unat bs < 2 ^ 54" using mul kn by blast
  have le: "k * unat bs + (n * unat bs + c) \<le> (k + Suc n) * unat bs" using c(2) by (simp add: algebra_simps)
  have cn: "unat cnt = n * unat bs + c" unfolding cnt_def using t le by (intro unat_of_nat_u64) simp
  have s: "unat (off + cnt) = k * unat bs + (n * unat bs + c)"
    using t le o cn by (subst unat_add_no_wrap) simp_all
  then have "unat (off + cnt - 1) = k * unat bs + (n * unat bs + c) - 1"
    using c(1) by (subst unat_minus_one) (auto simp: unat_eq_zero [symmetric])
  then have "unat ((off + cnt - 1) div ucast bs) = (k * unat bs + (n * unat bs + c) - 1) div unat bs"
    by (simp add: unat_div unat_ucast_u32_u64)
  also have "k * unat bs + (n * unat bs + c) - 1 = (k + n) * unat bs + (c - 1)"
    using c(1) by (simp add: add_mult_distrib)
  also have "\<dots> div unat bs = k + n"
  proof -
    have d: "(q * b + r) div b = q" if "r < b" for q b r :: nat using that by simp
    show ?thesis by (rule d) (use c in simp)
  qed
  finally have e: "unat ((off + cnt - 1) div ucast bs) = k + n" .
  have lt: "k + n < 4294967296" using kn by simp
  have "unat (ucast ((off + cnt - 1) div ucast bs) :: u32) = k + n"
    using lt by (simp add: unsigned_ucast_eq e take_bit_nat_eq_self)
  then show "ucast ((off + cnt - 1) div ucast bs) = (of_nat (k + n) :: u32)"
    unfolding word_unat_eq_iff unat_of_nat_u32 [OF lt] .
qed

text \<open>Opening the volume leaves what the loop needs.\<close>

lemma open_for_write:
  assumes inv: "nvm_inv ck (Suc m) s" and laws: "cuckoo_laws ck" and vid: "vid \<noteq> - 1"
    and op: "\<not> open_fails (system s) (get_filename vid)"
    and room: "(\<exists>v \<in> inuse s. vid_of s v = vid) \<or> inuse s \<noteq> {..<nV s}" and quiet: "range_quiet s vid k n"
  shows "\<exists>w s1. get_volume_entry_idx ck s vid = Inr (w, s1) \<and> nvm_inv ck m s1 \<and> unat w \<in> inuse s1 \<and>
    vid_of s1 (unat w) = vid \<and> abs_store s1 = abs_store s \<and> block_size s1 = block_size s \<and>
    inode_free_count s1 = inode_free_count s \<and> range_quiet s1 vid k n"
proof -
  note I = nvm_invD [OF inv]
  obtain w s1 where G: "get_volume_entry_idx ck s vid = Inr (w, s1)" "nvm_inv ck m s1" "unat w \<in> inuse s1"
    "vid_of s1 (unat w) = vid" "abs_store s1 = abs_store s" "block_size s1 = block_size s" "inode_table s1 = inode_table s"
    "inode_free_count s1 = inode_free_count s" "sync_frame s s1" "\<forall>v \<in> inuse s. vid_of s1 v = vid_of s v"
    using get_volume_entry_idx_ok [OF inv laws vid op room] by blast
  have "range_quiet s1 vid k n"
    unfolding range_quiet_def
  proof (intro allI impI)
    fix i v l assume a: "key s1 i = Some (v, l)" "st s1 i = SYNC" "vid_of s1 v = vid"
    have "st s i = SYNC" using a(2) G(7) by (simp add: st_def)
    moreover from this have "key s i = Some (v, l)" using a(1) G(9) by (simp add: sync_frame_def)
    moreover from this have "vid_of s v = vid" using a(3) G(10) key_inuse [OF I(9)] by auto
    ultimately show "\<not> (k \<le> unat l \<and> unat l < k + n)" using quiet unfolding range_quiet_def by blast
  qed
  with G show ?thesis by blast
qed

lemma last_block: "k + Suc n < 2 ^ 32 \<Longrightarrow> (of_nat (k + n) :: u32) \<noteq> - 1"
proof
  assume kn: "k + Suc n < 2 ^ 32" and e: "(of_nat (k + n) :: u32) = - 1"
  have "unat (of_nat (k + n) :: u32) = k + n" by (rule unat_of_nat_u32) (use kn in simp)
  with e have "k + n = 4294967295" by (simp add: unsigned_minus_1_eq_mask mask_eq_exp_minus_1)
  with kn show False by simp
qed

lemma durable_write_aligned:
  assumes inv: "nvm_inv ck (Suc (Suc n + m)) s" and laws: "cuckoo_laws ck" and vid: "vid \<noteq> - 1"
    and op: "\<not> open_fails (system s) (get_filename vid)"
    and room: "(\<exists>v \<in> inuse s. vid_of s v = vid) \<or> inuse s \<noteq> {..<nV s}"
    and kn: "k + Suc n < 2 ^ 32" and buf: "bsz s \<le> length buf"
    and free: "100 + n < unat (inode_free_count s)" and quiet: "range_quiet s vid k (Suc n)"
  shows "\<exists>s'. nvm_durable_write ck s vid (of_nat (k * bsz s)) buf (of_nat (Suc n * bsz s)) =
      Some (Inr (of_nat (Suc n * bsz s), s')) \<and> nvm_inv ck m s' \<and>
    abs_store s' = spread (abs_store s) vid k (Suc n) (take (bsz s) buf)"
proof -
  note I = nvm_invD [OF inv]
  have B: "0 < bsz s" "bsz s < 2 ^ 22" using I(1) by (simp_all add: shape_inv_def)
  obtain w s1 where G: "get_volume_entry_idx ck s vid = Inr (w, s1)" "nvm_inv ck (Suc n + m) s1" "unat w \<in> inuse s1"
    "vid_of s1 (unat w) = vid" "abs_store s1 = abs_store s" "block_size s1 = block_size s"
    "inode_free_count s1 = inode_free_count s" "range_quiet s1 vid k (Suc n)"
    using open_for_write [OF inv laws vid op room quiet] by blast
  let ?c = "of_nat (Suc n * bsz s) :: u64"
  have "n * bsz s + bsz s = Suc n * bsz s" by simp
  note A = aligned_range [OF B kn B(1) order_refl, unfolded this]
  have u: "unat (of_nat k :: u32) = k" "unat (of_nat (k + n) :: u32) = k + n"
    using kn by (rule_tac unat_of_nat_u32; simp)+
  from write_loop_aligned [OF G(2) laws G(3), of "of_nat k" "of_nat (k + n)" buf ?c 0 ?c 0] obtain s' where
    s': "write_loop ck s1 w (of_nat k) (of_nat (k + n)) 0 buf ?c (block_size s1) 0 = Some (Inr (?c, s'))"
    "nvm_inv ck m s'" "abs_store s' = spread (abs_store s1) (vid_of s1 (unat w)) k (Suc n) (take (bsz s1) buf)"
    using G u free buf last_block [OF kn] by auto
  have "block_size s1 \<noteq> 0" using B(1) G(6) by auto
  then have "nvm_durable_write ck s vid (of_nat (k * bsz s)) buf ?c = Some (Inr (?c, s'))"
    unfolding nvm_durable_write_def G(1) sum.case Let_def fst_conv snd_conv G(6) A using s'(1) G(6) by simp
  with s' G show ?thesis by auto
qed

text \<open>
  A request for less than a block is served like one for a whole block: the count only enters the
  arithmetic after the first block was written.
\<close>

lemma durable_write_short:
  assumes inv: "nvm_inv ck (Suc (Suc m)) s" and laws: "cuckoo_laws ck" and vid: "vid \<noteq> - 1"
    and op: "\<not> open_fails (system s) (get_filename vid)"
    and room: "(\<exists>v \<in> inuse s. vid_of s v = vid) \<or> inuse s \<noteq> {..<nV s}"
    and k: "k + 1 < 2 ^ 32" and buf: "bsz s \<le> length buf" and c: "0 < c" "c \<le> bsz s"
    and free: "100 \<le> unat (inode_free_count s)" and quiet: "range_quiet s vid k 1"
  shows "\<exists>s'. nvm_durable_write ck s vid (of_nat (k * bsz s)) buf (of_nat c) =
      Some (Inr (ucast (block_size s), s')) \<and> nvm_inv ck m s' \<and>
    abs_store s' = spread (abs_store s) vid k 1 (take (bsz s) buf)"
proof -
  note I = nvm_invD [OF inv]
  have B: "0 < bsz s" "bsz s < 2 ^ 22" using I(1) by (simp_all add: shape_inv_def)
  have quiet': "range_quiet s vid k (Suc 0)" and k': "k + Suc 0 < 2 ^ 32" using quiet k by simp_all
  obtain w s1 where G: "get_volume_entry_idx ck s vid = Inr (w, s1)" "nvm_inv ck (Suc m) s1" "unat w \<in> inuse s1"
    "vid_of s1 (unat w) = vid" "abs_store s1 = abs_store s" "block_size s1 = block_size s"
    "inode_free_count s1 = inode_free_count s" "range_quiet s1 vid k (Suc 0)"
    using open_for_write [OF inv laws vid op room quiet'] by blast
  note A = aligned_range [OF B k' c, unfolded mult_0 add_0 add_0_right]
  let ?l = "of_nat k :: u32"
  have u: "unat ?l = k" by (rule unat_of_nat_u32) (use k in simp)
  have nl: "?l \<noteq> - 1" using last_block [OF k'] by simp
  have go: "\<forall>i. key s1 i = Some (unat w, ?l) \<longrightarrow> st s1 i \<noteq> SYNC" "(\<forall>i. key s1 i \<noteq> Some (unat w, ?l)) \<longrightarrow> isFreeLFQueueEnough s1"
    using range_quiet_first [of s1 "unat w" ?l 0] G(4,7,8) free u
    by (auto simp: isFreeLFQueueEnough_def DEFAULT_FREE_MIN_COUNT_def word_le_nat_alt)
  have bl: "unat (block_size s1) \<le> bsz s1" "unat (block_size s1) \<le> length buf" using buf G(6) by simp_all
  obtain s' where W: "write_block ck s1 w ?l 0 buf (block_size s1) = Inr (ucast (block_size s1), s')" "nvm_inv ck m s'"
    "abs_store s' = (abs_store s1)(vid_of s1 (unat w) := (abs_store s1 (vid_of s1 (unat w)))
      (?l := new_data s1 (unat w) buf (bsz s1)))"
    using write_block_ok [OF G(2) laws nl G(3) refl bl(2,1) go] by blast
  have "\<not> ?l + 1 \<le> ?l" using unat_Suc_u32 [OF nl] by (simp add: word_le_nat_alt)
  then have "write_loop ck s1 w ?l ?l 0 buf (of_nat c) (block_size s1) 0 = Some (Inr (ucast (block_size s1), s'))"
    using W(1) by (subst write_loop.simps) (simp add: Let_def)
  moreover have "block_size s1 \<noteq> 0" using B(1) G(6) by auto
  ultimately have "nvm_durable_write ck s vid (of_nat (k * bsz s)) buf (of_nat c) = Some (Inr (ucast (block_size s), s'))"
    unfolding nvm_durable_write_def G(1) sum.case Let_def fst_conv snd_conv G(6) A using G(6) by simp
  moreover have "abs_store s' = spread (abs_store s) vid k 1 (take (bsz s) buf)"
    unfolding W(3) new_data_full [OF G(2,3)] unfolding spread_1 u G(4-6) by simp
  ultimately show ?thesis using W(2) by blast
qed

end
