(* ===== verification/NVM_Flush_Batch.thy ===== *)
theory NVM_Flush_Batch
  imports NVM_Flush_Inv
begin

text \<open>
  Gathering runs of consecutive blocks into one \<^verbatim>\<open>pwritev\<close> is an optimisation: the flush that
  writes every block with a call of its own, given here as the reference, does the same.
\<close>

section \<open>The reference\<close>

fun flush_each :: "'m nvm \<Rightarrow> nat \<Rightarrow> u32 list \<Rightarrow> 'm nvm res" where
  "flush_each s v [] = Inr s"
| "flush_each s v (i # rest) = rbind (flush_batch s v [i]) (\<lambda>s'. flush_each s' v rest)"

definition nvm_flush_each :: "'m nvm \<Rightarrow> nat \<Rightarrow> 'm nvm res" where
  "nvm_flush_each s v = rbind (flush_take s v) (\<lambda>(i_idxs, s1). flush_each s1 v i_idxs)"

section \<open>One batch\<close>

lemma enqueue_into_sync_append:
  "enqueue_into_sync s (xs @ ys) = rbind (enqueue_into_sync s xs) (\<lambda>s'. enqueue_into_sync s' ys)"
proof (induction xs arbitrary: s)
  case Nil
  then show ?case by simp
next
  case (Cons x xs)
  then show ?case by (simp add: Let_def rbind_def split: sum.splits)
qed

text \<open>Handing inodes on does not look at the files, and leaves the blocks alone.\<close>

lemma enqueue_into_sync_files:
  "enqueue_into_sync s xs = Inr s' \<Longrightarrow> enqueue_into_sync (s\<lparr>system := os\<rparr>) xs = Inr (s'\<lparr>system := os\<rparr>) \<and>
    system s' = system s \<and> (\<forall>i. data_of s' i = data_of s i)"
proof (induction xs arbitrary: s)
  case Nil
  then show ?case by simp
next
  case (Cons x xs)
  from Cons.prems obtain qs where q: "unat x < length (inode_table s)"
    "enq_at (inode_sync_lfqueue s) (rr (sync_queue_idx s) DEFAULT_NUM_SYNCER) x = Inr qs"
    by (auto simp: Let_def rbind_Inr_iff set_inode_state_def at_index_Inr_iff)
  let ?s1 = "s\<lparr>inode_dirty_count := inode_dirty_count s - 1,
    inode_table := (inode_table s)[unat x := (inode_table s ! unat x)\<lparr>in_state := SYNC\<rparr>],
    inode_sync_lfqueue := qs, sync_queue_idx := sync_queue_idx s + 1, mon := (mon s)\<lparr>mon_sync := mon_sync (mon s) + 1\<rparr>\<rparr>"
  have "?s1\<lparr>system := os\<rparr> = s\<lparr>system := os, inode_dirty_count := inode_dirty_count s - 1,
    inode_table := (inode_table s)[unat x := (inode_table s ! unat x)\<lparr>in_state := SYNC\<rparr>],
    inode_sync_lfqueue := qs, sync_queue_idx := sync_queue_idx s + 1, mon := (mon s)\<lparr>mon_sync := mon_sync (mon s) + 1\<rparr>\<rparr>"
    by simp
  note c = this
  have step: "enqueue_into_sync s (x # xs) = enqueue_into_sync ?s1 xs"
    using q by (simp add: set_inode_state_def)
  have step': "enqueue_into_sync (s\<lparr>system := os\<rparr>) (x # xs) = enqueue_into_sync (?s1\<lparr>system := os\<rparr>) xs"
    unfolding c using q by (simp add: set_inode_state_def)
  have "in_block (inode_table ?s1 ! i) = in_block (inode_table s ! i)" for i
    using q(1) by (cases "i = unat x") simp_all
  then have "data_of ?s1 i = data_of s i" for i by (simp add: data_of_def)
  with Cons.IH [of ?s1] Cons.prems show ?case unfolding step step' by simp
qed

lemma wrote_Cons:
  "length b = bsz s \<Longrightarrow> wrote (wrote s vid l0 [b]) vid (Suc l0) bs = wrote s vid l0 (b # bs)"
  by (simp add: wrote_def overwrite_append add.commute)

lemma flush_batch_Cons:
  assumes inv: "flush_inv ck (length (x # batch) + m) s v (map unat ((x # batch) @ rest))" and v: "v \<in> inuse s"
    and ne: "batch \<noteq> []" "length (x # batch) \<le> 1024" and io: "\<not> io_error (system s)"
    and cons: "\<And>k. Suc k < length (x # batch) \<Longrightarrow> lbn_of s ((x # batch) ! Suc k) = lbn_of s ((x # batch) ! k) + 1"
  shows "flush_batch s v (x # batch) = rbind (flush_batch s v [x]) (\<lambda>s'. flush_batch s' v batch)"
proof -
  let ?vid = "vid_of s v" and ?l0 = "unat (lbn_of s x)" and ?d = "\<lambda>i. data_of s (unat i)"
  note A = flush_batch_step [OF inv v _ ne(2) io cons, simplified]
  let ?s1 = "wrote s ?vid ?l0 [?d x]"
  have inv1: "flush_inv ck (length [x] + (length batch + m)) s v (map unat ([x] @ (batch @ rest)))" using inv by simp
  have a1: "flush_batch s v [x] = enqueue_into_sync ?s1 [x]"
    using flush_batch_step(1) [OF inv1 v _ _ io] by simp
  obtain s' where b: "flush_batch s v [x] = Inr s'" "flush_inv ck (length batch + m) s' v (map unat (batch @ rest))"
    "flush_frame s s'"
    using flush_batch_ok [OF inv1 v _ _ io] by auto
  have e: "enqueue_into_sync ?s1 [x] = Inr s'" using a1 b(1) by simp
  have sy: "system s' = system ?s1" and d': "data_of s' i = data_of s i" for i
    using enqueue_into_sync_files [OF e] by (simp_all add: wrote_fun)
  have fr: "v \<in> inuse s'" "\<not> io_error (system s')" "lbn_of s' = lbn_of s" "vid_of s' = vid_of s" "bsz s' = bsz s"
    using b(3) v io by (auto simp: flush_frame_def inuse_def vid_of_def lbn_of_def fun_eq_iff)
  have cons': "lbn_of s' (batch ! Suc k) = lbn_of s' (batch ! k) + 1" if "Suc k < length batch" for k
    using cons [of "Suc k"] that fr(3) by simp
  have f1: "flush_batch s' v batch = enqueue_into_sync (wrote s' ?vid (unat (lbn_of s (hd batch))) (map ?d batch)) batch"
    using flush_batch_step(1) [OF b(2) fr(1) ne(1) _ fr(2) cons'] ne(2) d' fr(3,4) by (simp add: comp_def)
  have f2: "unat (lbn_of s (hd batch)) = Suc ?l0"
    using A(2) [of 1] ne(1) by (simp add: hd_conv_nth lbn_of_def)
  have f3: "wrote s' ?vid (Suc ?l0) (map ?d batch) = s'\<lparr>system := system (wrote ?s1 ?vid (Suc ?l0) (map ?d batch))\<rparr>"
    using sy fr(5) by (simp add: wrote_def)
  have f4: "wrote ?s1 ?vid (Suc ?l0) (map ?d batch) = wrote s ?vid ?l0 (map ?d (x # batch))"
    using A(3) by (simp add: wrote_Cons)
  let ?W = "wrote s ?vid ?l0 (map ?d (x # batch))"
  have f5: "?W = ?s1\<lparr>system := system ?W\<rparr>" by (simp add: wrote_def)
  have "enqueue_into_sync ?W (x # batch) = rbind (enqueue_into_sync ?W [x]) (\<lambda>s'. enqueue_into_sync s' batch)"
    using enqueue_into_sync_append [of ?W "[x]" batch] by (simp only: append_Cons append_Nil)
  also have "enqueue_into_sync ?W [x] = Inr (s'\<lparr>system := system ?W\<rparr>)"
    by (subst f5) (use enqueue_into_sync_files [OF e] in blast)
  finally have "flush_batch s v (x # batch) = enqueue_into_sync (s'\<lparr>system := system ?W\<rparr>) batch"
    using flush_batch_step(1) [OF inv v _ ne(2) io cons] by (simp only: rbind_simps map_map comp_def list.map list.sel list.distinct not_False_eq_True)
  also have "\<dots> = flush_batch s' v batch" unfolding f1 f2 f3 f4 ..
  finally show ?thesis using b(1) by simp
qed

lemma flush_batch_each:
  assumes "flush_inv ck (length batch + m) s v (map unat (batch @ rest))" "v \<in> inuse s"
    "batch \<noteq> []" "length batch \<le> 1024" "\<not> io_error (system s)"
    "\<And>k. Suc k < length batch \<Longrightarrow> lbn_of s (batch ! Suc k) = lbn_of s (batch ! k) + 1"
  shows "flush_batch s v batch = flush_each s v batch"
  using assms
proof (induction batch arbitrary: s)
  case Nil
  then show ?case by simp
next
  case (Cons x batch)
  have inv1: "flush_inv ck (length [x] + (length batch + m)) s v (map unat ([x] @ (batch @ rest)))" using Cons.prems(1) by simp
  obtain s' where b: "flush_batch s v [x] = Inr s'" "flush_inv ck (length batch + m) s' v (map unat (batch @ rest))"
    "flush_frame s s'"
    using flush_batch_ok [OF inv1 Cons.prems(2) _ _ Cons.prems(5)] by auto
  show ?case
  proof (cases "batch = []")
    case True
    then show ?thesis using b(1) by simp
  next
    case False
    have fr: "v \<in> inuse s'" "\<not> io_error (system s')" "lbn_of s' = lbn_of s"
      using b(3) Cons.prems(2,5) by (auto simp: flush_frame_def inuse_def vid_of_def lbn_of_def fun_eq_iff)
    have cons': "lbn_of s' (batch ! Suc k) = lbn_of s' (batch ! k) + 1" if "Suc k < length batch" for k
      using Cons.prems(6) [of "Suc k"] that fr(3) by simp
    have "flush_batch s' v batch = flush_each s' v batch"
      using Cons.IH [OF b(2) fr(1) False _ fr(2) cons'] Cons.prems(4) by simp
    then show ?thesis
      using flush_batch_Cons [OF Cons.prems(1,2) False Cons.prems(4-6)] b(1) by simp
  qed
qed

section \<open>The whole flush\<close>

lemma flush_each_append:
  "flush_each s v (xs @ ys) = rbind (flush_each s v xs) (\<lambda>s'. flush_each s' v ys)"
proof (induction xs arbitrary: s)
  case Nil
  then show ?case by simp
next
  case (Cons x xs)
  then show ?case by (simp add: rbind_def split: sum.splits)
qed

lemma flush_batches_each:
  assumes "flush_inv ck (length xs + m) s v (map unat xs)" "v \<in> inuse s" "length xs \<le> 1024" "\<not> io_error (system s)"
  shows "flush_batches s v xs = flush_each s v xs"
  using assms
proof (induction "length xs" arbitrary: s xs rule: less_induct)
  case less
  show ?case
  proof (cases "xs = []")
    case True
    then show ?thesis by (simp add: flush_batches.simps)
  next
    case False
    let ?n = "batch_count s xs"
    note B = batch_split [OF less.prems(1) False less.prems(3)]
    obtain s1 where s1: "flush_batch s v (take ?n xs) = Inr s1"
      "flush_inv ck (length (drop ?n xs) + m) s1 v (map unat (drop ?n xs))" "flush_frame s s1"
      using flush_batch_ok [OF B(1) less.prems(2) B(2,3) less.prems(4) B(6)] by blast
    have "v \<in> inuse s1" "\<not> io_error (system s1)"
      using s1(3) less.prems(2,4) by (auto simp: flush_frame_def inuse_def vid_of_def)
    then have r: "flush_batches s1 v (drop ?n xs) = flush_each s1 v (drop ?n xs)"
      using less.hyps [of "drop ?n xs" s1] s1(2) B(4,5) by blast
    have "flush_each s v (take ?n xs) = Inr s1"
      using flush_batch_each [OF B(1) less.prems(2) B(2,3) less.prems(4) B(6)] s1(1) by simp
    then have "flush_each s v xs = flush_each s1 v (drop ?n xs)"
      using flush_each_append [of s v "take ?n xs" "drop ?n xs"] by simp
    with r s1(1) False show ?thesis by (subst flush_batches.simps) (simp add: Let_def)
  qed
qed

lemma nvm_flush_each_eq:
  assumes "nvm_inv ck (1024 + m) s" "v \<in> inuse s" "contents (inode_dirty_lfqueue s ! v) \<noteq> []" "\<not> io_error (system s)"
  shows "nvm_flush s v = nvm_flush_each s v"
proof -
  have fi: "flush_inv ck (1024 + m) s v []" using assms(1) nvm_inv_flush [of ck "1024 + m" s v] by simp
  obtain s1 ys where a: "flush_take s v = Inr (ys, s1)" "length ys \<le> 1024" "flush_inv ck (length ys + m) s1 v (map unat ys)"
    "v \<in> inuse s1" "\<not> io_error (system s1)"
    using flush_take_ok [OF fi assms(2-4)] by blast
  then show ?thesis using flush_batches_each [OF a(3,4,2,5)] by (simp add: nvm_flush_take nvm_flush_each_def)
qed

end
