(* ===== verification/NVM_Sync.thy ===== *)
theory NVM_Sync
  imports NVM_State
begin

text \<open>
  The sync threads (\<^verbatim>\<open>src/nvm0sync.cc\<close>): read how many inodes wait, make the files durable, and only
  then release that many inodes as clean. The build without \<^verbatim>\<open>TEMP_FIX\<close>.
\<close>

definition sync_one :: "'m nvm \<Rightarrow> nat \<Rightarrow> 'm nvm res" where
  "sync_one s index =
     rbind (deq_at (inode_sync_lfqueue s) index) (\<lambda>(idx, qs).
     rbind (set_inode_state (s\<lparr>inode_sync_lfqueue := qs\<rparr>) (unat idx) CLEAN) (\<lambda>s1.
     let clean_idx = clean_queue_idx s1 in
     rbind (enq_at (inode_clean_lfqueue s1) (rr clean_idx DEFAULT_NUM_BALLOON) idx) (\<lambda>cs.
     unlock_inode (s1\<lparr>clean_queue_idx := clean_idx + 1, inode_clean_lfqueue := cs,
       mon := (mon s1)\<lparr>mon_clean := mon_clean (mon s1) + 1\<rparr>\<rparr>) (unat idx))))"

primrec sync_many :: "'m nvm \<Rightarrow> nat \<Rightarrow> nat \<Rightarrow> 'm nvm res" where
  "sync_many s index 0 = Inr s"
| "sync_many s index (Suc n) = rbind (sync_one s index) (\<lambda>s'. sync_many s' index n)"

definition sync_files :: "'m nvm \<Rightarrow> 'm nvm" where
  "sync_files s = (if sync_option s then s\<lparr>system := sys_sync (system s)\<rparr> else s)"

definition nvm_sync :: "'m nvm \<Rightarrow> nat \<Rightarrow> 'm nvm res" where
  "nvm_sync s index =
     rbind (at_index (inode_sync_lfqueue s) index) (\<lambda>q.
     let n = get_size q in
     sync_many (sync_files s) index (unat n))"

text \<open>One round of the thread's loop.\<close>

definition sync_thread_round :: "'m nvm \<Rightarrow> nat \<Rightarrow> 'm nvm res" where
  "sync_thread_round s index =
     rbind (at_index (inode_sync_lfqueue s) index) (\<lambda>q.
     if get_size q \<ge> DEFAULT_SYNC_LWM then nvm_sync s index else Inr s)"

end
