(* ===== verification/NVM_Sync_Inv.thy ===== *)
theory NVM_Sync_Inv
  imports NVM_Sync NVM_Inv
begin

text \<open>
  Syncing keeps the invariant and the abstract store, and what it releases as clean is on the
  device: the number of inodes to release is read before the files are made durable, so each
  of them had been written to its file by then (\<open>settled\<close>).
\<close>

section \<open>Making the files durable\<close>

lemma sync_files_inv:
  assumes inv: "nvm_inv ck m s"
  shows "nvm_inv ck m (sync_files s)" "abs_store (sync_files s) = abs_store s"
proof -
  note I = nvm_invD [OF inv]
  let ?s = "sync_files s"
  have f: "max_inode_entry ?s = max_inode_entry s" "max_volume_entry ?s = max_volume_entry s"
    "block_size ?s = block_size s" "volume_table ?s = volume_table s" "inode_table ?s = inode_table s"
    "block_table ?s = block_table s" "files (system ?s) = files (system s)" "nodes ?s = nodes s" "next_node ?s = next_node s"
    "fds (system ?s) = fds (system s)" "next_fd (system ?s) = next_fd (system s)"
    "volume_inuse_lfqueue ?s = volume_inuse_lfqueue s" "volume_free_lfqueue ?s = volume_free_lfqueue s"
    "inode_free_lfqueue ?s = inode_free_lfqueue s" "inode_free_count ?s = inode_free_count s"
    "free_enqueue_idx ?s = free_enqueue_idx s" "free_dequeue_idx ?s = free_dequeue_idx s"
    "inode_clean_lfqueue ?s = inode_clean_lfqueue s" "inode_dirty_lfqueue ?s = inode_dirty_lfqueue s"
    "inode_dirty_count ?s = inode_dirty_count s" "inode_sync_lfqueue ?s = inode_sync_lfqueue s"
    by (simp_all add: sync_files_def sys_sync_def)
  have fn: "st ?s = st s" "key ?s = key s" "data_of ?s = data_of s" "vid_of ?s = vid_of s" "inuse ?s = inuse s"
    "file_block ?s = file_block s" "lookup ck ?s = lookup ck s" "cached ?s = cached s"
    by (simp_all add: fun_eq_iff st_def key_def data_of_def vid_of_def inuse_def file_block_def lookup_def cached_def f)
  have db: "disk_block ?s vid l = (if sync_option s then file_block s vid l else disk_block s vid l)" for vid l
    by (simp add: disk_block_def file_block_def sync_files_def sys_sync_def)
  have "disk_inv ?s" using I(10) unfolding disk_inv_def fn db by auto
  moreover have "volume_inv ?s" using I(8) by (simp add: volume_inv_def fn f)
  moreover have "hash_inv ck ?s" using I(9) by (simp add: hash_inv_def fn f)
  moreover have "volq_inv ?s" using I(11) by (simp add: volq_inv_def fn f)
  ultimately show "nvm_inv ck m ?s"
    using I(1-7) by (simp add: nvm_inv_def flush_inv_def held_Nil shape_inv_def queue_inv_def block_inv_def
      block_owners_def free_inv_def dirty_inv_def sync_inv_def clean_inv_def fn f)
  have "disk_block ?s vid l = disk_block s vid l" if "\<not> cached s vid l" for vid l
    using I(10) that by (simp add: db disk_inv_def)
  then have "abs_store ?s vid l = abs_store s vid l" for vid l
  proof (cases "cached s vid l")
    case True
    then obtain i v where "key s i = Some (v, l)" "vid_of s v = vid" by (auto simp: cached_def)
    then show ?thesis using abs_cached [OF I(9,8)] abs_cached [OF \<open>hash_inv ck ?s\<close> \<open>volume_inv ?s\<close>] fn by metis
  next
    case False
    then show ?thesis using abs_uncached [of s vid l] abs_uncached [of ?s vid l] db I(10)
      by (simp add: fn disk_inv_def)
  qed
  then show "abs_store ?s = abs_store s" by (intro ext)
qed

text \<open>The first \<open>n\<close> inodes waiting in a sync queue are on the device.\<close>

definition settled :: "'m nvm \<Rightarrow> nat \<Rightarrow> nat \<Rightarrow> bool" where
  "settled s k n \<longleftrightarrow> n \<le> length (idxs (inode_sync_lfqueue s ! k)) \<and>
     (\<forall>i \<in> set (take n (idxs (inode_sync_lfqueue s ! k))). \<forall>v l. key s i = Some (v, l) \<longrightarrow>
        disk_block s (vid_of s v) l = data_of s i)"

lemma sync_queue_state:
  assumes "sync_inv s" "k = 0 \<or> k = 1" "i \<in> set (idxs (inode_sync_lfqueue s ! k))"
  shows "i < nI s" "st s i = SYNC"
  using assms by (auto simp: sync_inv_def)

lemma sync_files_settled:
  assumes inv: "nvm_inv ck m s" and "sync_option s" "k = 0 \<or> k = 1"
  shows "settled (sync_files s) k (length (idxs (inode_sync_lfqueue s ! k)))"
proof -
  note I = nvm_invD [OF inv]
  let ?s = "sync_files s"
  have f: "key ?s = key s" "data_of ?s = data_of s" "vid_of ?s = vid_of s" "inode_sync_lfqueue ?s = inode_sync_lfqueue s"
    "disk_block ?s = file_block s"
    using assms(2) by (simp_all add: fun_eq_iff key_def st_def data_of_def vid_of_def disk_block_def file_block_def
        sync_files_def sys_sync_def)
  have "file_block s (vid_of s v) l = data_of s i"
    if "i \<in> set (idxs (inode_sync_lfqueue s ! k))" "key s i = Some (v, l)" for i v l
    using I(10) sync_queue_state(2) [OF I(6) assms(3) that(1)] that(2) by (simp add: disk_inv_def)
  then show ?thesis by (simp add: settled_def f)
qed

section \<open>Releasing an inode as clean\<close>

definition cleaned :: "'m nvm \<Rightarrow> nat \<Rightarrow> u32 lfqueue \<Rightarrow> u32 lfqueue \<Rightarrow> nat \<Rightarrow> 'm nvm" where
  "cleaned s k sq cq i = s\<lparr>inode_sync_lfqueue := (inode_sync_lfqueue s)[k := sq],
     inode_table := (inode_table s)[i := (inode_table s ! i)\<lparr>in_state := CLEAN, in_lock := False\<rparr>],
     clean_queue_idx := clean_queue_idx s + 1,
     inode_clean_lfqueue := (inode_clean_lfqueue s)[rr (clean_queue_idx s) DEFAULT_NUM_BALLOON := cq],
     mon := (mon s)\<lparr>mon_clean := mon_clean (mon s) + 1\<rparr>\<rparr>"

lemma cleaned_fields:
  "in_lbn (inode_table (cleaned s k sq cq i) ! j) = in_lbn (inode_table s ! j)"
  "in_volume (inode_table (cleaned s k sq cq i) ! j) = in_volume (inode_table s ! j)"
  "in_block (inode_table (cleaned s k sq cq i) ! j) = in_block (inode_table s ! j)"
  "length (inode_table (cleaned s k sq cq i)) = length (inode_table s)"
  by (cases "i < length (inode_table s)"; cases "j = i"; simp add: cleaned_def list_update_beyond)+

lemma cleaned_fun:
  assumes "st s i = SYNC" "i < length (inode_table s)"
  shows "st (cleaned s k sq cq i) = (st s)(i := CLEAN)" "key (cleaned s k sq cq i) = key s"
  "data_of (cleaned s k sq cq i) = data_of s"
  "vid_of (cleaned s k sq cq i) = vid_of s" "inuse (cleaned s k sq cq i) = inuse s"
  "file_block (cleaned s k sq cq i) = file_block s" "disk_block (cleaned s k sq cq i) = disk_block s"
  "lookup ck (cleaned s k sq cq i) = lookup ck s" "block_owners (cleaned s k sq cq i) = block_owners s"
  "in_lock (inode_table (cleaned s k sq cq i) ! j) = (if j = i then False else in_lock (inode_table s ! j))"
proof -
  let ?s = "cleaned s k sq cq i"
  show st: "st ?s = (st s)(i := CLEAN)" using assms by (auto simp: st_def fun_eq_iff cleaned_def nth_list_update)
  show "in_lock (inode_table ?s ! j) = (if j = i then False else in_lock (inode_table s ! j))"
    using assms by (simp add: cleaned_def)
  have f: "max_inode_entry ?s = max_inode_entry s" "max_volume_entry ?s = max_volume_entry s"
    "block_size ?s = block_size s" "volume_table ?s = volume_table s"
    "block_table ?s = block_table s" "system ?s = system s"
    by (simp_all add: cleaned_def)
  show "key ?s = key s" using assms(1) by (auto simp: key_def st f cleaned_fields fun_eq_iff)
  show "data_of ?s = data_of s" by (simp add: data_of_def cleaned_fields f fun_eq_iff)
  show vid: "vid_of ?s = vid_of s" by (simp add: vid_of_def f fun_eq_iff)
  show "inuse ?s = inuse s" by (simp add: inuse_def f vid)
  show "file_block ?s = file_block s" "disk_block ?s = disk_block s"
    by (simp_all add: file_block_def disk_block_def f fun_eq_iff)
  show "lookup ck ?s = lookup ck s" by (simp add: lookup_def f fun_eq_iff)
  have "map in_block (inode_table ?s) = map in_block (inode_table s)"
    by (rule nth_equalityI) (simp_all add: cleaned_fields)
  then show "block_owners ?s = block_owners s" by (simp add: block_owners_def f)
qed

lemma cleaned_inv:
  assumes inv: "nvm_inv ck (Suc m) s" and k: "k = 0 \<or> k = 1"
    and sq: "idxs (inode_sync_lfqueue s ! k) = i # idxs sq" "lfq_ok m sq" "capacity sq = max_inode_entry s"
    and cq: "idxs cq = idxs (inode_clean_lfqueue s ! rr (clean_queue_idx s) DEFAULT_NUM_BALLOON) @ [i]"
      "lfq_ok m cq" "capacity cq = max_inode_entry s"
    and disk: "\<And>v l. key s i = Some (v, l) \<Longrightarrow> disk_block s (vid_of s v) l = data_of s i"
  shows "nvm_inv ck m (cleaned s k sq cq i)" "abs_store (cleaned s k sq cq i) = abs_store s"
proof -
  note I = nvm_invD [OF inv]
  let ?s = "cleaned s k sq cq i" and ?c = "rr (clean_queue_idx s) DEFAULT_NUM_BALLOON"
  have i: "i < nI s" "st s i = SYNC" using sync_queue_state [OF I(6) k] sq(1) by simp_all
  have len: "length (inode_table s) = nI s" "length (inode_sync_lfqueue s) = 2" "length (inode_clean_lfqueue s) = 8"
    using I(1) by (simp_all add: shape_inv_def DEFAULT_NUM_SYNCER_def DEFAULT_NUM_BALLOON_def)
  have cl: "?c < length (inode_clean_lfqueue s)" unfolding len DEFAULT_NUM_BALLOON_def by (rule rr_less) simp_all
  have il: "i < length (inode_table s)" using i(1) len by simp
  note F = cleaned_fun [OF i(2) il, where k = k and sq = sq and cq = cq]
  have f: "max_inode_entry ?s = max_inode_entry s" "max_volume_entry ?s = max_volume_entry s"
    "block_size ?s = block_size s" "volume_table ?s = volume_table s"
    "block_table ?s = block_table s" "system ?s = system s" "nodes ?s = nodes s" "next_node ?s = next_node s"
    "inode_free_lfqueue ?s = inode_free_lfqueue s" "inode_free_count ?s = inode_free_count s"
    "free_enqueue_idx ?s = free_enqueue_idx s" "free_dequeue_idx ?s = free_dequeue_idx s"
    "inode_dirty_lfqueue ?s = inode_dirty_lfqueue s" "inode_dirty_count ?s = inode_dirty_count s"
    "inode_sync_lfqueue ?s = (inode_sync_lfqueue s)[k := sq]"
    "inode_clean_lfqueue ?s = (inode_clean_lfqueue s)[?c := cq]"
    "volume_inuse_lfqueue ?s = volume_inuse_lfqueue s" "volume_free_lfqueue ?s = volume_free_lfqueue s"
    by (simp_all add: cleaned_def)
  have q': "queue_inv m s" using queue_inv_less [OF I(2)] by simp
  have shape: "shape_inv ?s" using I(1) by (simp add: shape_inv_def cleaned_def)
  have queue: "queue_inv m ?s" using q' queues_ok_update sq(2,3) cq(2,3) by (simp add: queue_inv_def cleaned_def)
  have block: "block_inv ?s" using I(3) by (simp add: block_inv_def F f)
  have "{j. j < nI s \<and> st ?s j = FREE} = {j. j < nI s \<and> st s j = FREE}" using i(2) F(1) by auto
  then have free: "free_inv ?s" using I(4) unfolding free_inv_def f by simp
  have "{j. j < nI s \<and> st ?s j = DIRTY} = {j. j < nI s \<and> st s j = DIRTY}"
    "{j. j < nI s \<and> st ?s j = DIRTY \<and> in_volume (inode_table s ! j) = Some v} =
     {j. j < nI s \<and> st s j = DIRTY \<and> in_volume (inode_table s ! j) = Some v}" for v using i(2) F(1) by auto
  then have dirty: "dirty_inv ?s" using I(5) unfolding dirty_inv_def f cleaned_fields by simp
  have vol: "volume_inv ?s" using I(8) by (simp add: volume_inv_def F f)
  have volq: "volq_inv ?s" using I(11) by (simp add: volq_inv_def F f)
  have hash: "hash_inv ck ?s" using I(9) i(2) unfolding hash_inv_def F(2-9) f cleaned_fields F(1) by auto
  have dk: "disk_inv ?s"
    by (rule disk_inv_moved [OF I(10) F(1-4,6,7)]) (use I(10) i(2) disk in \<open>simp add: disk_inv_def\<close>)
  have sy: "{j. j < nI s \<and> st ?s j = SYNC} = {j. j < nI s \<and> st s j = SYNC} - {i}" using F(1) by auto
  have lk: "in_lock (inode_table ?s ! j) \<longleftrightarrow> st ?s j = SYNC" if "j < nI s" for j
    using I(6) that F(1,10) i by (auto simp: sync_inv_def)
  have S: "distinct (idxs (inode_sync_lfqueue s ! 0) @ idxs (inode_sync_lfqueue s ! 1))"
    "set (idxs (inode_sync_lfqueue s ! 0) @ idxs (inode_sync_lfqueue s ! 1)) = {i. i < nI s \<and> st s i = SYNC}"
    using I(6) by (simp_all add: sync_inv_def)
  have sync: "sync_inv ?s"
    using k
  proof
    assume k: "k = 0"
    show ?thesis using S sq(1) lk len(2) unfolding sync_inv_def f sy S(2) [symmetric] by (auto simp: k)
  next
    assume k: "k = 1"
    show ?thesis using S sq(1) lk len(2) unfolding sync_inv_def f sy S(2) [symmetric] by (auto simp: k)
  qed
  have clean: "clean_inv ?s"
    by (rule clean_inv_update [OF I(7) f(16) cl]) (use cq(1) i F(1) in \<open>auto simp: f split: if_splits\<close>)
  show "nvm_inv ck m ?s" using shape queue block free dirty vol volq hash dk sync clean
    by (simp add: nvm_inv_def flush_inv_def held_Nil)
  show "abs_store ?s = abs_store s" by (rule abs_cong [OF F(2,4,3,7)]) (simp add: f)
qed


definition clean_room :: "'m nvm \<Rightarrow> nat \<Rightarrow> bool" where
  "clean_room s n \<longleftrightarrow> (\<forall>q \<in> set (inode_clean_lfqueue s). length (contents q) + n \<le> nI s)"

lemma sync_one_ok:
  assumes inv: "nvm_inv ck (Suc m) s" and k: "k = 0 \<or> k = 1" and n: "settled s k (Suc n)"
    and room: "length (contents (inode_clean_lfqueue s ! rr (clean_queue_idx s) DEFAULT_NUM_BALLOON)) < nI s"
  shows "\<exists>s'. sync_one s k = Inr s' \<and> nvm_inv ck m s' \<and> abs_store s' = abs_store s \<and> settled s' k n \<and>
    contents (inode_sync_lfqueue s' ! k) = tl (contents (inode_sync_lfqueue s ! k)) \<and>
    inuse s' = inuse s \<and> vid_of s' = vid_of s \<and> sync_option s' = sync_option s \<and> nI s' = nI s \<and> system s' = system s \<and>
    st s' = (st s)(hd (idxs (inode_sync_lfqueue s ! k)) := CLEAN) \<and>
    (\<forall>j. j \<noteq> k \<longrightarrow> inode_sync_lfqueue s' ! j = inode_sync_lfqueue s ! j) \<and>
    key s' = key s \<and> data_of s' = data_of s \<and> disk_block s' = disk_block s \<and>
    (\<forall>p. clean_room s (Suc p) \<longrightarrow> clean_room s' p)"
proof -
  note I = nvm_invD [OF inv]
  let ?q = "inode_sync_lfqueue s ! k" and ?c = "rr (clean_queue_idx s) DEFAULT_NUM_BALLOON"
  have len: "length (inode_table s) = nI s" "length (inode_sync_lfqueue s) = 2" "length (inode_clean_lfqueue s) = 8"
    using I(1) by (simp_all add: shape_inv_def DEFAULT_NUM_SYNCER_def DEFAULT_NUM_BALLOON_def)
  have kl: "k < length (inode_sync_lfqueue s)" using k len by auto
  have cl: "?c < length (inode_clean_lfqueue s)" unfolding len DEFAULT_NUM_BALLOON_def by (rule rr_less) simp_all
  obtain x cs where c: "contents ?q = x # cs" using n by (cases "contents ?q") (auto simp: settled_def idxs_def)
  obtain sq where sq: "deq_at (inode_sync_lfqueue s) k = Inr (x, (inode_sync_lfqueue s)[k := sq])" "contents sq = cs"
    "lfq_ok (Suc m) sq" "capacity sq = capacity ?q"
    using deq_at_ok [OF kl _ c] queue_member(3) [OF I(2) kl] by blast
  obtain cq where cq: "enq_at (inode_clean_lfqueue s) ?c x = Inr ((inode_clean_lfqueue s)[?c := cq])"
    "contents cq = contents (inode_clean_lfqueue s ! ?c) @ [x]" "lfq_ok m cq"
    "capacity cq = capacity (inode_clean_lfqueue s ! ?c)"
    using enq_at_ok [OF cl, of m x] room queue_member(4) [OF I(2) cl] by auto
  let ?i = "unat x"
  let ?s = "cleaned s k sq cq ?i"
  have id: "idxs ?q = ?i # idxs sq" "idxs cq = idxs (inode_clean_lfqueue s ! ?c) @ [?i]"
    using c sq(2) cq(2) by (simp_all add: idxs_def)
  have i: "?i < nI s" "st s ?i = SYNC" using sync_queue_state [OF I(6) k] id(1) by simp_all
  have il: "?i < length (inode_table s)" using i(1) len by simp
  note F = cleaned_fun [OF i(2) il, where k = k and sq = sq and cq = cq]
  have caps: "lfq_ok m sq" "capacity sq = max_inode_entry s" "capacity cq = max_inode_entry s"
    using sq(3,4) cq(4) queue_member(3) [OF I(2) kl] queue_member(4) [OF I(2) cl] lfq_ok_less [OF sq(3), of m] by simp_all
  have dsk: "disk_block s (vid_of s v) l = data_of s ?i" if "key s ?i = Some (v, l)" for v l
    using n that id(1) by (simp add: settled_def)
  note inv' = cleaned_inv [OF inv k id(1) caps(1,2) id(2) cq(3) caps(3) dsk]
  have "sync_one s k = Inr ?s"
    using sq(1) cq(1) il by (simp add: sync_one_def set_inode_state_def unlock_inode_def cleaned_def Let_def)
  moreover have "settled ?s k n"
    using n id(1) kl unfolding settled_def F(2-9) by (auto simp: cleaned_def idxs_def)
  moreover have "clean_room ?s p" if "clean_room s (Suc p)" for p
  proof -
    have "inode_clean_lfqueue s ! ?c \<in> set (inode_clean_lfqueue s)" using cl by simp
    then have "length (contents cq) + p \<le> nI s" using that cq(2) by (fastforce simp: clean_room_def)
    moreover have "length (contents q) + p \<le> nI s" if "q \<in> set (inode_clean_lfqueue s)" for q
      using \<open>clean_room s (Suc p)\<close> that by (fastforce simp: clean_room_def)
    moreover have "set (inode_clean_lfqueue ?s) \<subseteq> insert cq (set (inode_clean_lfqueue s))"
      by (simp add: cleaned_def set_update_subset_insert)
    ultimately show ?thesis by (auto simp: clean_room_def cleaned_def)
  qed
  ultimately show ?thesis using inv' F(1-7) c sq(2) kl id(1)
    by (intro exI [of _ ?s]) (auto simp: cleaned_def)
qed

lemma sync_many_ok:
  assumes "nvm_inv ck (n + m) s" "k = 0 \<or> k = 1" "settled s k n" "clean_room s n"
  shows "\<exists>s'. sync_many s k n = Inr s' \<and> nvm_inv ck m s' \<and> abs_store s' = abs_store s \<and>
    contents (inode_sync_lfqueue s' ! k) = drop n (contents (inode_sync_lfqueue s ! k)) \<and>
    (\<forall>i \<in> set (take n (idxs (inode_sync_lfqueue s ! k))). st s' i = CLEAN) \<and>
    (\<forall>i. st s i = CLEAN \<longrightarrow> st s' i = CLEAN) \<and> inuse s' = inuse s \<and> vid_of s' = vid_of s \<and> key s' = key s \<and>
    nI s' = nI s"
  using assms
proof (induction n arbitrary: s)
  case 0
  then show ?case by simp
next
  case (Suc n)
  let ?q = "inode_sync_lfqueue s ! k" and ?c = "rr (clean_queue_idx s) DEFAULT_NUM_BALLOON"
  note I = nvm_invD [OF Suc.prems(1)]
  have "length (inode_clean_lfqueue s) = 8" using I(1) by (simp add: shape_inv_def DEFAULT_NUM_BALLOON_def)
  then have "?c < length (inode_clean_lfqueue s)" by (simp add: DEFAULT_NUM_BALLOON_def rr_less)
  then have "inode_clean_lfqueue s ! ?c \<in> set (inode_clean_lfqueue s)" by simp
  then have "length (contents (inode_clean_lfqueue s ! ?c)) + Suc n \<le> nI s"
    using Suc.prems(4) unfolding clean_room_def by blast
  then have room: "length (contents (inode_clean_lfqueue s ! ?c)) < nI s" by simp
  have inv: "nvm_inv ck (Suc (n + m)) s" using Suc.prems(1) by simp
  obtain s1 where s1: "sync_one s k = Inr s1" "nvm_inv ck (n + m) s1" "abs_store s1 = abs_store s" "settled s1 k n"
    "contents (inode_sync_lfqueue s1 ! k) = tl (contents ?q)" "inuse s1 = inuse s" "vid_of s1 = vid_of s"
    "st s1 = (st s)(hd (idxs ?q) := CLEAN)" "clean_room s1 n" "key s1 = key s"
    "nI s1 = nI s"
    using sync_one_ok [OF inv Suc.prems(2,3) room] Suc.prems(4) by blast
  obtain s' where s': "sync_many s1 k n = Inr s'" "nvm_inv ck m s'" "abs_store s' = abs_store s1"
    "contents (inode_sync_lfqueue s' ! k) = drop n (contents (inode_sync_lfqueue s1 ! k))"
    "\<forall>i \<in> set (take n (idxs (inode_sync_lfqueue s1 ! k))). st s' i = CLEAN"
    "\<forall>i. st s1 i = CLEAN \<longrightarrow> st s' i = CLEAN" "inuse s' = inuse s1" "vid_of s' = vid_of s1"
    "key s' = key s1" "nI s' = nI s1"
    using Suc.IH [OF s1(2) Suc.prems(2) s1(4,9)] by blast
  obtain x cs where c: "contents ?q = x # cs" using Suc.prems(3) by (cases "contents ?q") (auto simp: settled_def idxs_def)
  have "st s' i = CLEAN" if "i \<in> set (take (Suc n) (idxs ?q))" for i
  proof (cases "i = unat x")
    case True
    then have "st s1 i = CLEAN" using s1(8) c by (simp add: idxs_def)
    then show ?thesis using s'(6) by blast
  next
    case False
    then have "i \<in> set (take n (idxs (inode_sync_lfqueue s1 ! k)))" using that c s1(5) by (simp add: idxs_def)
    then show ?thesis using s'(5) by blast
  qed
  moreover have "st s i = CLEAN \<longrightarrow> st s' i = CLEAN" for i using s1(8) s'(6) by simp
  moreover have "sync_many s k (Suc n) = Inr s'" using s1(1) s'(1) by simp
  ultimately show ?case using s' s1(3,5-7,10,11) c by (intro exI [of _ s']) (simp add: drop_Suc)
qed

lemma nvm_sync_ok:
  assumes inv: "nvm_inv ck (nI s + m) s" and opt: "sync_option s" and k: "k < DEFAULT_NUM_SYNCER"
    and room: "clean_room s (length (contents (inode_sync_lfqueue s ! k)))"
  shows "\<exists>s'. nvm_sync s k = Inr s' \<and> nvm_inv ck m s' \<and> abs_store s' = abs_store s \<and>
    contents (inode_sync_lfqueue s' ! k) = [] \<and>
    (\<forall>i \<in> set (idxs (inode_sync_lfqueue s ! k)). st s' i = CLEAN) \<and> inuse s' = inuse s \<and> vid_of s' = vid_of s \<and>
    key s' = key s \<and> nI s' = nI s"
proof -
  note I = nvm_invD [OF inv]
  let ?q = "inode_sync_lfqueue s ! k" and ?s = "sync_files s"
  have k': "k = 0 \<or> k = 1" "k < length (inode_sync_lfqueue s)"
    using k I(1) by (auto simp: shape_inv_def DEFAULT_NUM_SYNCER_def)
  have ok: "lfq_ok (nI s + m) ?q" "capacity ?q = max_inode_entry s" using queue_member(3) [OF I(2) k'(2)] by simp_all
  have n: "unat (get_size ?q) = length (contents ?q)" using ok(1) by (simp add: unat_get_size lfq_ok_def)
  have le: "length (contents ?q) \<le> nI s" using lfq.waiting_room [OF ok(1)] ok(2) by simp
  have f: "inode_sync_lfqueue ?s = inode_sync_lfqueue s" "clean_room ?s = clean_room s" "inuse ?s = inuse s" "vid_of ?s = vid_of s"
    "key ?s = key s" "nI ?s = nI s"
    by (simp_all add: fun_eq_iff sync_files_def clean_room_def inuse_def vid_of_def key_def st_def)
  have "nvm_inv ck (length (contents ?q) + m) s"
    using inv le queue_inv_less [of "nI s + m" s "length (contents ?q) + m"] by (simp add: nvm_inv_def flush_inv_def)
  note S = sync_files_inv [OF this]
  have "settled ?s k (length (contents ?q))" using sync_files_settled [OF inv opt k'(1)] by (simp add: idxs_def)
  then obtain s' where "sync_many ?s k (length (contents ?q)) = Inr s'" "nvm_inv ck m s'" "abs_store s' = abs_store ?s"
    "contents (inode_sync_lfqueue s' ! k) = drop (length (contents ?q)) (contents ?q)"
    "\<forall>i \<in> set (take (length (contents ?q)) (idxs ?q)). st s' i = CLEAN" "inuse s' = inuse s" "vid_of s' = vid_of s"
    "key s' = key s" "nI s' = nI s"
    using sync_many_ok [OF S(1) k'(1)] room unfolding f by blast
  then show ?thesis using k'(2) n S(2) by (simp add: nvm_sync_def idxs_def Let_def)
qed

end
