(* ===== verification/NVM_Example.thy ===== *)
theory NVM_Example
  imports NVM_Write_Inv NVM_Volume_Inv NVM_Flush_Inv NVM_Sync_Inv NVM_Close_Inv
begin

text \<open>
  A small system to try the theorems on: 128 inodes, two volumes, blocks of four bytes, freshly
  formatted and started; then volume 7 is opened, and its blocks 3 and 4 are written. A flush hands
  one of the two to a sync thread, which makes it durable.
\<close>

definition demo_blank :: "(u32 \<Rightarrow> nat option) nvm" where
  "demo_blank = \<lparr>max_volume_entry = 2, max_inode_entry = 128, block_size = 4,
     volume_table = map (\<lambda>v. \<lparr>ve_vid = 0, ve_fd = 0, ve_block = of_nat v + 128, ve_table = None\<rparr>) [0..<2],
     inode_table = map (\<lambda>i. \<lparr>in_lbn = 0, in_state = FREE, in_volume = None, in_block = of_nat i, in_lock = False\<rparr>) [0..<128],
     block_table = replicate 130 [0, 0, 0, 0],
     volume_free_lfqueue = new_lfqueue (\<lambda>_. 0) 0, volume_inuse_lfqueue = new_lfqueue (\<lambda>_. 0) 0,
     inode_free_lfqueue = [], free_enqueue_idx = 0, free_dequeue_idx = 0, inode_free_count = 0,
     inode_dirty_lfqueue = [], inode_dirty_count = 0, inode_sync_lfqueue = [], sync_queue_idx = 0,
     inode_clean_lfqueue = [], clean_queue_idx = 0, kFlushLwm = 0, sync_option = True,
     sys_terminate = False, mon = \<lparr>mon_free = 0, mon_dirty = 0, mon_clean = 0, mon_sync = 0, time_recorder = \<lparr>tv_sec = 0, tv_nsec = 0\<rparr>\<rparr>,
     nodes = (\<lambda>_. None), next_node = 0,
     system = \<lparr>fds = (\<lambda>_. None), next_fd = 3, files = (\<lambda>_. None), durable = (\<lambda>_. None),
       open_fails = (\<lambda>_. False), io_error = False\<rparr>\<rparr>"

definition demo0 :: "(u32 \<Rightarrow> nat option) nvm" where
  "demo0 = projr (nvm_system_init (\<lambda>_. 0) demo_blank)"

definition demo_volume :: u32 where
  "demo_volume = fst (projr (get_volume_entry_idx fun_cuckoo demo0 7))"

definition demo1 :: "(u32 \<Rightarrow> nat option) nvm" where
  "demo1 = snd (projr (get_volume_entry_idx fun_cuckoo demo0 7))"

definition demo2 :: "(u32 \<Rightarrow> nat option) nvm" where
  "demo2 = snd (projr (write_block fun_cuckoo demo1 demo_volume 3 0 [1, 2, 3, 4] 4))"

definition demo3 :: "(u32 \<Rightarrow> nat option) nvm" where
  "demo3 = snd (projr (write_block fun_cuckoo demo2 demo_volume 4 0 [5, 6, 7, 8] 4))"

text \<open>Block numbers are dealt out without repetition.\<close>

lemma distinct_of_nat: "n \<le> 2 ^ 32 \<Longrightarrow> distinct (map (of_nat :: nat \<Rightarrow> u32) [0..<n])"
proof (simp add: distinct_map, rule inj_onI)
  fix i j assume n: "n \<le> 4294967296" and i: "i \<in> {0..<n}" and j: "j \<in> {0..<n}"
    and e: "(word_of_nat i :: u32) = word_of_nat j"
  from e have "unat (word_of_nat i :: u32) = unat (word_of_nat j :: u32)" by simp
  with n i j show "i = j" by (simp add: unat_of_nat_u32)
qed

lemma demo_boot: "boot_ok demo_blank"
proof -
  have "block_owners demo_blank = map of_nat [0..<130]"
  proof -
    have "[0..<130] = [0..<128] @ [128, 129 :: nat]" by (simp add: upt_rec)
    moreover have "[0..<2 :: nat] = [0, 1]" by (simp add: upt_rec)
    ultimately show ?thesis by (simp add: block_owners_def demo_blank_def comp_def)
  qed
  then have "block_inv demo_blank"
    using distinct_of_nat [of 130] by (auto simp: block_inv_def demo_blank_def unat_of_nat_u32)
  moreover have "\<not> unsaved demo_blank i" for i
    by (auto simp: unsaved_def st_def demo_blank_def)
  ultimately show ?thesis by (simp add: boot_ok_def tables_ok_def) (simp add: demo_blank_def)
qed

lemma demo0:
  "nvm_system_init (\<lambda>_. 0) demo_blank = Inr demo0" "nvm_inv fun_cuckoo (2 ^ 61) demo0" "inuse demo0 = {}"
  "abs_store demo0 = (\<lambda>x l. [0, 0, 0, 0])" "block_size demo0 = 4" "max_volume_entry demo0 = 2"
  "max_inode_entry demo0 = 128" "inode_free_count demo0 = 128" "open_fails (system demo0) = (\<lambda>_. False)"
  "\<not> io_error (system demo0)" "sync_option demo0"
proof -
  have fb: "file_block demo_blank = (\<lambda>x l. [0, 0, 0, 0])"
    by (intro ext) (simp add: file_block_def demo_blank_def fblock_def byte_at_def upt_rec)
  obtain s' where s': "nvm_system_init (\<lambda>_. 0) demo_blank = Inr s'" "nvm_inv fun_cuckoo (2 ^ 61) s'"
    "inuse s' = {}" "abs_store s' = file_block demo_blank" "block_size s' = block_size demo_blank"
    "max_volume_entry s' = max_volume_entry demo_blank" "max_inode_entry s' = max_inode_entry demo_blank"
    "inode_free_count s' = max_inode_entry demo_blank" "open_fails (system s') = open_fails (system demo_blank)"
    "io_error (system s') = io_error (system demo_blank)" "sync_option s' = sync_option demo_blank"
    using nvm_system_init_ok [OF demo_boot, of "2 ^ 61" "\<lambda>_. 0" fun_cuckoo] by auto
  then have d: "demo0 = s'" by (simp add: demo0_def)
  show "nvm_system_init (\<lambda>_. 0) demo_blank = Inr demo0" "nvm_inv fun_cuckoo (2 ^ 61) demo0" "inuse demo0 = {}"
    "abs_store demo0 = (\<lambda>x l. [0, 0, 0, 0])" "block_size demo0 = 4" "max_volume_entry demo0 = 2"
    "max_inode_entry demo0 = 128" "inode_free_count demo0 = 128" "open_fails (system demo0) = (\<lambda>_. False)"
    "\<not> io_error (system demo0)" "sync_option demo0"
    unfolding d using s' fb by (simp_all add: demo_blank_def)
qed

text \<open>Opening keeps the environment's choices; only the descriptor table and the directory grow.\<close>

lemma opening_environment:
  assumes "get_volume_entry_idx ck s vid = Inr (w, s')"
  shows "open_fails (system s') = open_fails (system s) \<and> io_error (system s') = io_error (system s) \<and>
    sync_option s' = sync_option s \<and> max_volume_entry s' = max_volume_entry s \<and>
    inode_clean_lfqueue s' = inode_clean_lfqueue s"
  using assms
  by (auto simp: get_volume_entry_idx_def alloc_volume_entry_idx_def rbind_Inr_iff sys_open_def Let_def split: option.splits if_splits)

lemma demo1:
  "get_volume_entry_idx fun_cuckoo demo0 7 = Inr (demo_volume, demo1)" "nvm_inv fun_cuckoo (2 ^ 60) demo1"
  "unat demo_volume \<in> inuse demo1" "vid_of demo1 (unat demo_volume) = 7" "abs_store demo1 = (\<lambda>x l. [0, 0, 0, 0])"
  "block_size demo1 = 4" "max_inode_entry demo1 = 128" "max_volume_entry demo1 = 2" "inode_free_count demo1 = 128"
  "open_fails (system demo1) = (\<lambda>_. False)" "\<not> io_error (system demo1)" "sync_option demo1"
  "key demo1 i = None"
proof -
  have "nvm_inv fun_cuckoo (Suc (2 ^ 60)) demo0"
    using demo0(2) queue_inv_less [of "2 ^ 61" demo0 "Suc (2 ^ 60)"] by (simp add: nvm_inv_def flush_inv_def)
  from get_volume_entry_idx_ok [OF this fun_cuckoo_laws, of 7] obtain w s' where
    s': "get_volume_entry_idx fun_cuckoo demo0 7 = Inr (w, s')" "nvm_inv fun_cuckoo (2 ^ 60) s'" "unat w \<in> inuse s'"
    "vid_of s' (unat w) = 7" "abs_store s' = abs_store demo0" "block_size s' = block_size demo0"
    "inode_free_count s' = inode_free_count demo0" "max_inode_entry s' = max_inode_entry demo0"
    "inode_table s' = inode_table demo0"
    using demo0(3,6,9) lessThan_empty_iff [of "2 :: nat"] by (auto simp: bot_nat_def)
  then have d: "demo_volume = w" "demo1 = s'" by (simp_all add: demo_volume_def demo1_def)
  note I = nvm_invD [OF demo0(2)]
  have "key demo0 i = None" using key_inuse [OF I(9), of i] demo0(3) by (cases "key demo0 i") auto
  moreover have "key s' i = key demo0 i" using s'(8,9) by (simp add: key_def st_def)
  ultimately have "key s' i = None" by simp
  then show "get_volume_entry_idx fun_cuckoo demo0 7 = Inr (demo_volume, demo1)" "nvm_inv fun_cuckoo (2 ^ 60) demo1"
    "unat demo_volume \<in> inuse demo1" "vid_of demo1 (unat demo_volume) = 7" "abs_store demo1 = (\<lambda>x l. [0, 0, 0, 0])"
    "block_size demo1 = 4" "max_inode_entry demo1 = 128" "max_volume_entry demo1 = 2" "inode_free_count demo1 = 128"
    "open_fails (system demo1) = (\<lambda>_. False)" "\<not> io_error (system demo1)" "sync_option demo1" "key demo1 i = None"
    unfolding d using s' opening_environment [OF s'(1)] demo0 by simp_all
qed

lemma demo1_lookup: "lookup fun_cuckoo demo1 (unat demo_volume) l = None"
proof (cases "find_volume (take (unat (max_volume_entry demo0)) (volume_table demo0)) 0 7")
  case None
  obtain fd os where so: "sys_open (system demo0) (get_filename 7) = (fd, os)" by fastforce
  from demo1(1) None obtain q iq where e: "demo0\<lparr>volume_free_lfqueue := q, volume_inuse_lfqueue := iq, system := os,
      volume_table := (volume_table demo0)[unat demo_volume := (volume_table demo0 ! unat demo_volume)
        \<lparr>ve_vid := 7, ve_fd := fd, ve_table := Some (new_hash_table fun_cuckoo)\<rparr>]\<rparr> = demo1"
    by (auto simp: get_volume_entry_idx_def alloc_volume_entry_idx_def rbind_Inr_iff at_index_Inr_iff Let_def so
        split: if_splits)
  have "volume_table demo1 = (volume_table demo0)[unat demo_volume := (volume_table demo0 ! unat demo_volume)
      \<lparr>ve_vid := 7, ve_fd := fd, ve_table := Some (new_hash_table fun_cuckoo)\<rparr>]"
    unfolding e [symmetric] by simp
  moreover have "unat demo_volume < length (volume_table demo1)"
    using inuse_less [OF demo1(3)] nvm_invD(1) [OF demo1(2)] by (simp add: shape_inv_def)
  ultimately show ?thesis
    by (simp add: lookup_def new_hash_table_def search_hash_node_def fun_cuckoo_def)
next
  case (Some w)
  with demo1(1) have "demo1 = demo0" by (simp add: get_volume_entry_idx_def)
  with demo1(3) demo0(3) show ?thesis by simp
qed

lemma demo2:
  "write_block fun_cuckoo demo1 demo_volume 3 0 [1, 2, 3, 4] 4 = Inr (4, demo2)" "nvm_inv fun_cuckoo (2 ^ 59) demo2"
  "unat demo_volume \<in> inuse demo2" "vid_of demo2 (unat demo_volume) = 7" "abs_store demo2 7 3 = [1, 2, 3, 4]"
  "max_inode_entry demo2 = 128" "max_volume_entry demo2 = 2" "block_size demo2 = 4"
  "\<not> io_error (system demo2)" "open_fails (system demo2) = (\<lambda>_. False)" "sync_option demo2"
  "contents (inode_dirty_lfqueue demo2 ! unat demo_volume) \<noteq> []"
  "\<exists>i. key demo2 = [i \<mapsto> (unat demo_volume, 3)] \<and> st demo2 i = DIRTY"
  "inode_clean_lfqueue demo2 = inode_clean_lfqueue demo1"
proof -
  let ?v = "unat demo_volume"
  have i1: "nvm_inv fun_cuckoo (Suc (2 ^ 59)) demo1"
    using demo1(2) queue_inv_less [of "2 ^ 60" demo1 "Suc (2 ^ 59)"] by (simp add: nvm_inv_def flush_inv_def)
  have "(3 :: u32) \<noteq> - 1" by simp
  from write_block_ok [OF i1 fun_cuckoo_laws this demo1(3) refl, of 4 "[1, 2, 3, 4]" 0] obtain s' where
    s': "write_block fun_cuckoo demo1 demo_volume 3 0 [1, 2, 3, 4] 4 = Inr (4, s')" "nvm_inv fun_cuckoo (2 ^ 59) s'"
    "write_frame demo1 s' ?v 3"
    "abs_store s' = (abs_store demo1)(vid_of demo1 ?v := (abs_store demo1 (vid_of demo1 ?v))(3 := new_data demo1 ?v [1, 2, 3, 4] 4))"
    using demo1 by (auto simp: isFreeLFQueueEnough_def DEFAULT_FREE_MIN_COUNT_def)
  then have d: "demo2 = s'" by (simp add: demo2_def)
  note I1 = nvm_invD [OF demo1(2)] and I = nvm_invD [OF s'(2)]
  have vV: "?v < nV demo1" using inuse_less [OF demo1(3)] .
  have "length (block_table demo1 ! unat (ve_block (volume_table demo1 ! ?v))) = 4"
    using owner_block(2) [OF I1(1,3) vV] I1(1) demo1(6) by (simp add: shape_inv_def)
  then have nd: "new_data demo1 ?v [1, 2, 3, 4] 4 = [1, 2, 3, 4]" by (simp add: new_data_def)
  obtain i where i: "key s' = (key demo1)(i \<mapsto> (?v, 3))" "st s' = (st demo1)(i := DIRTY)"
    using s'(3) unfolding write_frame_def by blast
  have "key demo1 = (\<lambda>_. None)" using demo1(13) by (intro ext)
  then have ki: "key s' = [i \<mapsto> (?v, 3)]" "st s' i = DIRTY" using i by simp_all
  then have "key s' i = Some (?v, 3)" by simp
  from key_Some [OF this] have "i \<in> set (idxs (inode_dirty_lfqueue s' ! ?v))"
    using I(5) ki(2) vV s'(3) by (simp add: dirty_inv_def write_frame_def)
  then have ne: "contents (inode_dirty_lfqueue s' ! ?v) \<noteq> []" by (auto simp: idxs_def)
  note fr = s'(3) [unfolded write_frame_def]
  show "write_block fun_cuckoo demo1 demo_volume 3 0 [1, 2, 3, 4] 4 = Inr (4, demo2)" "nvm_inv fun_cuckoo (2 ^ 59) demo2"
    "contents (inode_dirty_lfqueue demo2 ! ?v) \<noteq> []" "\<exists>i. key demo2 = [i \<mapsto> (?v, 3)] \<and> st demo2 i = DIRTY"
    unfolding d using s' ne ki by blast+
  show "abs_store demo2 7 3 = [1, 2, 3, 4]" unfolding d using s'(4) nd demo1(4) by simp
  show "unat demo_volume \<in> inuse demo2" "vid_of demo2 (unat demo_volume) = 7"
    "max_inode_entry demo2 = 128" "max_volume_entry demo2 = 2" "block_size demo2 = 4"
    "\<not> io_error (system demo2)" "open_fails (system demo2) = (\<lambda>_. False)" "sync_option demo2"
    "inode_clean_lfqueue demo2 = inode_clean_lfqueue demo1"
    unfolding d using fr demo1 by auto
qed

lemma demo2_free: "127 \<le> unat (inode_free_count demo2)"
proof -
  have "nvm_inv fun_cuckoo (Suc (2 ^ 59)) demo1"
    using demo1(2) queue_inv_less [of "2 ^ 60" demo1 "Suc (2 ^ 59)"] by (simp add: nvm_inv_def flush_inv_def)
  from write_block_ok [OF this fun_cuckoo_laws _ demo1(3) refl, of 3 4 "[1, 2, 3, 4]" 0] obtain s' where
    s': "write_block fun_cuckoo demo1 demo_volume 3 0 [1, 2, 3, 4] 4 = Inr (4, s')"
    "write_frame demo1 s' (unat demo_volume) 3"
    using demo1 by (auto simp: isFreeLFQueueEnough_def DEFAULT_FREE_MIN_COUNT_def)
  then have "s' = demo2" by (simp add: demo2_def)
  with s'(2) have "unat (inode_free_count demo1) \<le> Suc (unat (inode_free_count demo2))" by (simp add: write_frame_def)
  then show ?thesis by (simp add: demo1(9))
qed

lemma demo3:
  "write_block fun_cuckoo demo2 demo_volume 4 0 [5, 6, 7, 8] 4 = Inr (4, demo3)" "nvm_inv fun_cuckoo (2 ^ 58) demo3"
  "unat demo_volume \<in> inuse demo3" "vid_of demo3 (unat demo_volume) = 7"
  "abs_store demo3 7 3 = [1, 2, 3, 4]" "abs_store demo3 7 4 = [5, 6, 7, 8]"
  "max_inode_entry demo3 = 128" "max_volume_entry demo3 = 2" "block_size demo3 = 4"
  "\<not> io_error (system demo3)" "contents (inode_dirty_lfqueue demo3 ! unat demo_volume) \<noteq> []"
  "\<exists>i j. i \<noteq> j \<and> key demo3 = [i \<mapsto> (unat demo_volume, 3), j \<mapsto> (unat demo_volume, 4)] \<and>
     st demo3 i = DIRTY \<and> st demo3 j = DIRTY"
  "inode_clean_lfqueue demo3 = inode_clean_lfqueue demo2" "sync_option demo3"
proof -
  let ?v = "unat demo_volume"
  obtain i where i: "key demo2 = [i \<mapsto> (?v, 3)]" "st demo2 i = DIRTY" using demo2(13) by blast
  have miss: "key demo2 k \<noteq> Some (?v, 4)" for k using i(1) by simp
  have "isFreeLFQueueEnough demo2"
    using demo2_free by (simp add: isFreeLFQueueEnough_def DEFAULT_FREE_MIN_COUNT_def word_le_nat_alt)
  moreover have i1: "nvm_inv fun_cuckoo (Suc (2 ^ 58)) demo2"
    using demo2(2) queue_inv_less [of "2 ^ 59" demo2 "Suc (2 ^ 58)"] by (simp add: nvm_inv_def flush_inv_def)
  ultimately obtain s' where
    s': "write_block fun_cuckoo demo2 demo_volume 4 0 [5, 6, 7, 8] 4 = Inr (4, s')" "nvm_inv fun_cuckoo (2 ^ 58) s'"
    "write_frame demo2 s' ?v 4"
    "abs_store s' = (abs_store demo2)(vid_of demo2 ?v := (abs_store demo2 (vid_of demo2 ?v))(4 := new_data demo2 ?v [5, 6, 7, 8] 4))"
    using write_block_ok [OF i1 fun_cuckoo_laws _ demo2(3) refl, of 4 4 "[5, 6, 7, 8]" 0] miss demo2(8) by auto
  then have d: "demo3 = s'" by (simp add: demo3_def)
  note I2 = nvm_invD [OF demo2(2)] and I = nvm_invD [OF s'(2)]
  have vV: "?v < nV demo2" using inuse_less [OF demo2(3)] .
  have "length (block_table demo2 ! unat (ve_block (volume_table demo2 ! ?v))) = 4"
    using owner_block(2) [OF I2(1,3) vV] I2(1) demo2(8) by (simp add: shape_inv_def)
  then have nd: "new_data demo2 ?v [5, 6, 7, 8] 4 = [5, 6, 7, 8]" by (simp add: new_data_def)
  obtain j where j: "key demo2 j = None \<or> key demo2 j = Some (?v, 4)" "key s' = (key demo2)(j \<mapsto> (?v, 4))"
    "st s' = (st demo2)(j := DIRTY)"
    using s'(3) unfolding write_frame_def by blast
  have ij: "i \<noteq> j" using j(1) i(1) by auto
  then have k: "key s' = [i \<mapsto> (?v, 3), j \<mapsto> (?v, 4)]" "st s' i = DIRTY" "st s' j = DIRTY" using i j by simp_all
  note fr = s'(3) [unfolded write_frame_def]
  have "key s' j = Some (?v, 4)" using k by simp
  from key_Some [OF this] have "j \<in> set (idxs (inode_dirty_lfqueue s' ! ?v))"
    using I(5) k(3) vV fr by (simp add: dirty_inv_def)
  then have ne: "contents (inode_dirty_lfqueue s' ! ?v) \<noteq> []" by (auto simp: idxs_def)
  show "write_block fun_cuckoo demo2 demo_volume 4 0 [5, 6, 7, 8] 4 = Inr (4, demo3)" "nvm_inv fun_cuckoo (2 ^ 58) demo3"
    "contents (inode_dirty_lfqueue demo3 ! ?v) \<noteq> []"
    unfolding d using s' ne by blast+
  show "\<exists>i j. i \<noteq> j \<and> key demo3 = [i \<mapsto> (?v, 3), j \<mapsto> (?v, 4)] \<and> st demo3 i = DIRTY \<and> st demo3 j = DIRTY"
    unfolding d using ij k by blast
  show "abs_store demo3 7 3 = [1, 2, 3, 4]" "abs_store demo3 7 4 = [5, 6, 7, 8]" unfolding d using s'(4) nd demo2(4,5) by simp_all
  show "unat demo_volume \<in> inuse demo3" "vid_of demo3 (unat demo_volume) = 7"
    "max_inode_entry demo3 = 128" "max_volume_entry demo3 = 2" "block_size demo3 = 4" "\<not> io_error (system demo3)"
    "inode_clean_lfqueue demo3 = inode_clean_lfqueue demo2" "sync_option demo3"
    unfolding d using fr demo2 by auto
qed

section \<open>A flush and a sync of the example\<close>

text \<open>The clean queues have been empty so far.\<close>

lemma demo3_clean: "\<forall>q \<in> set (inode_clean_lfqueue demo3). contents q = []"
  using init_clean_queues [OF demo_boot demo0(1)] opening_environment [OF demo1(1)] demo2(14) demo3(13) by simp

text \<open>Both blocks wait in the dirty queue of the volume.\<close>

lemma demo3_dirty:
  "length (contents (inode_dirty_lfqueue demo3 ! unat demo_volume)) = 2"
  "x \<in> set (idxs (inode_dirty_lfqueue demo3 ! unat demo_volume)) \<Longrightarrow>
     st demo3 x = DIRTY \<and> (\<exists>l. (l = 3 \<or> l = 4) \<and> key demo3 x = Some (unat demo_volume, l))"
proof -
  let ?v = "unat demo_volume" and ?q = "idxs (inode_dirty_lfqueue demo3 ! unat demo_volume)"
  obtain i j where ij: "i \<noteq> j" "key demo3 = [i \<mapsto> (?v, 3), j \<mapsto> (?v, 4)]" "st demo3 i = DIRTY" "st demo3 j = DIRTY"
    using demo3(12) by blast
  note I = nvm_invD [OF demo3(2)]
  have q: "distinct ?q" "set ?q = {x. x < nI demo3 \<and> st demo3 x = DIRTY \<and> in_volume (inode_table demo3 ! x) = Some ?v}"
    using I(5) inuse_less [OF demo3(3)] by (simp_all add: dirty_inv_def)
  have "x \<in> set ?q \<longleftrightarrow> x = i \<or> x = j" for x
  proof
    assume "x \<in> set ?q"
    then have "key demo3 x = Some (?v, in_lbn (inode_table demo3 ! x))" using q(2) by (simp add: key_def)
    then show "x = i \<or> x = j" using ij(2) by (auto split: if_splits)
  next
    have "key demo3 i = Some (?v, 3)" "key demo3 j = Some (?v, 4)" using ij(1,2) by simp_all
    note this [THEN key_Some(1)] this [THEN key_Some(3)]
    moreover assume "x = i \<or> x = j"
    ultimately show "x \<in> set ?q" using q(2) ij(3,4) by auto
  qed
  then have s: "set ?q = {i, j}" by auto
  then have "length ?q = 2" using q(1) ij(1) distinct_card [of ?q] by simp
  then show "length (contents (inode_dirty_lfqueue demo3 ! ?v)) = 2" by (simp add: idxs_def)
  show "st demo3 x = DIRTY \<and> (\<exists>l. (l = 3 \<or> l = 4) \<and> key demo3 x = Some (?v, l))" if "x \<in> set ?q" for x
    using that s ij by auto
qed

definition demo4 :: "(u32 \<Rightarrow> nat option) nvm" where
  "demo4 = projr (nvm_flush demo3 (unat demo_volume))"

lemma demo4:
  "nvm_flush demo3 (unat demo_volume) = Inr demo4" "nvm_inv fun_cuckoo (2 ^ 57) demo4"
  "abs_store demo4 = abs_store demo3" "max_inode_entry demo4 = 128" "sync_option demo4"
  "vid_of demo4 (unat demo_volume) = 7" "\<forall>q \<in> set (inode_clean_lfqueue demo4). contents q = []"
  "\<exists>i l. (l = 3 \<or> l = 4) \<and> key demo4 i = Some (unat demo_volume, l) \<and> st demo4 i = SYNC"
  "key demo4 = key demo3"
proof -
  let ?v = "unat demo_volume"
  have i3: "nvm_inv fun_cuckoo (1024 + 2 ^ 57) demo3"
    by (rule nvm_inv_less [OF demo3(2)]) simp
  obtain s' where s': "nvm_flush demo3 ?v = Inr s'" "nvm_inv fun_cuckoo (2 ^ 57) s'" "abs_store s' = abs_store demo3"
    "flush_frame demo3 s'" "\<forall>x \<in> set (take (flush_size demo3 ?v) (idxs (inode_dirty_lfqueue demo3 ! ?v))). st s' x = SYNC"
    using nvm_flush_ok [OF i3 demo3(3,11,10)] by blast
  then have d: "demo4 = s'" by (simp add: demo4_def)
  note fr = s'(4) [unfolded flush_frame_def]
  show "nvm_flush demo3 ?v = Inr demo4" "nvm_inv fun_cuckoo (2 ^ 57) demo4" "abs_store demo4 = abs_store demo3"
    "max_inode_entry demo4 = 128" "sync_option demo4" "\<forall>q \<in> set (inode_clean_lfqueue demo4). contents q = []"
    "key demo4 = key demo3"
    using s' fr demo3(7,14) demo3_clean by (simp_all add: d)
  show "vid_of demo4 ?v = 7" using fr demo3(4) by (simp add: d vid_of_def)
  have "flush_size demo3 ?v = 1" by (simp add: flush_size_def demo3_dirty(1))
  then obtain x where "x \<in> set (take (flush_size demo3 ?v) (idxs (inode_dirty_lfqueue demo3 ! ?v)))"
    using demo3(11) by (cases "idxs (inode_dirty_lfqueue demo3 ! ?v)") (auto simp: idxs_def)
  then have "st s' x = SYNC" "x \<in> set (idxs (inode_dirty_lfqueue demo3 ! ?v))" using s'(5) in_set_takeD by fast+
  then show "\<exists>i l. (l = 3 \<or> l = 4) \<and> key demo4 i = Some (?v, l) \<and> st demo4 i = SYNC"
    using demo3_dirty(2) fr by (metis d)
qed

text \<open>The sync queue that holds the inode, and the state after its round.\<close>

definition demo_sync :: nat where
  "demo_sync = (if contents (inode_sync_lfqueue demo4 ! 0) = [] then 1 else 0)"

definition demo5 :: "(u32 \<Rightarrow> nat option) nvm" where
  "demo5 = projr (nvm_sync demo4 demo_sync)"

lemma demo_sync:
  "demo_sync < DEFAULT_NUM_SYNCER" "idxs (inode_sync_lfqueue demo4 ! demo_sync) \<noteq> []"
  "i \<in> set (idxs (inode_sync_lfqueue demo4 ! demo_sync)) \<Longrightarrow> st demo4 i = SYNC"
  "i \<in> set (idxs (inode_sync_lfqueue demo4 ! demo_sync)) \<Longrightarrow>
     key demo4 i = Some (unat demo_volume, 3) \<or> key demo4 i = Some (unat demo_volume, 4)"
  "clean_room demo4 (length (contents (inode_sync_lfqueue demo4 ! demo_sync)))"
proof -
  let ?q = "inode_sync_lfqueue demo4 ! demo_sync"
  note I = nvm_invD [OF demo4(2)]
  have k: "demo_sync = 0 \<or> demo_sync = 1" by (simp add: demo_sync_def)
  then show "demo_sync < DEFAULT_NUM_SYNCER" by (auto simp: DEFAULT_NUM_SYNCER_def)
  obtain j m where j: "key demo4 j = Some (unat demo_volume, m)" "st demo4 j = SYNC" using demo4(8) by blast
  then have "j \<in> set (idxs (inode_sync_lfqueue demo4 ! 0)) \<union> set (idxs (inode_sync_lfqueue demo4 ! 1))"
    using I(6) key_Some(1) [OF j(1)] by (auto simp: sync_inv_def)
  then show "idxs ?q \<noteq> []" by (auto simp: demo_sync_def idxs_def)
  show "st demo4 i = SYNC" if "i \<in> set (idxs ?q)" for i using sync_queue_state [OF I(6) k that] by simp
  show "key demo4 i = Some (unat demo_volume, 3) \<or> key demo4 i = Some (unat demo_volume, 4)" if "i \<in> set (idxs ?q)" for i
  proof -
    have "key demo4 i \<noteq> None"
      using sync_queue_state [OF I(6) k that] inode_inuse [OF demo4(2), of i] by auto
    then show ?thesis using demo3(12) demo4(9) by (auto split: if_splits)
  qed
  have "length (contents ?q) \<le> nI demo4"
    using lfq.waiting_room [of "2 ^ 57" ?q] queue_member(3) [OF I(2), of demo_sync] k I(1)
    by (auto simp: shape_inv_def DEFAULT_NUM_SYNCER_def)
  then show "clean_room demo4 (length (contents ?q))" using demo4(7) by (simp add: clean_room_def)
qed

lemma demo5:
  "nvm_sync demo4 demo_sync = Inr demo5" "nvm_inv fun_cuckoo (2 ^ 56) demo5" "nI demo5 = 128"
  "abs_store demo5 = abs_store demo3" "\<exists>i < 128. st demo5 i = CLEAN"
proof -
  have i4: "nvm_inv fun_cuckoo (nI demo4 + 2 ^ 56) demo4"
    by (rule nvm_inv_less [OF demo4(2)]) (simp add: demo4(4))
  obtain s' where s': "nvm_sync demo4 demo_sync = Inr s'" "nvm_inv fun_cuckoo (2 ^ 56) s'" "abs_store s' = abs_store demo4"
    "\<forall>i \<in> set (idxs (inode_sync_lfqueue demo4 ! demo_sync)). st s' i = CLEAN" "key s' = key demo4"
    "nI s' = nI demo4"
    using nvm_sync_ok [OF i4 demo4(5) demo_sync(1,5)] by blast
  then have d: "demo5 = s'" by (simp add: demo5_def)
  show "nvm_sync demo4 demo_sync = Inr demo5" "nvm_inv fun_cuckoo (2 ^ 56) demo5" "nI demo5 = 128"
    "abs_store demo5 = abs_store demo3" using s' demo4(3,4) by (simp_all add: d)
  obtain i where i: "i \<in> set (idxs (inode_sync_lfqueue demo4 ! demo_sync))" using demo_sync(2) by fastforce
  then have "i < 128" using demo_sync(4) key_Some(1) demo4(4) by fastforce
  with i s'(4) show "\<exists>i < 128. st demo5 i = CLEAN" by (auto simp: d)
qed

end
