(* ===== verification/NVM_Balloon.thy ===== *)
theory NVM_Balloon
  imports NVM_State
begin

text \<open>
  The balloon threads (\<^verbatim>\<open>src/nvm0balloon.cc\<close>): clean inodes are detached from their hash nodes and
  given back to the free queues. An entry of a clean queue may be stale: its inode may have been
  written again since, and is then skipped.
\<close>

text \<open>\<open>try_lock_hash_node\<close>: whether the node is now locked and its inode is still clean.\<close>

definition try_lock_hash_node :: "'m nvm \<Rightarrow> nat option \<Rightarrow> (bool \<times> 'm nvm) res" where
  "try_lock_hash_node s node =
     rbind (deref (nodes s) node) (\<lambda>nd.
     if hn_mutex nd then Inr (False, s)
     else rbind (lock_node s (the node)) (\<lambda>s1.
       rbind (deref_idx (inode_table s1) (hn_inode nd)) (\<lambda>inode.
       if in_state inode \<noteq> CLEAN then
         rbind (unlock_node s1 (the node)) (\<lambda>s2. Inr (False, s2))
       else Inr (True, s1))))"

text \<open>One round of the loop in \<open>fill_free_inodes\<close>: what is done with the inode taken, and the round.\<close>

definition free_clean_inode :: "'m cuckoo \<Rightarrow> 'm nvm \<Rightarrow> u32 \<Rightarrow> 'm nvm res" where
  "free_clean_inode ck s idx =
     rbind (at_index (inode_table s) (unat idx)) (\<lambda>inode.
     if in_state inode \<noteq> CLEAN then Inr s
     else
       rbind (deref_idx (volume_table s) (in_volume inode)) (\<lambda>ve.
       case ve_table ve of None \<Rightarrow> Inl NullDeref
       | Some table \<Rightarrow>
         let hash_node = search_hash_node ck table (in_lbn inode) in
         rbind (try_lock_hash_node s hash_node) (\<lambda>(locked, s2).
         if \<not> locked then Inr s2
         else
           rbind (logical_delete_hash_node (nodes s2) table hash_node) (\<lambda>(h, table').
           rbind (set_inode_state (s2\<lparr>nodes := h, volume_table :=
               (volume_table s2)[the (in_volume inode) := ve\<lparr>ve_table := Some table'\<rparr>]\<rparr>)
             (unat idx) FREE) (\<lambda>s3.
           let e = free_enqueue_idx s3 in
           rbind (enq_at (inode_free_lfqueue s3) (rr e DEFAULT_NUM_FREE) idx) (\<lambda>qs.
           rbind (unlock_node (s3\<lparr>inode_free_count := inode_free_count s3 + 1,
               free_enqueue_idx := e + 1, inode_free_lfqueue := qs\<rparr>) (the hash_node)) (\<lambda>s4.
             Inr (s4\<lparr>mon := (mon s4)\<lparr>mon_free := mon_free (mon s4) + 1\<rparr>\<rparr>))))))))"

definition fill_round :: "'m cuckoo \<Rightarrow> 'm nvm \<Rightarrow> nat \<Rightarrow> 'm nvm res" where
  "fill_round ck s index =
     rbind (deq_at (inode_clean_lfqueue s) index) (\<lambda>(idx, cs).
       free_clean_inode ck (s\<lparr>inode_clean_lfqueue := cs\<rparr>) idx)"

text \<open>The loop drains the queue; each round takes one entry, so it ends.\<close>

lemma set_inode_state_clean: "set_inode_state s i st = Inr s' \<Longrightarrow> inode_clean_lfqueue s' = inode_clean_lfqueue s"
  by (auto simp: set_inode_state_def rbind_Inr_iff)

lemma unlock_node_clean: "unlock_node s a = Inr s' \<Longrightarrow> inode_clean_lfqueue s' = inode_clean_lfqueue s"
  by (auto simp: unlock_node_def rbind_Inr_iff)

lemma try_lock_clean:
  "try_lock_hash_node s nd = Inr (b, s') \<Longrightarrow> inode_clean_lfqueue s' = inode_clean_lfqueue s"
  by (auto simp: try_lock_hash_node_def lock_node_def rbind_Inr_iff split: if_splits
      dest!: unlock_node_clean)

lemma free_clean_inode_clean:
  assumes "free_clean_inode ck s idx = Inr s'"
  shows "inode_clean_lfqueue s' = inode_clean_lfqueue s"
proof (cases "unat idx < length (inode_table s) \<and> in_state (inode_table s ! unat idx) = CLEAN")
  case False
  with assms show ?thesis by (auto simp: free_clean_inode_def rbind_Inr_iff at_index_Inr_iff)
next
  case True
  with assms obtain ve table b s2 where step: "try_lock_hash_node s
      (search_hash_node ck table (in_lbn (inode_table s ! unat idx))) = Inr (b, s2)"
    "\<not> b \<longrightarrow> s' = s2"
    "b \<longrightarrow> (\<exists>h t' s3 qs s4. set_inode_state (s2\<lparr>nodes := h, volume_table := t'\<rparr>) (unat idx) FREE = Inr s3 \<and>
      unlock_node (s3\<lparr>inode_free_count := inode_free_count s3 + 1,
               free_enqueue_idx := free_enqueue_idx s3 + 1, inode_free_lfqueue := qs\<rparr>)
        (the (search_hash_node ck table (in_lbn (inode_table s ! unat idx)))) = Inr s4 \<and>
      s' = s4\<lparr>mon := (mon s4)\<lparr>mon_free := mon_free (mon s4) + 1\<rparr>\<rparr>)"
    unfolding free_clean_inode_def
    by (clarsimp simp: rbind_Inr_iff Let_def split: option.splits if_splits) blast+
  show ?thesis
  proof (cases b)
    case False
    with step show ?thesis by (auto dest: try_lock_clean)
  next
    case b: True
    with step(3) show ?thesis
      using try_lock_clean [OF step(1)] by (auto dest!: unlock_node_clean set_inode_state_clean)
  qed
qed

lemma fill_round_clean:
  assumes "fill_round ck s index = Inr s'"
  shows "\<exists>idx. deq_at (inode_clean_lfqueue s) index = Inr (idx, inode_clean_lfqueue s')"
  using assms by (auto simp: fill_round_def rbind_Inr_iff dest!: free_clean_inode_clean)

function fill_free_inodes :: "'m cuckoo \<Rightarrow> 'm nvm \<Rightarrow> nat \<Rightarrow> 'm nvm res" where
  "fill_free_inodes ck s index =
     rbind (at_index (inode_clean_lfqueue s) index) (\<lambda>q.
       if is_empty q then Inr s
       else rbind (fill_round ck s index) (\<lambda>s'. fill_free_inodes ck s' index))"
  by pat_completeness auto
termination
proof (relation "measure (\<lambda>(ck, s, index). let q = inode_clean_lfqueue s ! index in
    unat (p_count q) - unat (c_count q))", goal_cases)
  case 1
  show ?case by simp
next
  case (2 ck s index q s')
  then obtain idx where "deq_at (inode_clean_lfqueue s) index = Inr (idx, inode_clean_lfqueue s')"
    using fill_round_clean by blast
  then obtain q' where q: "index < length (inode_clean_lfqueue s)"
    "dequeue (inode_clean_lfqueue s ! index) = Inr (idx, q')"
    "inode_clean_lfqueue s' = (inode_clean_lfqueue s)[index := q']"
    by (auto simp: deq_at_def rbind_Inr_iff at_index_Inr_iff)
  with 2 show ?case using dequeue_progress [OF q(2)] by (simp add: at_index_Inr_iff)
qed

declare fill_free_inodes.simps [simp del]

definition nvm_balloon :: "'m cuckoo \<Rightarrow> 'm nvm \<Rightarrow> nat \<Rightarrow> 'm nvm res" where
  "nvm_balloon ck s index = (if sys_terminate s then Inr s else fill_free_inodes ck s index)"

end
