(* ===== verification/NVM_Balloon_Inv.thy ===== *)
theory NVM_Balloon_Inv
  imports NVM_Balloon NVM_Inv
begin

text \<open>
  Freeing clean inodes keeps the invariant and the abstract store: the block a clean inode caches
  is on the device, so forgetting the inode loses nothing; an entry whose inode is no longer
  clean is dropped.
\<close>

section \<open>An entry taken from a clean queue\<close>

lemma drop_entry_inv:
  assumes inv: "nvm_inv ck m s" and c: "c < length (inode_clean_lfqueue s)"
    and q: "idxs (inode_clean_lfqueue s ! c) = i # idxs cq" "lfq_ok m cq" "capacity cq = max_inode_entry s"
    and st: "st s i \<noteq> CLEAN"
  shows "nvm_inv ck m (s\<lparr>inode_clean_lfqueue := (inode_clean_lfqueue s)[c := cq]\<rparr>)"
    "abs_store (s\<lparr>inode_clean_lfqueue := (inode_clean_lfqueue s)[c := cq]\<rparr>) = abs_store s"
proof -
  note I = nvm_invD [OF inv]
  let ?s = "s\<lparr>inode_clean_lfqueue := (inode_clean_lfqueue s)[c := cq]\<rparr>"
  have fn: "st ?s = st s" "key ?s = key s" "data_of ?s = data_of s" "vid_of ?s = vid_of s" "inuse ?s = inuse s"
    "file_block ?s = file_block s" "disk_block ?s = disk_block s" "lookup ck ?s = lookup ck s"
    by (simp_all add: fun_eq_iff state_funs)
  have "clean_inv ?s"
    by (rule clean_inv_update [OF I(7) _ c]) (use q(1) st in \<open>auto simp: fn\<close>)
  then show "nvm_inv ck m ?s" using I q(2,3) queues_ok_update
    by (simp add: nvm_inv_def flush_inv_def held_Nil shape_inv_def queue_inv_def block_inv_def block_owners_def
      free_inv_def dirty_inv_def sync_inv_def volume_inv_def volq_inv_def hash_inv_def disk_inv_def cached_def fn)
  show "abs_store ?s = abs_store s" by (rule abs_cong) (simp_all add: fn)
qed

section \<open>A clean inode given back\<close>

text \<open>
  The state afterwards: \<open>h\<close> and \<open>t'\<close> are the node heap and the hash table after the logical
  deletion, \<open>cq\<close> and \<open>fq\<close> the queues the inode left and joined.
\<close>

definition freed :: "'m nvm \<Rightarrow> nat \<Rightarrow> u32 lfqueue \<Rightarrow> nat \<Rightarrow> nat \<Rightarrow> node_heap \<Rightarrow> 'm hash_table \<Rightarrow> u32 lfqueue \<Rightarrow> 'm nvm" where
  "freed s c cq v i h t' fq = s\<lparr>inode_clean_lfqueue := (inode_clean_lfqueue s)[c := cq],
     nodes := h, volume_table := (volume_table s)[v := (volume_table s ! v)\<lparr>ve_table := Some t'\<rparr>],
     inode_table := (inode_table s)[i := (inode_table s ! i)\<lparr>in_state := FREE\<rparr>],
     inode_free_count := inode_free_count s + 1, free_enqueue_idx := free_enqueue_idx s + 1,
     inode_free_lfqueue := (inode_free_lfqueue s)[rr (free_enqueue_idx s) DEFAULT_NUM_FREE := fq],
     mon := (mon s)\<lparr>mon_free := mon_free (mon s) + 1\<rparr>\<rparr>"

lemma freed_fields:
  "in_lbn (inode_table (freed s c cq v i h t' fq) ! j) = in_lbn (inode_table s ! j)"
  "in_volume (inode_table (freed s c cq v i h t' fq) ! j) = in_volume (inode_table s ! j)"
  "in_block (inode_table (freed s c cq v i h t' fq) ! j) = in_block (inode_table s ! j)"
  "in_lock (inode_table (freed s c cq v i h t' fq) ! j) = in_lock (inode_table s ! j)"
  "length (inode_table (freed s c cq v i h t' fq)) = length (inode_table s)"
  "ve_vid (volume_table (freed s c cq v i h t' fq) ! u) = ve_vid (volume_table s ! u)"
  "ve_fd (volume_table (freed s c cq v i h t' fq) ! u) = ve_fd (volume_table s ! u)"
  "ve_block (volume_table (freed s c cq v i h t' fq) ! u) = ve_block (volume_table s ! u)"
  by ((cases "i < length (inode_table s)"; cases "j = i"; simp add: freed_def list_update_beyond),
      (cases "i < length (inode_table s)"; cases "j = i"; simp add: freed_def list_update_beyond),
      (cases "i < length (inode_table s)"; cases "j = i"; simp add: freed_def list_update_beyond),
      (cases "i < length (inode_table s)"; cases "j = i"; simp add: freed_def list_update_beyond),
      (simp add: freed_def),
      (cases "v < length (volume_table s)"; cases "u = v"; simp add: freed_def list_update_beyond)+)

lemma freed_fun:
  assumes "key s i = Some (v, l)" "i < length (inode_table s)"
  shows "st (freed s c cq v i h t' fq) = (st s)(i := FREE)" "key (freed s c cq v i h t' fq) = (key s)(i := None)"
  "data_of (freed s c cq v i h t' fq) = data_of s"
  "vid_of (freed s c cq v i h t' fq) = vid_of s" "inuse (freed s c cq v i h t' fq) = inuse s"
  "file_block (freed s c cq v i h t' fq) = file_block s" "disk_block (freed s c cq v i h t' fq) = disk_block s"
  "block_owners (freed s c cq v i h t' fq) = block_owners s"
proof -
  let ?s = "freed s c cq v i h t' fq"
  show st: "st ?s = (st s)(i := FREE)" using assms by (auto simp: st_def fun_eq_iff freed_def nth_list_update)
  have f: "max_inode_entry ?s = max_inode_entry s" "max_volume_entry ?s = max_volume_entry s"
    "block_size ?s = block_size s" "length (volume_table ?s) = length (volume_table s)"
    "block_table ?s = block_table s" "system ?s = system s"
    by (simp_all add: freed_def)
  show "key ?s = (key s)(i := None)" by (auto simp: key_def st f freed_fields fun_eq_iff)
  show "data_of ?s = data_of s" by (simp add: data_of_def freed_fields f fun_eq_iff)
  show vid: "vid_of ?s = vid_of s" by (simp add: vid_of_def freed_fields fun_eq_iff)
  show "inuse ?s = inuse s" by (simp add: inuse_def f vid)
  show "file_block ?s = file_block s" "disk_block ?s = disk_block s"
    by (simp_all add: file_block_def disk_block_def f fun_eq_iff)
  have "map in_block (inode_table ?s) = map in_block (inode_table s)"
    by (rule nth_equalityI) (simp_all add: freed_fields)
  moreover have "map ve_block (volume_table ?s) = map ve_block (volume_table s)"
    by (rule nth_equalityI) (simp_all add: freed_fields f)
  ultimately show "block_owners ?s = block_owners s" by (simp add: block_owners_def)
qed

lemma free_room:
  assumes "free_inv s" "i < nI s" "st s i \<noteq> FREE" "k = 0 \<or> k = 1"
  shows "length (contents (inode_free_lfqueue s ! k)) < nI s"
proof -
  have "length (idxs (inode_free_lfqueue s ! k)) < nI s"
    using assms by (intro distinct_bounded_length [of _ _ i]) (auto simp: free_inv_def Let_def)
  then show ?thesis by (simp add: idxs_def)
qed

lemma freed_free:
  assumes f: "free_inv s" and sh: "shape_inv s" and i: "i < nI s" "st s i \<noteq> FREE" "key s i = Some (v, l)"
    and q: "idxs fq = idxs (inode_free_lfqueue s ! rr (free_enqueue_idx s) DEFAULT_NUM_FREE) @ [i]"
  shows "free_inv (freed s c cq v i h t' fq)"
proof -
  let ?s = "freed s c cq v i h t' fq" and ?k = "rr (free_enqueue_idx s) DEFAULT_NUM_FREE"
  have len: "length (inode_table s) = nI s" "length (inode_free_lfqueue s) = 2"
    using sh by (simp_all add: shape_inv_def DEFAULT_NUM_FREE_def)
  have il: "i < length (inode_table s)" using i len by simp
  note F = freed_fun [OF i(3) il, where c = c and cq = cq and h = h and t' = t' and fq = fq]
  have g: "max_inode_entry ?s = max_inode_entry s" "inode_free_count ?s = inode_free_count s + 1"
    "free_enqueue_idx ?s = free_enqueue_idx s + 1" "free_dequeue_idx ?s = free_dequeue_idx s"
    "inode_free_lfqueue ?s = (inode_free_lfqueue s)[?k := fq]" by (simp_all add: freed_def)
  have set': "{j. j < nI s \<and> st ?s j = FREE} = insert i {j. j < nI s \<and> st s j = FREE}"
    using F(1) i(1) by auto
  let ?q0 = "idxs (inode_free_lfqueue s ! 0)" and ?q1 = "idxs (inode_free_lfqueue s ! 1)"
  have S: "distinct (?q0 @ ?q1)" "set (?q0 @ ?q1) = {j. j < nI s \<and> st s j = FREE}"
    "unat (inode_free_count s) = length ?q0 + length ?q1"
    "int (length ?q0) - int (length ?q1) =
        int (nI s mod 2) + int (unat (free_enqueue_idx s) mod 2) - int (unat (free_dequeue_idx s) mod 2)"
    using f by (simp_all add: free_inv_def Let_def)
  have "set (?q0 @ ?q1) \<subseteq> {..<nI s}" using S(2) by auto
  then have "card (set (?q0 @ ?q1)) \<le> nI s" by (metis card_mono finite_lessThan card_lessThan)
  then have "length (?q0 @ ?q1) \<le> nI s" using S(1) by (metis distinct_card)
  then have "unat (inode_free_count s) + 1 < 2 ^ LENGTH(32)" using S(3) sh by (simp add: shape_inv_def)
  then have cnt: "unat (inode_free_count s + 1) = Suc (unat (inode_free_count s))" by (rule unat_Suc_no_wrap)
  have "i \<notin> set (?q0 @ ?q1)" using S(2) i(2) by simp
  then have ni: "i \<notin> set ?q0" "i \<notin> set ?q1" by auto
  have eq: "unat (free_enqueue_idx s + 1) mod 2 = 1 - unat (free_enqueue_idx s) mod 2"
  proof -
    have "unat (free_enqueue_idx s + 1) mod 2 = (unat (free_enqueue_idx s) + 1) mod 2"
      by (simp add: unat_word_ariths mod_mod_cancel)
    then show ?thesis by (simp add: mod2_eq_if split: if_splits)
  qed
  show ?thesis
  proof (cases "?k = 0")
    case True
    then have z: "unat (free_enqueue_idx s) mod 2 = 0" by (simp add: rr_2)
    show ?thesis using S set' cnt eq z ni q len(2) True
      by (auto simp: free_inv_def Let_def g)
  next
    case False
    then have z: "unat (free_enqueue_idx s) mod 2 = 1" "?k = 1" by (auto simp: rr_2)
    show ?thesis using S set' cnt eq z ni q len(2)
      by (auto simp: free_inv_def Let_def g)
  qed
qed


lemma freed_inv:
  assumes inv: "nvm_inv ck (Suc m) s" and i: "key s i = Some (v, l)" "st s i = CLEAN"
    and c: "c < length (inode_clean_lfqueue s)"
    and cq: "idxs (inode_clean_lfqueue s ! c) = i # idxs cq" "lfq_ok m cq" "capacity cq = max_inode_entry s"
    and fq: "idxs fq = idxs (inode_free_lfqueue s ! rr (free_enqueue_idx s) DEFAULT_NUM_FREE) @ [i]"
      "lfq_ok m fq" "capacity fq = max_inode_entry s"
    and t: "ve_table (volume_table s ! v) = Some t" "ht_map t' = ht_map t" "tail_ok h t'"
    and a: "lookup ck s v l = Some a" "view h = (view (nodes s))(a \<mapsto> (None, l, False, False))"
  shows "nvm_inv ck m (freed s c cq v i h t' fq)" "abs_store (freed s c cq v i h t' fq) = abs_store s"
proof -
  note I = nvm_invD [OF inv]
  let ?s = "freed s c cq v i h t' fq"
  have iI: "i < nI s" using key_Some(1) [OF i(1)] .
  have v: "v \<in> inuse s" using key_inuse [OF I(9) i(1)] .
  have vV: "v < nV s" using inuse_less [OF v] .
  have len: "length (inode_table s) = nI s" "length (volume_table s) = nV s" using I(1) by (simp_all add: shape_inv_def)
  have il: "i < length (inode_table s)" using iI len by simp
  note F = freed_fun [OF i(1) il, where c = c and cq = cq and h = h and t' = t' and fq = fq]
  have f: "max_inode_entry ?s = max_inode_entry s" "max_volume_entry ?s = max_volume_entry s"
    "block_size ?s = block_size s" "block_table ?s = block_table s" "system ?s = system s" "nodes ?s = h"
    "next_node ?s = next_node s"
    "inode_dirty_lfqueue ?s = inode_dirty_lfqueue s" "inode_dirty_count ?s = inode_dirty_count s"
    "inode_sync_lfqueue ?s = inode_sync_lfqueue s"
    "inode_clean_lfqueue ?s = (inode_clean_lfqueue s)[c := cq]"
    "volume_inuse_lfqueue ?s = volume_inuse_lfqueue s" "volume_free_lfqueue ?s = volume_free_lfqueue s"
    by (simp_all add: freed_def)
  have tb: "ve_table (volume_table ?s ! u) = (if u = v then Some t' else ve_table (volume_table s ! u))" for u
    using vV len by (simp add: freed_def)
  have lk: "lookup ck ?s = lookup ck s"
    using t by (auto simp: lookup_def fun_eq_iff f tb search_hash_node_def)
  have q': "queue_inv m s" using queue_inv_less [OF I(2)] by simp
  have shape: "shape_inv ?s" using I(1) by (simp add: shape_inv_def freed_def)
  have queue: "queue_inv m ?s" using q' queues_ok_update cq(2,3) fq(2,3) by (simp add: queue_inv_def freed_def)
  have block: "block_inv ?s" using I(3) by (simp add: block_inv_def F f)
  have free: "free_inv ?s" using freed_free [OF I(4,1) iI _ i(1) fq(1)] i(2) by simp
  have "{j. j < nI s \<and> st ?s j = DIRTY} = {j. j < nI s \<and> st s j = DIRTY}"
    "{j. j < nI s \<and> st ?s j = DIRTY \<and> in_volume (inode_table s ! j) = Some v} =
     {j. j < nI s \<and> st s j = DIRTY \<and> in_volume (inode_table s ! j) = Some v}" for v using i(2) F(1) by auto
  then have dirty: "dirty_inv ?s" using I(5) unfolding dirty_inv_def f freed_fields by simp
  have "{j. j < nI s \<and> st ?s j = SYNC} = {j. j < nI s \<and> st s j = SYNC}" using i(2) F(1) by auto
  then have sync: "sync_inv ?s" using I(6) F(1) i(2) unfolding sync_inv_def f freed_fields by auto
  have clean: "clean_inv ?s"
    by (rule clean_inv_update [OF I(7) f(11) c]) (use cq(1) i(2) F(1) in \<open>auto simp: f split: if_splits\<close>)
  have vol: "volume_inv ?s"
    using I(8) v by (auto simp: volume_inv_def F f freed_fields tb)
  have volq: "volq_inv ?s" using I(11) by (simp add: volq_inv_def F f)
  have core: "hash_core (lookup ck s) (view (nodes s)) (key s)" using I(9) by (simp add: hash_inv_def)
  have hd: "b \<noteq> a \<Longrightarrow> h b = None \<longleftrightarrow> nodes s b = None" "h a \<noteq> None" for b
    using fun_cong [OF a(2), of b] fun_cong [OF a(2), of a] by (auto simp: view_def)
  have na: "nodes s a \<noteq> None" using core_cases [OF core a(1)] by (auto simp: view_def)
  have hash: "hash_inv ck ?s"
    unfolding hash_inv_def lk f F(2,5) a(2)
  proof (intro conjI allI impI)
    show "hash_core (lookup ck s) ((view (nodes s))(a \<mapsto> (None, l, False, False))) ((key s)(i := None))"
      by (rule core_delete [OF core a(1) i(1)])
    show "\<exists>u \<in> inuse s. in_volume (inode_table ?s ! j) = Some u" if "j < nI s" "st ?s j \<noteq> FREE" for j
      using I(9) that F(1) unfolding freed_fields by (auto simp: hash_inv_def split: if_splits)
    show "h b = None" if "next_node s \<le> b" for b
      using I(9) that hd(1) na by (cases "b = a") (auto simp: hash_inv_def)
    show "tail_ok h u'" if "u < nV s" "ve_table (volume_table ?s ! u) = Some u'" for u u'
    proof (cases "u = v")
      case True
      with that(2) t(3) show ?thesis by (simp add: tb)
    next
      case False
      then have "tail_ok (nodes s) u'" using I(9) that by (auto simp: hash_inv_def tb)
      then show ?thesis using hd by (metis tail_ok_def)
    qed
  qed
  have dk: "disk_inv ?s" and ab: "abs_store ?s = abs_store s"
    using uncache [OF I(9) hash I(8) vol I(10) i F(2) _ F(4,3,6,7)] F(1) by simp_all
  show "nvm_inv ck m ?s" using shape queue block free dirty vol volq hash dk sync clean
    by (simp add: nvm_inv_def flush_inv_def held_Nil)
  show "abs_store ?s = abs_store s" by (rule ab)
qed

section \<open>A round\<close>

text \<open>The node of the inode's block is locked, deleted logically and unlocked.\<close>

lemma node_deleted:
  assumes hash: "hash_inv ck s" and k: "key s i = Some (v, l)" and v: "v < nV s" and t: "ve_table (volume_table s ! v) = Some t"
  obtains a nd h t' n2 where
    "lookup ck s v l = Some a" "search_hash_node ck t l = Some a"
    "nodes s a = Some nd" "hn_inode nd = Some i" "hn_lbn nd = l" "\<not> hn_mutex nd"
    "logical_delete_hash_node ((nodes s)(a \<mapsto> nd\<lparr>hn_mutex := True\<rparr>)) t (Some a) = Inr (h, t')" "ht_map t' = ht_map t"
    "h a = Some n2" "view (h(a \<mapsto> n2\<lparr>hn_mutex := False\<rparr>)) = (view (nodes s))(a \<mapsto> (None, l, False, False))"
    "tail_ok (h(a \<mapsto> n2\<lparr>hn_mutex := False\<rparr>)) t'"
proof -
  have core: "hash_core (lookup ck s) (view (nodes s)) (key s)" using hash by (simp add: hash_inv_def)
  obtain a where a: "lookup ck s v l = Some a" "view (nodes s) a = Some (Some i, l, True, False)"
    using core_key [OF core k] by blast
  from view_nodes [OF a(2)] obtain nd where nd: "nodes s a = Some nd" "hn_inode nd = Some i" "hn_lbn nd = l"
    "\<not> hn_mutex nd" by auto
  have sn: "search_hash_node ck t l = Some a" using a(1) v t by (simp add: lookup_def)
  let ?h1 = "(nodes s)(a \<mapsto> nd\<lparr>hn_mutex := True\<rparr>)"
  have tk: "tail_ok ?h1 t" using hash v t by (auto simp: hash_inv_def tail_ok_def)
  obtain h t' where ld: "logical_delete_hash_node ?h1 t (Some a) = Inr (h, t')" "ht_map t' = ht_map t"
    "view h = (view ?h1)(a \<mapsto> (None, l, False, True))" "tail_ok h t'"
    using logical_delete_view [of ?h1 a "nd\<lparr>hn_mutex := True\<rparr>" t] tk nd(3) by auto
  have "view h a = Some (None, l, False, True)" using ld(3) by simp
  then obtain n2 where n2: "h a = Some n2" "node_view n2 = (None, l, False, True)" by (auto simp: view_def)
  let ?h = "h(a \<mapsto> n2\<lparr>hn_mutex := False\<rparr>)"
  have "view ?h = (view (nodes s))(a \<mapsto> (None, l, False, False))"
    using n2(2) ld(3) by (auto simp: view_upd node_view_def)
  moreover have "tail_ok ?h t'" using ld(4) by (auto simp: tail_ok_def)
  ultimately show thesis using that a(1) sn nd ld(1,2) n2(1) by blast
qed

text \<open>There is room for the inode in the next free queue.\<close>

lemma free_enqueued:
  assumes inv: "nvm_inv ck (Suc m) s" and i: "unat x < nI s" "st s (unat x) \<noteq> FREE"
  obtains q where "enq_at (inode_free_lfqueue s) (rr (free_enqueue_idx s) DEFAULT_NUM_FREE) x =
      Inr ((inode_free_lfqueue s)[rr (free_enqueue_idx s) DEFAULT_NUM_FREE := q])"
    "idxs q = idxs (inode_free_lfqueue s ! rr (free_enqueue_idx s) DEFAULT_NUM_FREE) @ [unat x]"
    "lfq_ok m q" "capacity q = max_inode_entry s"
proof -
  note I = nvm_invD [OF inv]
  let ?k = "rr (free_enqueue_idx s) DEFAULT_NUM_FREE"
  have "length (inode_free_lfqueue s) = 2" using I(1) by (simp add: shape_inv_def DEFAULT_NUM_FREE_def)
  then have fk: "?k = 0 \<or> ?k = 1" "?k < length (inode_free_lfqueue s)" by (auto simp: rr_2)
  note Q = queue_member(1) [OF I(2) fk(2)]
  obtain q where "enq_at (inode_free_lfqueue s) ?k x = Inr ((inode_free_lfqueue s)[?k := q])"
    "contents q = contents (inode_free_lfqueue s ! ?k) @ [x]" "lfq_ok m q" "capacity q = capacity (inode_free_lfqueue s ! ?k)"
    using enq_at_ok [OF fk(2), of m x] free_room [OF I(4) i fk(1)] Q by auto
  then show thesis using that Q by (simp add: idxs_def)
qed

lemma fill_round_ok:
  assumes inv: "nvm_inv ck (Suc m) s" and k: "k < DEFAULT_NUM_BALLOON"
    and ne: "contents (inode_clean_lfqueue s ! k) \<noteq> []"
  shows "\<exists>s'. fill_round ck s k = Inr s' \<and> nvm_inv ck m s' \<and> abs_store s' = abs_store s \<and>
    contents (inode_clean_lfqueue s' ! k) = tl (contents (inode_clean_lfqueue s ! k)) \<and>
    st s' = (\<lambda>i. if i = hd (idxs (inode_clean_lfqueue s ! k)) \<and> st s i = CLEAN then FREE else st s i) \<and>
    inuse s' = inuse s \<and> vid_of s' = vid_of s \<and> sync_frame s s'"
proof -
  note I = nvm_invD [OF inv]
  let ?q = "inode_clean_lfqueue s ! k"
  have len: "length (inode_table s) = nI s" "length (volume_table s) = nV s" "length (inode_clean_lfqueue s) = 8"
    "length (inode_free_lfqueue s) = 2"
    using I(1) by (simp_all add: shape_inv_def DEFAULT_NUM_BALLOON_def DEFAULT_NUM_FREE_def)
  have kl: "k < length (inode_clean_lfqueue s)" using k len by (simp add: DEFAULT_NUM_BALLOON_def)
  obtain x cs where c: "contents ?q = x # cs" using ne by (cases "contents ?q") auto
  obtain cq where cq: "deq_at (inode_clean_lfqueue s) k = Inr (x, (inode_clean_lfqueue s)[k := cq])" "contents cq = cs"
    "lfq_ok (Suc m) cq" "capacity cq = capacity ?q"
    using deq_at_ok [OF kl _ c] queue_member(4) [OF I(2) kl] by blast
  let ?i = "unat x" and ?s1 = "s\<lparr>inode_clean_lfqueue := (inode_clean_lfqueue s)[k := cq]\<rparr>"
  have id: "idxs ?q = ?i # idxs cq" using c cq(2) by (simp add: idxs_def)
  have cap: "capacity cq = max_inode_entry s" "lfq_ok m cq" "contents cq = tl (contents ?q)"
    using cq(3,4) queue_member(4) [OF I(2) kl] lfq_ok_less [OF cq(3), of m] c cq(2) by simp_all
  have "?q \<in> set (inode_clean_lfqueue s)" using kl by simp
  then have iI: "?i < nI s" using I(7) id by (auto simp: clean_inv_def)
  then have il: "?i < length (inode_table s)" using len by simp
  have inv0: "nvm_inv ck m s"
    using inv queue_inv_less [of "Suc m" s m] by (simp add: nvm_inv_def flush_inv_def)
  show ?thesis
  proof (cases "st s ?i = CLEAN")
    case False
    have "fill_round ck s k = Inr ?s1"
      using cq(1) il False by (simp add: fill_round_def free_clean_inode_def st_def)
    moreover have "st ?s1 = (\<lambda>i. if i = hd (idxs ?q) \<and> st s i = CLEAN then FREE else st s i)"
      using id False by (auto simp: fun_eq_iff st_def)
    ultimately show ?thesis using drop_entry_inv [OF inv0 kl id cap(2,1) False] cap(3) kl
      by (intro exI [of _ ?s1]) (simp add: inuse_def vid_of_def fun_eq_iff sync_frame_def disk_block_def key_def st_def)
  next
    case True
    then obtain v where v: "v \<in> inuse s" "key s ?i = Some (v, in_lbn (inode_table s ! ?i))"
      using inode_inuse [OF inv0 iI] by auto
    let ?l = "in_lbn (inode_table s ! ?i)"
    have vV: "v < nV s" using inuse_less [OF v(1)] .
    obtain t where t: "ve_table (volume_table s ! v) = Some t" using inuse_table [OF I(8) v(1)] by blast
    obtain a nd h t' n2 where nd: "lookup ck s v ?l = Some a" "search_hash_node ck t ?l = Some a"
      "nodes s a = Some nd" "hn_inode nd = Some ?i" "hn_lbn nd = ?l" "\<not> hn_mutex nd" and
      ld: "logical_delete_hash_node ((nodes s)(a \<mapsto> nd\<lparr>hn_mutex := True\<rparr>)) t (Some a) = Inr (h, t')" "ht_map t' = ht_map t"
      "h a = Some n2" "view (h(a \<mapsto> n2\<lparr>hn_mutex := False\<rparr>)) = (view (nodes s))(a \<mapsto> (None, ?l, False, False))"
      "tail_ok (h(a \<mapsto> n2\<lparr>hn_mutex := False\<rparr>)) t'"
      by (rule node_deleted [OF I(9) v(2) vV t])
    let ?h = "h(a \<mapsto> n2\<lparr>hn_mutex := False\<rparr>)" and ?k = "rr (free_enqueue_idx s) DEFAULT_NUM_FREE"
    obtain fq where fq: "enq_at (inode_free_lfqueue s) ?k x = Inr ((inode_free_lfqueue s)[?k := fq])"
      "idxs fq = idxs (inode_free_lfqueue s ! ?k) @ [?i]" "lfq_ok m fq" "capacity fq = max_inode_entry s"
      by (rule free_enqueued [OF inv iI]) (use True in simp)
    let ?s = "freed s k cq v ?i ?h t' fq"
    have iv: "in_volume (inode_table s ! ?i) = Some v" using key_Some(3) [OF v(2)] .
    have "fill_round ck s k = Inr ?s"
      using cq(1) il True vV len t nd ld(1,3) fq(1) iv
      by (simp add: fill_round_def free_clean_inode_def st_def try_lock_hash_node_def lock_node_def
        set_inode_state_def unlock_node_def freed_def Let_def)
    moreover have "st ?s = (\<lambda>i. if i = hd (idxs ?q) \<and> st s i = CLEAN then FREE else st s i)"
      using id True freed_fun(1) [OF v(2) il, of k cq ?h t' fq] by (auto simp: fun_eq_iff)
    moreover have "inuse ?s = inuse s" "vid_of ?s = vid_of s" using freed_fun(4,5) [OF v(2) il] by simp_all
    moreover have "sync_frame s ?s"
      unfolding sync_frame_def freed_fun [OF v(2) il] using True by (simp add: freed_def)
    moreover have "contents (inode_clean_lfqueue ?s ! k) = tl (contents ?q)" using cap(3) kl by (simp add: freed_def)
    ultimately show ?thesis
      using freed_inv [OF inv v(2) True kl id cap(2,1) fq(2-4) t ld(2,5) nd(1) ld(4)] by blast
  qed
qed

lemma fill_free_inodes_held:
  assumes "nvm_inv ck (n + m) s" "k < DEFAULT_NUM_BALLOON" "n = length (contents (inode_clean_lfqueue s ! k))"
  shows "\<exists>s'. fill_free_inodes ck s k = Inr s' \<and> nvm_inv ck m s' \<and> abs_store s' = abs_store s \<and>
    contents (inode_clean_lfqueue s' ! k) = [] \<and>
    (\<forall>i. st s' i = (if i \<in> set (idxs (inode_clean_lfqueue s ! k)) \<and> st s i = CLEAN then FREE else st s i)) \<and>
    inuse s' = inuse s \<and> vid_of s' = vid_of s"
  using assms
proof (induction n arbitrary: s)
  case 0
  note I = nvm_invD [OF 0(1)]
  have kl: "k < length (inode_clean_lfqueue s)" using 0(2) I(1) by (simp add: shape_inv_def)
  have "is_empty (inode_clean_lfqueue s ! k)"
    using queue_member(4) [OF I(2) kl] 0(3) by (simp add: is_empty_iff lfq_ok_def)
  then show ?case using 0 kl by (subst fill_free_inodes.simps) (simp add: idxs_def)
next
  case (Suc n)
  let ?q = "inode_clean_lfqueue s ! k"
  note I = nvm_invD [OF Suc.prems(1)]
  have kl: "k < length (inode_clean_lfqueue s)" using Suc.prems(2) I(1) by (simp add: shape_inv_def)
  have ne: "contents ?q \<noteq> []" using Suc.prems(3) by auto
  then obtain x cs where c: "contents ?q = x # cs" by (cases "contents ?q") auto
  have nem: "\<not> is_empty ?q" using queue_member(4) [OF I(2) kl] ne by (simp add: is_empty_iff lfq_ok_def)
  have inv: "nvm_inv ck (Suc (n + m)) s" using Suc.prems(1) by simp
  obtain s1 where s1: "fill_round ck s k = Inr s1" "nvm_inv ck (n + m) s1" "abs_store s1 = abs_store s"
    "contents (inode_clean_lfqueue s1 ! k) = tl (contents ?q)"
    "st s1 = (\<lambda>i. if i = hd (idxs ?q) \<and> st s i = CLEAN then FREE else st s i)" "inuse s1 = inuse s" "vid_of s1 = vid_of s"
    using fill_round_ok [OF inv Suc.prems(2) ne] by blast
  have "n = length (contents (inode_clean_lfqueue s1 ! k))" using s1(4) Suc.prems(3) by simp
  then obtain s' where s': "fill_free_inodes ck s1 k = Inr s'" "nvm_inv ck m s'" "abs_store s' = abs_store s1"
    "contents (inode_clean_lfqueue s' ! k) = []"
    "\<forall>i. st s' i = (if i \<in> set (idxs (inode_clean_lfqueue s1 ! k)) \<and> st s1 i = CLEAN then FREE else st s1 i)"
    "inuse s' = inuse s1" "vid_of s' = vid_of s1"
    using Suc.IH [OF s1(2) Suc.prems(2)] by blast
  have "fill_free_inodes ck s k = Inr s'" using kl nem s1(1) s'(1) by (subst fill_free_inodes.simps) simp
  moreover have "st s' i = (if i \<in> set (idxs ?q) \<and> st s i = CLEAN then FREE else st s i)" for i
    using s'(5) s1(4,5) c by (auto simp: idxs_def)
  ultimately show ?case using s' s1(3,6,7) by simp
qed

lemma fill_free_inodes_ok:
  assumes inv: "nvm_inv ck (nI s + m) s" and k: "k < DEFAULT_NUM_BALLOON"
  shows "\<exists>s'. fill_free_inodes ck s k = Inr s' \<and> nvm_inv ck m s' \<and> abs_store s' = abs_store s \<and>
    contents (inode_clean_lfqueue s' ! k) = [] \<and>
    (\<forall>i. st s' i = (if i \<in> set (idxs (inode_clean_lfqueue s ! k)) \<and> st s i = CLEAN then FREE else st s i)) \<and>
    inuse s' = inuse s \<and> vid_of s' = vid_of s"
proof -
  note I = nvm_invD [OF inv]
  have kl: "k < length (inode_clean_lfqueue s)" using k I(1) by (simp add: shape_inv_def)
  let ?n = "length (contents (inode_clean_lfqueue s ! k))"
  have "?n \<le> nI s" using lfq.waiting_room queue_member(4) [OF I(2) kl] by metis
  then have "nvm_inv ck (?n + m) s"
    using inv queue_inv_less [of "nI s + m" s "?n + m"] by (simp add: nvm_inv_def flush_inv_def)
  from fill_free_inodes_held [OF this k refl] show ?thesis .
qed

end
