(* ===== verification/NVM_Monitor.thy ===== *)
theory NVM_Monitor
  imports NVM_Inv
begin

text \<open>
  The monitor thread (\<^verbatim>\<open>src/nvm0monitor.cc\<close>) and the drawing operations of a queue
  (\<^verbatim>\<open>include/nvm0lfqueue.h\<close>). Every round draws a gauge of all queues over the last one; every 200th
  also prints the rates since the last time and resets the counters. A function returns the text it
  prints; the readings of the clock and the option \<open>NUM_FLUSH\<close> are arguments.
\<close>

section \<open>One queue\<close>

definition colour :: "char \<Rightarrow> string" where
  "colour d = [ESC, CHR ''['', CHR ''3'', d, CHR ''m'']"

definition plain_colour :: string where
  "plain_colour = [ESC, CHR ''['', CHR ''0'', CHR ''m'']"

text \<open>\<open>lfqueue::coloring\<close>: red, yellow, green and blue.\<close>

definition queue_coloring :: "double \<Rightarrow> string" where
  "queue_coloring state =
     (if above state 75 then colour CHR ''1'' else if above state 50 then colour CHR ''3''
      else if above state 25 then colour CHR ''2'' else colour CHR ''4'')"

text \<open>The loop that draws twenty bars, which \<open>lfqueue::monitor\<close> and \<open>printLFQueueGauge\<close> have alike.\<close>

definition bars :: "double \<Rightarrow> string" where
  "bars fullness = map (\<lambda>i. if below fullness (of_nat (5 * i)) then CHR ''-'' else CHR ''|'') [0..<20]"

text \<open>\<^verbatim>\<open>printf(" %7.3lf %%", fullness)\<close>\<close>

definition show_percent :: "double \<Rightarrow> string" where
  "show_percent fullness = '' '' @ pad CHR '' '' 7 (fmt_double 3 fullness) @ '' %''"

text \<open>\<^verbatim>\<open>(double)n / (double)d * 100\<close>\<close>

definition percentage :: "int \<Rightarrow> u32 \<Rightarrow> double" where
  "percentage n d = scale (quotient (dbl n) (dbl (uint d))) 100"

definition queue_monitor :: "'a lfqueue \<Rightarrow> string" where
  "queue_monitor q =
     (let fullness = percentage (uint (get_size q)) (capacity q)
      in queue_coloring fullness @ bars fullness @ show_percent fullness @ plain_colour)"

section \<open>The gauge\<close>


text \<open>A cell of the gauge: queue \<open>i\<close> of an array of which the first \<open>n\<close> are drawn, or as many blanks.\<close>

definition gauge_cell :: "int \<Rightarrow> u32 lfqueue list \<Rightarrow> nat \<Rightarrow> string res" where
  "gauge_cell n qs i =
     (if n - 1 < int i then Inr (replicate 36 CHR '' '')
      else rbind (at_index qs i) (\<lambda>q.
        Inr (''['' @ pad CHR '' '' 2 (to_string i) @ '']'' @ queue_monitor q @ ''  '')))"

definition gauge_row :: "u32 \<Rightarrow> 'm nvm \<Rightarrow> nat \<Rightarrow> string res" where
  "gauge_row num_flush s i =
     rbind (gauge_cell (int DEFAULT_NUM_FREE) (inode_free_lfqueue s) i) (\<lambda>a.
     rbind (gauge_cell (sint num_flush) (inode_dirty_lfqueue s) i) (\<lambda>b.
     rbind (gauge_cell (int DEFAULT_NUM_SYNCER) (inode_sync_lfqueue s) i) (\<lambda>c.
     rbind (gauge_cell (int DEFAULT_NUM_BALLOON) (inode_clean_lfqueue s) i) (\<lambda>d.
     Inr (a @ b @ c @ d @ [LF])))))"

text \<open>The rows from \<open>n - 1\<close> down to 0.\<close>

fun gauge_rows :: "u32 \<Rightarrow> 'm nvm \<Rightarrow> nat \<Rightarrow> string res" where
  "gauge_rows num_flush s 0 = Inr ''''"
| "gauge_rows num_flush s (Suc i) =
     rbind (gauge_row num_flush s i) (\<lambda>r. rbind (gauge_rows num_flush s i) (\<lambda>rs. Inr (r @ rs)))"

text \<open>\<open>total_size\<close>: the sum of the sizes of the first \<open>n\<close> queues.\<close>

fun total_size :: "u32 lfqueue list \<Rightarrow> nat \<Rightarrow> u64 res" where
  "total_size qs 0 = Inr 0"
| "total_size qs (Suc i) = rbind (total_size qs i) (\<lambda>t. rbind (at_index qs i) (\<lambda>q. Inr (t + ucast (get_size q))))"

definition total_line :: "double \<Rightarrow> string" where
  "total_line fullness = queue_coloring fullness @ ''    '' @ bars fullness @ show_percent fullness @ plain_colour"

definition gauge_total :: "'m nvm \<Rightarrow> u32 lfqueue list \<Rightarrow> nat \<Rightarrow> string res" where
  "gauge_total s qs n =
     rbind (total_size qs n) (\<lambda>t.
     rbind (at_index (inode_dirty_lfqueue s) 0) (\<lambda>_.
     Inr (total_line (percentage (uint t) (max_inode_entry s)))))"

definition cursor_up :: string where
  "cursor_up = [ESC, CHR ''['', CHR ''1'', CHR ''A'']"

definition gauge_header :: string where
  "gauge_header = ''    [free LFQueue]                  '' @ ''    [dirty LFQueue]                 '' @
     ''    [sync LFQueue]                  '' @ ''    [clean LFQueue]                 '' @ [LF]"

definition printLFQueueGauge :: "u32 \<Rightarrow> 'm nvm \<Rightarrow> string res" where
  "printLFQueueGauge num_flush s =
     rbind (gauge_rows num_flush s (MONITORING_AMOUNT + 1)) (\<lambda>rows.
     rbind (gauge_total s (inode_free_lfqueue s) DEFAULT_NUM_FREE) (\<lambda>a.
     rbind (gauge_total s (inode_dirty_lfqueue s) (unat (max_volume_entry s))) (\<lambda>b.
     rbind (gauge_total s (inode_sync_lfqueue s) DEFAULT_NUM_SYNCER) (\<lambda>c.
     rbind (gauge_total s (inode_clean_lfqueue s) DEFAULT_NUM_BALLOON) (\<lambda>d.
     Inr (gauge_header @ rows @ (a @ ''  '') @ (b @ plain_colour @ ''  '') @ (c @ ''  '') @ (d @ ''  '') @
          concat (replicate (MONITORING_AMOUNT + 2) (cursor_up @ [CR]))))))))"

section \<open>Rates\<close>

definition TimeSpecToSeconds :: "timespec \<Rightarrow> rat" where
  "TimeSpecToSeconds ts = dadd (dbl (tv_sec ts)) (ddiv (dbl (tv_nsec ts)) 1000000000)"

definition rate_coloring :: "double \<Rightarrow> string" where
  "rate_coloring state =
     (if below state 1 then colour CHR ''1'' else if below state 2 then colour CHR ''3''
      else if below state 3 then colour CHR ''2'' else colour CHR ''4'')"

definition unitSize :: rat where "unitSize = 1024 * 1024 * 1024"

text \<open>\<^verbatim>\<open>(double)n * 16 * 1024 / unitSize / time_interval\<close>\<close>

definition gib_rate :: "u64 \<Rightarrow> rat \<Rightarrow> double" where
  "gib_rate n time_interval = quotient (ddiv (dmul (dmul (dbl (uint n)) 16) 1024) unitSize) time_interval"

definition show_rate :: "string \<Rightarrow> double \<Rightarrow> string" where
  "show_rate label r = label @ rate_coloring r @ fmt_double 2 r @ '' GiB/s         ''"

text \<open>\<open>reset\<close> reads the clock a second time.\<close>

definition reset :: "timespec \<Rightarrow> monitor \<Rightarrow> monitor" where
  "reset now m = m\<lparr>mon_free := 0, mon_dirty := 0, mon_clean := 0, mon_sync := 0, time_recorder := now\<rparr>"

definition printThroughput :: "timespec \<Rightarrow> timespec \<Rightarrow> monitor \<Rightarrow> string \<times> monitor" where
  "printThroughput now later m =
     (let time_interval = dsub (TimeSpecToSeconds now) (TimeSpecToSeconds (time_recorder m));
          rate = (\<lambda>n. gib_rate n time_interval) in
      (concat (replicate (MONITORING_AMOUNT + 3) [LF, CHR '' '', CR]) @
       show_rate ''    clean->free: '' (rate (mon_free m)) @
       show_rate (plain_colour @ ''    free->dirty: '') (rate (mon_dirty m)) @
       show_rate (plain_colour @ ''    dirty->sync: '') (rate (mon_sync m)) @
       show_rate (plain_colour @ ''    sync->clean: '') (rate (mon_clean m)) @
       plain_colour @ concat (replicate (MONITORING_AMOUNT + 3) (cursor_up @ '' '' @ [CR])),
       reset later m))"

section \<open>The thread\<close>

text \<open>\<open>nvm_monitor\<close> with its static counter, which starts at 200, and a round of the thread.\<close>

definition nvm_monitor :: "u32 \<Rightarrow> timespec \<Rightarrow> timespec \<Rightarrow> int \<times> 'm nvm \<Rightarrow> (string \<times> int \<times> 'm nvm) res" where
  "nvm_monitor num_flush now later cs = (case cs of (counter, s) \<Rightarrow>
     rbind (printLFQueueGauge num_flush s) (\<lambda>gauge.
       if counter = 200 then
         let (rates, m) = printThroughput now later (mon s) in Inr (gauge @ rates, 0 + 1, s\<lparr>mon := m\<rparr>)
       else Inr (gauge, counter + 1, s)))"

definition monitor_thread_round :: "u32 \<Rightarrow> timespec \<Rightarrow> timespec \<Rightarrow> int \<times> 'm nvm \<Rightarrow> (string \<times> int \<times> 'm nvm) res" where
  "monitor_thread_round num_flush now later cs =
     (if sys_terminate (snd cs) then Inr ('''', cs) else nvm_monitor num_flush now later cs)"

section \<open>Bars and percentages\<close>

text \<open>The bars of a percentage: one more than it has whole twentieths, and never more than twenty.\<close>

lemma threshold_map: "k \<le> n \<Longrightarrow> (\<And>i. i < n \<Longrightarrow> P i \<longleftrightarrow> k \<le> i) \<Longrightarrow>
    map (\<lambda>i. if P i then a else b) [0..<n] = replicate k b @ replicate (n - k) a"
  by (rule nth_equalityI) (auto simp: nth_append)

lemma bars_Fin:
  assumes "0 \<le> x"
  shows "bars (Fin x) = replicate (min 20 (nat \<lfloor>x / 5\<rfloor> + 1)) CHR ''|'' @ replicate (20 - min 20 (nat \<lfloor>x / 5\<rfloor> + 1)) CHR ''-''"
  unfolding bars_def
proof (rule threshold_map)
  fix i :: nat assume i: "i < 20"
  have f: "0 \<le> \<lfloor>x / 5\<rfloor>" using assms by simp
  have "below (Fin x) (of_nat (5 * i)) \<longleftrightarrow> x / 5 < of_int (int i)" by (simp add: mult.commute)
  also have "\<dots> \<longleftrightarrow> \<lfloor>x / 5\<rfloor> < int i" by (simp only: floor_less_iff)
  also have "\<dots> \<longleftrightarrow> min 20 (nat \<lfloor>x / 5\<rfloor> + 1) \<le> i" using f i by linarith
  finally show "below (Fin x) (of_nat (5 * i)) \<longleftrightarrow> min 20 (nat \<lfloor>x / 5\<rfloor> + 1) \<le> i" .
qed simp

lemma scale_quotient:
  assumes "n \<le> k * d" "0 \<le> n" "n \<le> 2 ^ 53" "0 < d" "d \<le> 2 ^ 53" "k * 100 \<le> 2 ^ 53"
  shows "\<exists>x. scale (quotient (dbl n) (dbl d)) 100 = Fin x \<and> 0 \<le> x \<and> x \<le> of_int (k * 100)"
proof -
  have "of_int n \<le> of_int k * (of_int d :: rat)" using assms(1) by (simp flip: of_int_mult)
  then have q: "0 \<le> ddiv (of_int n) (of_int d) \<and> ddiv (of_int n) (of_int d) \<le> of_int k"
    using ddiv_le [of "of_int n" "of_int d" k] assms by simp
  then have "0 \<le> dmul (ddiv (of_int n) (of_int d)) (of_int 100) \<and>
      dmul (ddiv (of_int n) (of_int d)) (of_int 100) \<le> of_int (k * 100)"
    using dmul_le [of "ddiv (of_int n) (of_int d)" k 100] assms(6) by simp
  then show ?thesis using assms(2-5) by (simp add: quotient_def dbl_int)
qed

lemma percentage_bounds:
  assumes "n \<le> k * uint d" "0 \<le> n" "n \<le> 2 ^ 53" "0 < uint d" "k * 100 \<le> 2 ^ 53"
  shows "\<exists>x. percentage n d = Fin x \<and> 0 \<le> x \<and> x \<le> of_int (k * 100)"
  using scale_quotient [of n k "uint d"] assms uint_lt2p [of d] by (simp only: percentage_def) auto

lemma percentage_ends:
  assumes "0 < uint d"
  shows "percentage (uint d) d = Fin 100" "percentage 0 d = Fin 0"
proof -
  have "scale (quotient (dbl n) (dbl n)) 100 = Fin 100 \<and> scale (quotient (dbl 0) (dbl n)) 100 = Fin 0"
    if "0 < n" "n \<le> 2 ^ 53" for n
    using that rnd_int [of 1] rnd_int [of 100] by (simp add: quotient_def dbl_int ddiv_def dmul_def)
  then show "percentage (uint d) d = Fin 100" "percentage 0 d = Fin 0"
    using assms uint_lt2p [of d] by (simp_all only: percentage_def) auto
qed

section \<open>What a round changes\<close>

text \<open>Nothing that the rest of the program relies on depends on the counters of the monitor.\<close>

lemma monitor_irrelevant:
  "st (s\<lparr>mon := x\<rparr>) = st s" "key (s\<lparr>mon := x\<rparr>) = key s" "vid_of (s\<lparr>mon := x\<rparr>) = vid_of s"
  "disk_block (s\<lparr>mon := x\<rparr>) = disk_block s"
  "nvm_inv ck m (s\<lparr>mon := x\<rparr>) = nvm_inv ck m s" "abs_store (s\<lparr>mon := x\<rparr>) = abs_store s"
proof -
  have f: "st (s\<lparr>mon := x\<rparr>) = st s" "key (s\<lparr>mon := x\<rparr>) = key s" "lookup ck (s\<lparr>mon := x\<rparr>) = lookup ck s"
    "vid_of (s\<lparr>mon := x\<rparr>) = vid_of s" "data_of (s\<lparr>mon := x\<rparr>) = data_of s"
    "file_block (s\<lparr>mon := x\<rparr>) = file_block s" "disk_block (s\<lparr>mon := x\<rparr>) = disk_block s"
    by (simp_all add: fun_eq_iff st_def key_def lookup_def vid_of_def data_of_def file_block_def disk_block_def)
  show "st (s\<lparr>mon := x\<rparr>) = st s" "key (s\<lparr>mon := x\<rparr>) = key s" "vid_of (s\<lparr>mon := x\<rparr>) = vid_of s"
    "disk_block (s\<lparr>mon := x\<rparr>) = disk_block s" by (rule f)+
  have "inuse (s\<lparr>mon := x\<rparr>) = inuse s" "cached (s\<lparr>mon := x\<rparr>) = cached s"
    by (simp_all add: fun_eq_iff inuse_def cached_def f)
  with f show "nvm_inv ck m (s\<lparr>mon := x\<rparr>) = nvm_inv ck m s"
    by (simp add: nvm_inv_def flush_inv_def shape_inv_def queue_inv_def block_inv_def block_owners_def free_inv_def
      dirty_held_def sync_held_def clean_inv_def volume_inv_def volq_inv_def hash_inv_def disk_inv_def)
  have "caching_inode (s\<lparr>mon := x\<rparr>) v l = caching_inode s v l" for v l unfolding caching_inode_def f by simp
  then show "abs_store (s\<lparr>mon := x\<rparr>) = abs_store s" unfolding abs_store_def f by (intro ext) simp
qed

lemma nvm_monitor_mon:
  assumes "nvm_monitor num_flush now later (counter, s) = Inr (out, counter', s')"
  shows "\<exists>x. s' = s\<lparr>mon := x\<rparr>"
proof (cases "counter = 200")
  case True
  obtain rates x where "printThroughput now later (mon s) = (rates, x)" by fastforce
  with True assms show ?thesis by (auto simp: nvm_monitor_def rbind_Inr_iff)
next
  case False
  with assms have "s' = s\<lparr>mon := mon s\<rparr>" by (auto simp: nvm_monitor_def rbind_Inr_iff)
  then show ?thesis by blast
qed

end
