(* ===== verification/NVM_System.thy ===== *)
theory NVM_System
  imports NVM_Write_Inv NVM_Volume_Inv NVM_Flush_Inv NVM_Sync_Inv NVM_Balloon_Inv NVM_Init_Inv NVM_Monitor
begin

text \<open>
  The running system: any number of writers, the flush threads, two sync threads, the balloon
  threads and the monitor thread, interleaved. A write of one block and a round of a flush thread
  are single steps: they hold the hash node's mutex and the inode locks of the blocks they move. What these locks do
  not cover, the spare block of a volume and a block without a hash node, is taken to be used by one
  writer at a time; the theory \<open>NVM_Races\<close> shows why that has to be assumed. A sync thread is not
  one step: it reads the length of its queue, calls \<^verbatim>\<open>sync()\<close>, and then releases one inode after
  another, with steps of others in between. A call that waits is a step that is not there yet.
\<close>

section \<open>States and steps\<close>

datatype phase = Idle | Sized nat | Releasing nat

text \<open>The ghost \<open>promised\<close> records what the writes were for.\<close>

record 'm sys =
  mem :: "'m nvm"
  promised :: "u32 \<Rightarrow> u32 \<Rightarrow> u8 list"
  phases :: "nat \<Rightarrow> phase"

inductive sys_step :: "'m cuckoo \<Rightarrow> 'm sys \<Rightarrow> 'm sys \<Rightarrow> bool" for ck where
  open_volume: "vid \<noteq> - 1 \<Longrightarrow> \<not> open_fails (system (mem S)) (get_filename vid) \<Longrightarrow>
    get_volume_entry_idx ck (mem S) vid = Inr (v, s') \<Longrightarrow> sys_step ck S (S\<lparr>mem := s'\<rparr>)"
| write_step: "unat v \<in> inuse (mem S) \<Longrightarrow> lbn \<noteq> - 1 \<Longrightarrow> unat c \<le> length buf \<Longrightarrow> unat c \<le> bsz (mem S) \<Longrightarrow>
    write_block ck (mem S) v lbn local_offset buf c = Inr (n, s') \<Longrightarrow>
    G' = (promised S)(vid_of (mem S) (unat v) := (promised S (vid_of (mem S) (unat v)))
           (lbn := new_data (mem S) (unat v) buf (unat c))) \<Longrightarrow>
    sys_step ck S (S\<lparr>mem := s', promised := G'\<rparr>)"
| flush: "flush_thread_round (mem S) = Inr s' \<Longrightarrow> sys_step ck S (S\<lparr>mem := s'\<rparr>)"
| sync_begin: "k < DEFAULT_NUM_SYNCER \<Longrightarrow> phases S k = Idle \<Longrightarrow>
    get_size (inode_sync_lfqueue (mem S) ! k) \<ge> DEFAULT_SYNC_LWM \<Longrightarrow>
    sys_step ck S (S\<lparr>phases := (phases S)(k := Sized (unat (get_size (inode_sync_lfqueue (mem S) ! k))))\<rparr>)"
| sync_call: "k < DEFAULT_NUM_SYNCER \<Longrightarrow> phases S k = Sized n \<Longrightarrow>
    sys_step ck S (S\<lparr>mem := sync_files (mem S), phases := (phases S)(k := Releasing n)\<rparr>)"
| sync_release: "k < DEFAULT_NUM_SYNCER \<Longrightarrow> phases S k = Releasing (Suc n) \<Longrightarrow>
    sync_one (mem S) k = Inr s' \<Longrightarrow>
    sys_step ck S (S\<lparr>mem := s', phases := (phases S)(k := Releasing n)\<rparr>)"
| sync_end: "k < DEFAULT_NUM_SYNCER \<Longrightarrow> phases S k = Releasing 0 \<Longrightarrow>
    sys_step ck S (S\<lparr>phases := (phases S)(k := Idle)\<rparr>)"
| balloon: "k < DEFAULT_NUM_BALLOON \<Longrightarrow> \<not> is_empty (inode_clean_lfqueue (mem S) ! k) \<Longrightarrow>
    fill_round ck (mem S) k = Inr s' \<Longrightarrow> sys_step ck S (S\<lparr>mem := s'\<rparr>)"
| monitor_round: "nvm_monitor num_flush now later (counter, mem S) = Inr (out, counter', s') \<Longrightarrow>
    sys_step ck S (S\<lparr>mem := s'\<rparr>)"

text \<open>The system has just been started on formatted memory, with \<open>sync()\<close> enabled.\<close>

definition sys_start :: "'m sys \<Rightarrow> bool" where
  "sys_start S \<longleftrightarrow> (\<exists>raw s0. boot_ok s0 \<and> \<not> io_error (system s0) \<and> sync_option s0 \<and>
     nvm_system_init raw s0 = Inr (mem S) \<and> promised S = file_block s0 \<and> phases S = (\<lambda>_. Idle))"

section \<open>The invariant\<close>

text \<open>
  A step enqueues at most 1025 times on any queue, so the ticket counters last for \<open>2 ^ 50\<close> steps.
\<close>

definition phase_ok :: "'m nvm \<Rightarrow> nat \<Rightarrow> phase \<Rightarrow> bool" where
  "phase_ok s k p \<longleftrightarrow> (case p of Idle \<Rightarrow> True
     | Sized n \<Rightarrow> n \<le> length (idxs (inode_sync_lfqueue s ! k)) | Releasing n \<Rightarrow> settled s k n)"

definition sys_at :: "'m cuckoo \<Rightarrow> nat \<Rightarrow> 'm sys \<Rightarrow> bool" where
  "sys_at ck m S \<longleftrightarrow> nvm_inv ck m (mem S) \<and> promised S = abs_store (mem S) \<and>
     \<not> io_error (system (mem S)) \<and> sync_option (mem S) \<and>
     (\<forall>k < DEFAULT_NUM_SYNCER. phase_ok (mem S) k (phases S k))"

definition sys_inv :: "'m cuckoo \<Rightarrow> nat \<Rightarrow> 'm sys \<Rightarrow> bool" where
  "sys_inv ck n S \<longleftrightarrow> sys_at ck ((2 ^ 50 - n) * 1025) S"

lemma sys_atD:
  assumes "sys_at ck m S"
  shows "nvm_inv ck m (mem S)" "promised S = abs_store (mem S)" "\<not> io_error (system (mem S))" "sync_option (mem S)"
    "k < DEFAULT_NUM_SYNCER \<Longrightarrow> phase_ok (mem S) k (phases S k)"
  using assms by (simp_all add: sys_at_def)

lemma sys_at_less: "sys_at ck m S \<Longrightarrow> m' \<le> m \<Longrightarrow> sys_at ck m' S"
  using nvm_inv_less by (auto simp: sys_at_def)

text \<open>
  A phase stays right when the queue only grows at its end and the inodes in it keep their
  blocks, on the device and in the store.
\<close>

lemma phase_keep:
  assumes inv: "nvm_inv ck m s" "nvm_inv ck m' s'" and k: "k < DEFAULT_NUM_SYNCER" and p: "phase_ok s k p"
    and grow: "\<exists>ys. idxs (inode_sync_lfqueue s' ! k) = idxs (inode_sync_lfqueue s ! k) @ ys"
    and same: "\<And>i v l. st s i = SYNC \<Longrightarrow> key s i = Some (v, l) \<Longrightarrow> key s' i = Some (v, l) \<and> vid_of s' v = vid_of s v \<and>
       disk_block s' (vid_of s v) l = disk_block s (vid_of s v) l \<and> abs_store s' (vid_of s v) l = abs_store s (vid_of s v) l"
  shows "phase_ok s' k p"
proof -
  note I = nvm_invD [OF inv(1)] and I' = nvm_invD [OF inv(2)]
  let ?q = "idxs (inode_sync_lfqueue s ! k)"
  obtain ys where ys: "idxs (inode_sync_lfqueue s' ! k) = ?q @ ys" using grow by blast
  have k': "k = 0 \<or> k = 1" using k by (auto simp: DEFAULT_NUM_SYNCER_def)
  have "settled s' k n" if st: "settled s k n" for n
  proof -
    have n: "n \<le> length ?q" using st by (simp add: settled_def)
    have t: "take n (idxs (inode_sync_lfqueue s' ! k)) = take n ?q" using n by (simp add: ys)
    have "disk_block s' (vid_of s' v) l = data_of s' i"
      if i: "i \<in> set (take n ?q)" and ky: "key s' i = Some (v, l)" for i v l
    proof -
      have iq: "i \<in> set ?q" using i in_set_takeD by fast
      then have sy: "st s i = SYNC" "i < nI s" using sync_queue_state [OF I(6) k'] by blast+
      then obtain u where u: "key s i = Some (u, in_lbn (inode_table s ! i))" using inode_inuse [OF inv(1) sy(2)] sy(1) by auto
      then have "u = v" "in_lbn (inode_table s ! i) = l" using same [OF sy(1) u] ky by auto
      then have ks: "key s i = Some (v, l)" using u by simp
      note E = same [OF sy(1) ks]
      have "data_of s' i = abs_store s' (vid_of s' v) l" using abs_cached [OF I'(9,8) ky] by simp
      also have "\<dots> = abs_store s (vid_of s v) l" using E by simp
      also have "\<dots> = data_of s i" using abs_cached [OF I(9,8) ks] .
      also have "\<dots> = disk_block s (vid_of s v) l" using st i ks by (simp add: settled_def)
      finally show ?thesis using E by simp
    qed
    then show ?thesis using n ys unfolding settled_def t by simp
  qed
  then show ?thesis using p ys by (auto simp: phase_ok_def split: phase.splits)
qed

lemma open_room:
  assumes inv: "nvm_inv ck m s" and vid: "vid \<noteq> - 1" and r: "get_volume_entry_idx ck s vid = Inr r"
  shows "(\<exists>v \<in> inuse s. vid_of s v = vid) \<or> inuse s \<noteq> {..<nV s}"
proof (rule disjCI, rule ccontr)
  assume full: "\<not> inuse s \<noteq> {..<nV s}" and no: "\<not> (\<exists>v \<in> inuse s. vid_of s v = vid)"
  assume "\<not> (\<exists>v \<in> inuse s. vid_of s v = vid)"
  note I = nvm_invD [OF inv]
  have len: "length (volume_table s) = nV s" using I(1) by (simp add: shape_inv_def)
  have "find_volume (volume_table s) 0 vid = None"
  proof (rule ccontr)
    assume "find_volume (volume_table s) 0 vid \<noteq> None"
    then obtain k where "k < length (volume_table s)" "ve_vid (volume_table s ! k) = vid"
      using find_volume_Some by fastforce
    then have "k \<in> inuse s \<and> vid_of s k = vid" using vid len by (simp add: inuse_def vid_of_def)
    with no show False by blast
  qed
  then have "get_volume_entry_idx ck s vid = alloc_volume_entry_idx ck s vid" using len by (simp add: get_volume_entry_idx_def)
  moreover have "contents (volume_free_lfqueue s) = []" using I(11) full by (simp add: volq_inv_def idxs_def)
  then have "is_empty (volume_free_lfqueue s)"
    using I(2) by (simp add: queue_inv_def queues_ok_def is_empty_iff lfq_ok_def)
  ultimately show False using r by (simp add: alloc_volume_entry_idx_def)
qed

text \<open>A release that returns found room in the clean queue it used.\<close>

lemma release_room:
  assumes inv: "nvm_inv ck (Suc m) s" and k: "k = 0 \<or> k = 1" and n: "settled s k (Suc n)" and r: "sync_one s k = Inr s'"
  shows "length (contents (inode_clean_lfqueue s ! rr (clean_queue_idx s) DEFAULT_NUM_BALLOON)) < nI s"
proof (rule ccontr)
  let ?c = "rr (clean_queue_idx s) DEFAULT_NUM_BALLOON"
  let ?q = "inode_clean_lfqueue s ! ?c"
  assume full: "\<not> length (contents ?q) < nI s"
  note I = nvm_invD [OF inv]
  have "length (inode_clean_lfqueue s) = 8" using I(1) by (simp add: shape_inv_def DEFAULT_NUM_BALLOON_def)
  then have c: "?c < length (inode_clean_lfqueue s)" by (simp add: DEFAULT_NUM_BALLOON_def rr_less)
  note ok = queue_member(4) [OF I(2) c]
  have "length (contents ?q) = cap_of ?q" using lfq.waiting_room [of "Suc m" ?q] ok full by simp
  then have "enqueue ?q x = Inl Blocked" for x using lfq.enq_full ok by blast
  then have b: "enq_at (inode_clean_lfqueue s) ?c x = Inl Blocked" for x using c by (simp add: enq_at_def)
  show False using r b
    by (auto simp: sync_one_def set_inode_state_def rbind_Inr_iff at_index_Inr_iff Let_def)
qed

section \<open>Calls that return\<close>

text \<open>The lemmas about the operations, from the side of a step: the call has returned.\<close>

lemma get_volume_Inr:
  assumes inv: "nvm_inv ck (Suc m) s" and laws: "cuckoo_laws ck" and vid: "vid \<noteq> - 1"
    and op: "\<not> open_fails (system s) (get_filename vid)" and r: "get_volume_entry_idx ck s vid = Inr (w, s')"
  shows "nvm_inv ck m s'" "abs_store s' = abs_store s" "sync_frame s s'" "\<forall>v \<in> inuse s. vid_of s' v = vid_of s v"
    "inode_table s' = inode_table s"
  using get_volume_entry_idx_ok [OF inv laws vid op open_room [OF inv vid r]] r by auto

lemma write_block_Inr:
  assumes inv: "nvm_inv ck (Suc m) s" and laws: "cuckoo_laws ck" and v: "unat v \<in> inuse s" and lbn: "lbn \<noteq> - 1"
    and c: "unat c \<le> length buf" "unat c \<le> bsz s" and r: "write_block ck s v lbn lo buf c = Inr (n, s')"
  shows "nvm_inv ck m s'" "write_frame s s' (unat v) lbn"
    "abs_store s' = (abs_store s)(vid_of s (unat v) := (abs_store s (vid_of s (unat v)))
      (lbn := new_data s (unat v) buf (unat c)))"
    "\<forall>i. key s i = Some (unat v, lbn) \<longrightarrow> st s i \<noteq> SYNC"
proof -
  have go: "\<forall>i. key s i = Some (unat v, lbn) \<longrightarrow> st s i \<noteq> SYNC"
    "(\<forall>i. key s i \<noteq> Some (unat v, lbn)) \<longrightarrow> isFreeLFQueueEnough s"
    using write_block_blocked [OF inv v refl, of lbn lo buf c] r by fastforce+
  then show "\<forall>i. key s i = Some (unat v, lbn) \<longrightarrow> st s i \<noteq> SYNC" by blast
  show "nvm_inv ck m s'" "write_frame s s' (unat v) lbn"
    "abs_store s' = (abs_store s)(vid_of s (unat v) := (abs_store s (vid_of s (unat v)))
      (lbn := new_data s (unat v) buf (unat c)))"
    using write_block_ok [OF inv laws lbn v refl c go, of lo] r by auto
qed

lemma sync_one_Inr:
  assumes inv: "nvm_inv ck (Suc m) s" and k: "k = 0 \<or> k = 1" and n: "settled s k (Suc n)" and r: "sync_one s k = Inr s'"
  shows "nvm_inv ck m s'" "abs_store s' = abs_store s" "settled s' k n" "vid_of s' = vid_of s"
    "sync_option s' = sync_option s" "system s' = system s"
    "\<forall>j. j \<noteq> k \<longrightarrow> inode_sync_lfqueue s' ! j = inode_sync_lfqueue s ! j" "key s' = key s" "disk_block s' = disk_block s"
    "st s' = (st s)(hd (idxs (inode_sync_lfqueue s ! k)) := CLEAN)"
  using sync_one_ok [OF inv k n release_room [OF inv k n r]] r by auto

lemma fill_round_Inr:
  assumes inv: "nvm_inv ck (Suc m) s" and k: "k < DEFAULT_NUM_BALLOON" and ne: "\<not> is_empty (inode_clean_lfqueue s ! k)"
    and r: "fill_round ck s k = Inr s'"
  shows "nvm_inv ck m s'" "abs_store s' = abs_store s" "vid_of s' = vid_of s" "sync_frame s s'"
    "\<forall>i. st s' i = st s i \<or> st s i = CLEAN \<and> st s' i = FREE"
proof -
  note I = nvm_invD [OF inv]
  have kl: "k < length (inode_clean_lfqueue s)" using k I(1) by (simp add: shape_inv_def)
  have "lfq_ok (Suc m) (inode_clean_lfqueue s ! k)" using queue_member(4) [OF I(2) kl] by simp
  then have "contents (inode_clean_lfqueue s ! k) \<noteq> []" using ne by (simp add: is_empty_iff lfq_ok_def)
  then show "nvm_inv ck m s'" "abs_store s' = abs_store s" "vid_of s' = vid_of s" "sync_frame s s'"
    "\<forall>i. st s' i = st s i \<or> st s i = CLEAN \<and> st s' i = FREE"
    using fill_round_ok [OF inv k] r by auto
qed

section \<open>Every step keeps the invariant\<close>

lemma budget:
  assumes "Suc n \<le> 2 ^ 50"
  shows "(2 ^ 50 - n) * 1025 = 1025 + (2 ^ 50 - Suc n) * (1025 :: nat)"
  using assms by (simp add: diff_mult_distrib)

lemma syncer: "k < DEFAULT_NUM_SYNCER \<Longrightarrow> k = 0 \<or> k = 1"
  by (auto simp: DEFAULT_NUM_SYNCER_def)

text \<open>A step of a thread that is not a sync thread: the phases stay as they are.\<close>

lemma sys_at_mem:
  assumes S: "sys_at ck (Suc m) S" and s': "nvm_inv ck m s'" "G = abs_store s'" "\<not> io_error (system s')" "sync_option s'"
    and grow: "\<And>k. k < DEFAULT_NUM_SYNCER \<Longrightarrow>
      \<exists>ys. idxs (inode_sync_lfqueue s' ! k) = idxs (inode_sync_lfqueue (mem S) ! k) @ ys"
    and same: "\<And>i v l. st (mem S) i = SYNC \<Longrightarrow> key (mem S) i = Some (v, l) \<Longrightarrow> key s' i = Some (v, l) \<and>
       vid_of s' v = vid_of (mem S) v \<and> disk_block s' (vid_of (mem S) v) l = disk_block (mem S) (vid_of (mem S) v) l \<and>
       abs_store s' (vid_of (mem S) v) l = abs_store (mem S) (vid_of (mem S) v) l"
  shows "sys_at ck m (S\<lparr>mem := s', promised := G\<rparr>)"
proof -
  have "phase_ok s' k (phases S k)" if "k < DEFAULT_NUM_SYNCER" for k
    by (rule phase_keep [OF sys_atD(1) [OF S] s'(1) that sys_atD(5) [OF S that] grow [OF that]]) (rule same)
  then show ?thesis using s' by (simp add: sys_at_def)
qed

lemma at_open:
  assumes S: "sys_at ck (Suc m) S" and laws: "cuckoo_laws ck" and vid: "vid \<noteq> - 1"
    and op: "\<not> open_fails (system (mem S)) (get_filename vid)"
    and r: "get_volume_entry_idx ck (mem S) vid = Inr (v, s')"
  shows "sys_at ck m (S\<lparr>mem := s'\<rparr>)"
proof -
  note D = sys_atD [OF S]
  note O' = get_volume_Inr [OF D(1) laws vid op r]
  note fr = O'(3) [unfolded sync_frame_def]
  have "sys_at ck m (S\<lparr>mem := s', promised := promised S\<rparr>)"
  proof (rule sys_at_mem [OF S O'(1)])
    show "promised S = abs_store s'" "\<not> io_error (system s')" "sync_option s'"
      "\<exists>ys. idxs (inode_sync_lfqueue s' ! k) = idxs (inode_sync_lfqueue (mem S) ! k) @ ys" for k
      using O'(2) fr D(2-4) by simp_all
    show "key s' i = Some (u, l) \<and> vid_of s' u = vid_of (mem S) u \<and>
        disk_block s' (vid_of (mem S) u) l = disk_block (mem S) (vid_of (mem S) u) l \<and>
        abs_store s' (vid_of (mem S) u) l = abs_store (mem S) (vid_of (mem S) u) l"
      if "st (mem S) i = SYNC" "key (mem S) i = Some (u, l)" for i u l
      using fr O'(2,4) key_inuse [OF nvm_invD(9) [OF D(1)] that(2)] that by simp
  qed
  then show ?thesis by simp
qed

lemma at_write:
  assumes S: "sys_at ck (Suc m) S" and laws: "cuckoo_laws ck" and v: "unat v \<in> inuse (mem S)" and lbn: "lbn \<noteq> - 1"
    and c: "unat c \<le> length buf" "unat c \<le> bsz (mem S)" and r: "write_block ck (mem S) v lbn lo buf c = Inr (n, s')"
    and G': "G' = (promised S)(vid_of (mem S) (unat v) := (promised S (vid_of (mem S) (unat v)))
           (lbn := new_data (mem S) (unat v) buf (unat c)))"
  shows "sys_at ck m (S\<lparr>mem := s', promised := G'\<rparr>)"
proof (rule sys_at_mem [OF S])
  let ?v = "unat v"
  note D = sys_atD [OF S] and I = nvm_invD [OF sys_atD(1) [OF S]]
  note W' = write_block_Inr [OF D(1) laws v lbn c r]
  note fr = W'(2) [unfolded write_frame_def]
  obtain j where j: "st (mem S) j \<noteq> SYNC" "key s' = (key (mem S))(j \<mapsto> (?v, lbn))" using fr by blast
  show "nvm_inv ck m s'" "G' = abs_store s'" "\<not> io_error (system s')" "sync_option s'"
    using W' fr D(2-4) G' by simp_all
  show "\<exists>ys. idxs (inode_sync_lfqueue s' ! k) = idxs (inode_sync_lfqueue (mem S) ! k) @ ys" for k
    using fr by simp
  fix i u l assume sy: "st (mem S) i = SYNC" and ky: "key (mem S) i = Some (u, l)"
  have "i \<noteq> j" using sy j(1) by blast
  then have ks: "key s' i = Some (u, l)" using ky j(2) by simp
  have db: "disk_block s' = disk_block (mem S)" using fr by (simp add: disk_block_def fun_eq_iff)
  have "\<not> (vid_of (mem S) u = vid_of (mem S) ?v \<and> l = lbn)"
  proof
    assume a: "vid_of (mem S) u = vid_of (mem S) ?v \<and> l = lbn"
    have "inj_on (vid_of (mem S)) (inuse (mem S))" using I(8) by (simp add: volume_inv_def)
    then have "u = ?v" using a key_inuse [OF I(9) ky] v by (meson inj_onD)
    then show False using W'(4) ky sy a by blast
  qed
  then have "abs_store s' (vid_of (mem S) u) l = abs_store (mem S) (vid_of (mem S) u) l" using W'(3) by auto
  then show "key s' i = Some (u, l) \<and> vid_of s' u = vid_of (mem S) u \<and>
      disk_block s' (vid_of (mem S) u) l = disk_block (mem S) (vid_of (mem S) u) l \<and>
      abs_store s' (vid_of (mem S) u) l = abs_store (mem S) (vid_of (mem S) u) l"
    using ks db fr by simp
qed

lemma at_flush:
  assumes S: "sys_at ck (1025 + m) S" and r: "flush_thread_round (mem S) = Inr s'"
  shows "sys_at ck m (S\<lparr>mem := s'\<rparr>)"
proof -
  note D = sys_atD [OF S]
  have F: "nvm_inv ck m s'" "abs_store s' = abs_store (mem S)" "flush_moves (mem S) s'"
    using flush_thread_round_ok [OF D(1,3)] r by auto
  have "sys_at ck m (S\<lparr>mem := s', promised := promised S\<rparr>)"
    by (rule sys_at_mem [OF sys_at_less [OF S] F(1)]) (use F(2) F(3) [unfolded flush_moves_def] D(2-4) in simp_all)
  then show ?thesis by simp
qed

lemma at_balloon:
  assumes S: "sys_at ck (Suc m) S" and k: "k < DEFAULT_NUM_BALLOON" and ne: "\<not> is_empty (inode_clean_lfqueue (mem S) ! k)"
    and r: "fill_round ck (mem S) k = Inr s'"
  shows "sys_at ck m (S\<lparr>mem := s'\<rparr>)"
proof -
  note D = sys_atD [OF S]
  note B' = fill_round_Inr [OF D(1) k ne r]
  have "sys_at ck m (S\<lparr>mem := s', promised := promised S\<rparr>)"
    by (rule sys_at_mem [OF S B'(1)]) (use B'(2,3) B'(4) [unfolded sync_frame_def] D(2-4) in simp_all)
  then show ?thesis by simp
qed

lemma at_monitor:
  assumes S: "sys_at ck (Suc m) S" and r: "nvm_monitor num_flush now later (counter, mem S) = Inr (out, counter', s')"
  shows "sys_at ck m (S\<lparr>mem := s'\<rparr>)"
proof -
  note D = sys_atD [OF S]
  obtain x where x: "s' = (mem S)\<lparr>mon := x\<rparr>" using nvm_monitor_mon [OF r] by blast
  have "nvm_inv ck m (mem S)" using nvm_inv_less [OF D(1)] by simp
  then have "sys_at ck m (S\<lparr>mem := s', promised := promised S\<rparr>)"
    by (intro sys_at_mem [OF S]) (use D(2-4) in \<open>simp_all add: x monitor_irrelevant\<close>)
  then show ?thesis by simp
qed

text \<open>The steps of a sync thread.\<close>

lemma at_begin:
  assumes S: "sys_at ck m S" and k: "k < DEFAULT_NUM_SYNCER"
  shows "sys_at ck m (S\<lparr>phases := (phases S)(k := Sized (unat (get_size (inode_sync_lfqueue (mem S) ! k))))\<rparr>)"
proof -
  note I = nvm_invD [OF sys_atD(1) [OF S]]
  have "k < length (inode_sync_lfqueue (mem S))" using k I(1) by (simp add: shape_inv_def)
  then have ok: "lfq_ok m (inode_sync_lfqueue (mem S) ! k)" using queue_member(3) [OF I(2)] by simp
  have "phase_ok (mem S) k (Sized (unat (get_size (inode_sync_lfqueue (mem S) ! k))))"
    using lfq.size_waiting [OF ok] by (simp add: phase_ok_def idxs_def)
  with S show ?thesis by (simp add: sys_at_def)
qed

lemma at_call:
  assumes S: "sys_at ck m S" and k: "k < DEFAULT_NUM_SYNCER" "phases S k = Sized n"
  shows "sys_at ck m (S\<lparr>mem := sync_files (mem S), phases := (phases S)(k := Releasing n)\<rparr>)"
proof -
  let ?s = "mem S" and ?s' = "sync_files (mem S)"
  note D = sys_atD [OF S]
  note F = sync_files_inv [OF D(1)] and I = nvm_invD [OF D(1)]
  have f: "inode_sync_lfqueue ?s' = inode_sync_lfqueue ?s" "io_error (system ?s') = io_error (system ?s)"
    "sync_option ?s' = sync_option ?s" "st ?s' = st ?s" "key ?s' = key ?s" "vid_of ?s' = vid_of ?s"
    "data_of ?s' = data_of ?s" "disk_block ?s' = file_block ?s"
    using D(4)
    by (simp_all add: sync_files_def sys_sync_def fun_eq_iff st_def key_def vid_of_def data_of_def disk_block_def file_block_def)
  have db: "disk_block ?s' (vid_of ?s v) l = data_of ?s i" if "st ?s i = SYNC" "key ?s i = Some (v, l)" for i v l
    using I(10) that unfolding f disk_inv_def by blast
  have "phase_ok ?s' j (((phases S)(k := Releasing n)) j)" if j: "j < DEFAULT_NUM_SYNCER" for j
  proof -
    have set: "settled ?s' j p" if "p \<le> length (idxs (inode_sync_lfqueue ?s ! j))" for p
      using that db sync_queue_state [OF I(6) syncer [OF j]] unfolding settled_def f by (meson in_set_takeD)
    show ?thesis
      using D(5) [OF j] k(2) set by (cases "j = k") (auto simp: phase_ok_def settled_def f split: phase.splits)
  qed
  then show ?thesis using F D f by (simp add: sys_at_def)
qed

lemma at_release:
  assumes S: "sys_at ck (Suc m) S" and k: "k < DEFAULT_NUM_SYNCER" "phases S k = Releasing (Suc n)"
    and r: "sync_one (mem S) k = Inr s'"
  shows "sys_at ck m (S\<lparr>mem := s', phases := (phases S)(k := Releasing n)\<rparr>)"
proof -
  note D = sys_atD [OF S]
  have sd: "settled (mem S) k (Suc n)" using D(5) [OF k(1)] k(2) by (simp add: phase_ok_def)
  note R' = sync_one_Inr [OF D(1) syncer [OF k(1)] sd r]
  have "phase_ok s' j (((phases S)(k := Releasing n)) j)" if j: "j < DEFAULT_NUM_SYNCER" for j
  proof (cases "j = k")
    case True
    then show ?thesis using R'(3) by (simp add: phase_ok_def)
  next
    case False
    then show ?thesis using phase_keep [OF D(1) R'(1) j D(5) [OF j]] R' by simp
  qed
  then show ?thesis using R' D by (simp add: sys_at_def)
qed

lemma sys_step_inv:
  assumes laws: "cuckoo_laws ck" and S: "sys_inv ck n S" and n: "Suc n \<le> 2 ^ 50" and st: "sys_step ck S T"
  shows "sys_inv ck (Suc n) T"
proof -
  define m where "m = (2 ^ 50 - Suc n) * (1025 :: nat)"
  have S': "sys_at ck (1025 + m) S" using S budget [OF n] by (simp add: sys_inv_def m_def)
  have S1: "sys_at ck (Suc m) S" and S0: "sys_at ck m S" using sys_at_less [OF S'] by simp_all
  from st have "sys_at ck m T"
  proof cases
    case open_volume
    then show ?thesis using at_open [OF S1 laws] by simp
  next
    case write_step
    then show ?thesis using at_write [OF S1 laws] by simp
  next
    case flush
    then show ?thesis using at_flush [OF S'] by simp
  next
    case sync_begin
    then show ?thesis using at_begin [OF S0] by simp
  next
    case sync_call
    then show ?thesis using at_call [OF S0] by simp
  next
    case sync_release
    then show ?thesis using at_release [OF S1] by simp
  next
    case sync_end
    then show ?thesis using S0 by (simp add: sys_at_def phase_ok_def)
  next
    case balloon
    then show ?thesis using at_balloon [OF S1] by simp
  next
    case monitor_round
    then show ?thesis using at_monitor [OF S1] by simp
  qed
  then show ?thesis by (simp add: sys_inv_def m_def)
qed

text \<open>How an inode's state can change in a step.\<close>

definition inode_edge :: "inode_state \<Rightarrow> inode_state \<Rightarrow> bool" where
  "inode_edge a b \<longleftrightarrow> a = b \<or>
     (a, b) \<in> {(FREE, DIRTY), (CLEAN, DIRTY), (DIRTY, SYNC), (SYNC, CLEAN), (CLEAN, FREE)}"

lemma sys_step_edge:
  assumes laws: "cuckoo_laws ck" and S: "sys_inv ck n S" and n: "Suc n \<le> 2 ^ 50" and st: "sys_step ck S T"
  shows "inode_edge (st (mem S) i) (st (mem T) i)"
proof -
  define m where "m = (2 ^ 50 - Suc n) * (1025 :: nat)"
  have inv: "nvm_inv ck (1025 + m) (mem S)" and env: "\<not> io_error (system (mem S))"
    and ph: "\<And>k. k < DEFAULT_NUM_SYNCER \<Longrightarrow> phase_ok (mem S) k (phases S k)"
    using S budget [OF n] by (simp_all add: sys_inv_def sys_at_def m_def)
  have inv1: "nvm_inv ck (Suc m) (mem S)" using nvm_inv_less [OF inv] by simp
  from st show ?thesis
  proof cases
    case (open_volume vid v s')
    from get_volume_Inr(5) [OF inv1 laws open_volume(2-4)] show ?thesis
      by (simp add: open_volume(1) st_def inode_edge_def)
  next
    case (write_step v lbn c buf lo n' s' G')
    obtain j where "st (mem S) j \<noteq> SYNC" "st s' = (st (mem S))(j := DIRTY)"
      using write_block_Inr(2) [OF inv1 laws write_step(2-6)] unfolding write_frame_def by blast
    then show ?thesis by (cases "st (mem S) j") (auto simp: write_step(1) inode_edge_def)
  next
    case (flush s')
    from flush_thread_round_ok [OF inv env] flush(2) have "flush_moves (mem S) s'" by auto
    then have "st s' i = st (mem S) i \<or> st (mem S) i = DIRTY \<and> st s' i = SYNC" by (simp add: flush_moves_def)
    then show ?thesis by (auto simp: flush(1) inode_edge_def)
  next
    case (sync_call k n')
    then show ?thesis by (simp add: sync_files_def st_def inode_edge_def)
  next
    case (sync_release k n' s')
    have k: "k = 0 \<or> k = 1" using sync_release(2) by (auto simp: DEFAULT_NUM_SYNCER_def)
    have sd: "settled (mem S) k (Suc n')" using ph [OF sync_release(2)] sync_release(3) by (simp add: phase_ok_def)
    then have "hd (idxs (inode_sync_lfqueue (mem S) ! k)) \<in> set (idxs (inode_sync_lfqueue (mem S) ! k))"
      by (cases "idxs (inode_sync_lfqueue (mem S) ! k)") (auto simp: settled_def)
    then have "st (mem S) (hd (idxs (inode_sync_lfqueue (mem S) ! k))) = SYNC"
      using sync_queue_state(2) [OF nvm_invD(6) [OF inv1] k] by blast
    with sync_one_Inr(10) [OF inv1 k sd sync_release(4)] show ?thesis by (auto simp: sync_release(1) inode_edge_def)
  next
    case (balloon k s')
    have "st s' i = st (mem S) i \<or> st (mem S) i = CLEAN \<and> st s' i = FREE"
      using fill_round_Inr(5) [OF inv1 balloon(2-4)] by blast
    then show ?thesis by (auto simp: balloon(1) inode_edge_def)
  next
    case (monitor_round num_flush now later counter out counter' s')
    obtain x where "s' = (mem S)\<lparr>mon := x\<rparr>" using nvm_monitor_mon [OF monitor_round(2)] by blast
    then show ?thesis by (simp add: monitor_round(1) monitor_irrelevant inode_edge_def)
  qed (simp_all add: inode_edge_def)
qed

lemma sys_start_inv:
  assumes "sys_start S"
  shows "sys_inv ck 0 S"
proof -
  obtain raw s0 where s0: "boot_ok s0" "\<not> io_error (system s0)" "sync_option s0"
    "nvm_system_init raw s0 = Inr (mem S)" "promised S = file_block s0" "phases S = (\<lambda>_. Idle)"
    using assms unfolding sys_start_def by blast
  have "(2 ^ 50 - 0) * 1025 \<le> (2 ^ 61 :: nat)" by simp
  from nvm_system_init_ok [OF s0(1) this, of raw ck] s0 show ?thesis
    by (auto simp: sys_inv_def sys_at_def phase_ok_def)
qed

text \<open>The induction over runs is that of the locale; the laws of the map are part of the start.\<close>

interpretation nvm_runs: invariant_system "\<lambda>S. cuckoo_laws ck \<and> sys_start S" "sys_step ck" "\<lambda>n. n \<le> 2 ^ 50"
  "\<lambda>n S. cuckoo_laws ck \<and> sys_inv ck n S" for ck
  by unfold_locales (auto intro: sys_start_inv sys_step_inv)

definition sys_reach :: "'m cuckoo \<Rightarrow> nat \<Rightarrow> 'm sys \<Rightarrow> bool" where
  "sys_reach ck n S \<longleftrightarrow> reach (\<lambda>S. cuckoo_laws ck \<and> sys_start S) (sys_step ck) n S"

lemma sys_reach_inv: "sys_reach ck n S \<Longrightarrow> n \<le> 2 ^ 50 \<Longrightarrow> sys_inv ck n S"
  unfolding sys_reach_def using nvm_runs.reach_inv by blast

end
