(* ===== verification/NVM_Races.thy ===== *)
theory NVM_Races
  imports NVM_Example
begin

text \<open>
  Two places of the durable write that its locks do not cover. The block that a volume keeps for
  the next copy is shared by all writers of the volume, while each holds only the locks of its own
  inode and hash node; and a block that has no hash node yet is looked up under no lock at all.
  Here the accesses of two writers are separate steps.
\<close>

section \<open>The volume's spare block\<close>

text \<open>
  Where a writer is in \<open>writeDataToNvmBlock\<close>: it has read the index of the spare block, copied
  the data, given the volume the inode's old block, or given the inode the new one.
\<close>

datatype shadow_pc = Start | Chosen u32 | Copied u32 | Exchanged u32 | Finished

fun shadow_step :: "'m nvm \<Rightarrow> nat \<Rightarrow> u8 list \<Rightarrow> u64 \<Rightarrow> shadow_pc \<Rightarrow> ('m nvm \<times> shadow_pc) res" where
  "shadow_step s i ptr count Start =
     rbind (at_index (inode_table s) i) (\<lambda>inode.
     rbind (deref_idx (volume_table s) (in_volume inode)) (\<lambda>ve. Inr (s, Chosen (ve_block ve))))"
| "shadow_step s i ptr count (Chosen b) = rbind (store_block s b ptr count) (\<lambda>s'. Inr (s', Copied b))"
| "shadow_step s i ptr count (Copied b) =
     rbind (at_index (inode_table s) i) (\<lambda>inode.
     case in_volume inode of None \<Rightarrow> Inl NullDeref
     | Some v \<Rightarrow> rbind (store_volume_block s v (in_block inode)) (\<lambda>s'. Inr (s', Exchanged b)))"
| "shadow_step s i ptr count (Exchanged b) = rbind (store_inode_block s i b) (\<lambda>s'. Inr (s', Finished))"
| "shadow_step s i ptr count Finished = Inr (s, Finished)"

text \<open>A schedule lists whose turn it is. Writer \<open>w\<close> writes \<open>snd (W w)\<close> to inode \<open>fst (W w)\<close>.\<close>

fun shadow_run :: "'m nvm \<Rightarrow> (nat \<Rightarrow> nat \<times> u8 list) \<Rightarrow> u64 \<Rightarrow> (nat \<Rightarrow> shadow_pc) \<Rightarrow> nat list \<Rightarrow>
    ('m nvm \<times> (nat \<Rightarrow> shadow_pc)) res" where
  "shadow_run s W count pcs [] = Inr (s, pcs)"
| "shadow_run s W count pcs (w # ws) =
     rbind (shadow_step s (fst (W w)) (snd (W w)) count (pcs w)) (\<lambda>(s', pc).
       shadow_run s' W count (pcs(w := pc)) ws)"

text \<open>One writer undisturbed does what the function does.\<close>

lemma shadow_solo:
  assumes "unat idx = i"
  shows "shadow_run s (\<lambda>_. (i, ptr)) count (\<lambda>_. Start) [0, 0, 0, 0] =
    rbind (writeDataToNvmBlock s idx offset ptr count) (\<lambda>(n, s'). Inr (s', (\<lambda>_. Start)(0 := Finished)))"
  using assms
  by (auto simp: writeDataToNvmBlock_def store_block_def store_volume_block_def store_inode_block_def
      at_index_def rbind_def deref_idx_def split: option.splits sum.splits)

text \<open>The states in which two inodes of one volume can be written.\<close>

lemma shadow_pair:
  assumes "nvm_inv ck m s" "key s i = Some (v, l)" "key s j = Some (v, l')" "i \<noteq> j"
  defines "b \<equiv> unat (ve_block (volume_table s ! v))"
  shows "v < length (volume_table s)" "i < length (inode_table s)" "j < length (inode_table s)"
    "in_volume (inode_table s ! i) = Some v" "in_volume (inode_table s ! j) = Some v"
    "b < length (block_table s)" "length (block_table s ! b) = bsz s"
    "unat (in_block (inode_table s ! i)) < length (block_table s)"
    "length (block_table s ! unat (in_block (inode_table s ! i))) = bsz s"
    "unat (in_block (inode_table s ! i)) \<noteq> b"
proof -
  note I = nvm_invD [OF assms(1)] and K = key_Some [OF assms(2)] and L = key_Some [OF assms(3)]
  have vV: "v < nV s" using inuse_less [OF key_inuse [OF I(9) assms(2)]] .
  have len: "length (inode_table s) = nI s" "length (volume_table s) = nV s"
    using I(1) by (simp_all add: shape_inv_def)
  show bounds: "v < length (volume_table s)" "i < length (inode_table s)" "j < length (inode_table s)"
    using vV K(1) L(1) len by simp_all
  show "in_volume (inode_table s ! i) = Some v" "in_volume (inode_table s ! j) = Some v" using K L by simp_all
  show b: "b < length (block_table s)" using owner_block(2) [OF I(1,3) vV] by (simp add: b_def)
  show bi: "unat (in_block (inode_table s ! i)) < length (block_table s)" using owner_block(1) [OF I(1,3) K(1)] .
  show "length (block_table s ! b) = bsz s" "length (block_table s ! unat (in_block (inode_table s ! i))) = bsz s"
    using b bi I(1) by (simp_all add: shape_inv_def)
  show "unat (in_block (inode_table s ! i)) \<noteq> b"
    using inode_not_spare [OF I(3) bounds(2,1)] by (simp add: b_def)
qed

lemma shared_block_not_distinct:
  assumes "i < length (inode_table s)" "j < length (inode_table s)" "i \<noteq> j"
    "in_block (inode_table s ! i) = in_block (inode_table s ! j)"
  shows "\<not> block_inv s"
proof
  assume "block_inv s"
  then have "distinct (map in_block (inode_table s))" by (simp add: block_inv_def block_owners_def)
  then have "in_block (inode_table s ! i) = in_block (inode_table s ! j) \<longleftrightarrow> i = j"
    using assms(1,2) by (simp add: distinct_conv_nth) metis
  with assms(3,4) show False by simp
qed

text \<open>C10. Two writers of different blocks of one volume are not kept apart by their locks. One after
  the other each gets its data. But when both have read the index of the volume's spare block before
  either exchanges it, both inodes end with the same block, which holds the data of the second
  copy: the first write is lost although it returned, and a block has no owner any more.\<close>
theorem shadow_block_race:
  assumes "nvm_inv ck m s" "key s i = Some (v, l)" "key s j = Some (v, l')" "i \<noteq> j"
    "unat count \<le> length x" "unat count \<le> length y" "unat count \<le> bsz s"
  defines "W \<equiv> \<lambda>w :: nat. if w = 0 then (i, x) else (j, y)"
  shows "\<exists>s' t pcs. shadow_run s W count (\<lambda>_. Start) [0, 0, 0, 0, 1, 1, 1, 1] = Inr (s', pcs) \<and>
      take (unat count) (data_of s' i) = take (unat count) x \<and> take (unat count) (data_of s' j) = take (unat count) y \<and>
    shadow_run s W count (\<lambda>_. Start) [0, 1, 0, 1, 0, 0, 1, 1] = Inr (t, pcs) \<and>
      data_of t i = data_of t j \<and> take (unat count) (data_of t i) = take (unat count) y \<and> \<not> block_inv t \<and>
    pcs 0 = Finished \<and> pcs 1 = Finished"
proof -
  note P = shadow_pair [OF assms(1-4)]
  let ?n = "unat count" and ?b = "ve_block (volume_table s ! v)" and ?c = "in_block (inode_table s ! i)"
  let ?d = "in_block (inode_table s ! j)" and ?B = "block_table s"
  let ?I = "\<lambda>w. (inode_table s)[i := (inode_table s ! i)\<lparr>in_block := ?b\<rparr>, j := (inode_table s ! j)\<lparr>in_block := w\<rparr>]"
  let ?V = "(volume_table s)[v := (volume_table s ! v)\<lparr>ve_block := ?d\<rparr>]"
  let ?s = "s\<lparr>block_table := ?B[unat ?b := take ?n x @ drop ?n (?B ! unat ?b), unat ?c := take ?n y @ drop ?n (?B ! unat ?c)],
    volume_table := ?V, inode_table := ?I ?c\<rparr>"
  let ?t = "s\<lparr>block_table := ?B[unat ?b := take ?n y @ drop ?n (?B ! unat ?b)], volume_table := ?V, inode_table := ?I ?b\<rparr>"
  let ?pcs = "(\<lambda>_. Start)(0 := Finished, 1 := Finished)"
  note ev = store_block_def store_volume_block_def store_inode_block_def W_def
  have s: "shadow_run s W count (\<lambda>_. Start) [0, 0, 0, 0, 1, 1, 1, 1] = Inr (?s, ?pcs)"
    using P assms(4-7) by (simp add: ev)
  have t: "shadow_run s W count (\<lambda>_. Start) [0, 1, 0, 1, 0, 0, 1, 1] = Inr (?t, ?pcs)"
    using P assms(4-7) by (simp add: ev)
  have "\<not> block_inv ?t"
    by (rule shared_block_not_distinct [of i _ j]) (use P(2,3) assms(4) in simp_all)
  moreover have "data_of ?t i = take ?n y @ drop ?n (?B ! unat ?b)" "data_of ?t j = take ?n y @ drop ?n (?B ! unat ?b)"
    using P assms(4) by (simp_all add: data_of_def)
  moreover have "data_of ?s i = take ?n x @ drop ?n (?B ! unat ?b)" "data_of ?s j = take ?n y @ drop ?n (?B ! unat ?c)"
    using P assms(4) by (simp_all add: data_of_def)
  ultimately show ?thesis
    using s t assms(5,6) by (intro exI [of _ ?s] exI [of _ ?t] exI [of _ ?pcs]) simp
qed

theorem shadow_block_race_witness:
  "\<exists>i j t pcs. i \<noteq> j \<and> key demo3 i = Some (unat demo_volume, 3) \<and> key demo3 j = Some (unat demo_volume, 4) \<and>
    shadow_run demo3 (\<lambda>w. if w = 0 then (i, [1, 1]) else (j, [2, 2])) 2 (\<lambda>_. Start) [0, 1, 0, 1, 0, 0, 1, 1] = Inr (t, pcs) \<and>
    take 2 (data_of t i) = [2, 2]"
proof -
  obtain i j where ij: "i \<noteq> j" "key demo3 = [i \<mapsto> (unat demo_volume, 3), j \<mapsto> (unat demo_volume, 4)]"
    using demo3(12) by blast
  then have k: "key demo3 i = Some (unat demo_volume, 3)" "key demo3 j = Some (unat demo_volume, 4)" by simp_all
  have "unat (2 :: u64) \<le> length [1, 1 :: u8]" "unat (2 :: u64) \<le> length [2, 2 :: u8]" "unat (2 :: u64) \<le> bsz demo3"
    by (simp_all add: demo3(9))
  from shadow_block_race [OF demo3(2) k ij(1) this] obtain t :: "(u32 \<Rightarrow> nat option) nvm" and pcs where
    "shadow_run demo3 (\<lambda>w. if w = 0 then (i, [1, 1]) else (j, [2, 2])) 2 (\<lambda>_. Start) [0, 1, 0, 1, 0, 0, 1, 1] = Inr (t, pcs)"
    "take (unat (2 :: u64)) (data_of t i) = take (unat (2 :: u64)) [2, 2]"
    by (elim exE conjE) (rule that, assumption+)
  with ij(1) k show ?thesis by (intro exI [of _ i] exI [of _ j] exI [of _ t] exI [of _ pcs]) simp
qed

section \<open>The first write of a block\<close>

text \<open>
  \<open>get_hash_node_with_lock\<close> in two steps: the search, and what follows when it found no valid node.
\<close>

definition install_hash_node :: "'m cuckoo \<Rightarrow> 'm nvm \<Rightarrow> nat \<Rightarrow> u32 \<Rightarrow> nat option \<Rightarrow> (nat \<times> 'm nvm) res" where
  "install_hash_node ck s v lbn hash_node =
     rbind (at_index (volume_table s) v) (\<lambda>ve.
     case ve_table ve of None \<Rightarrow> Inl NullDeref
     | Some table \<Rightarrow>
         if \<not> isFreeLFQueueEnough s then Inl Blocked
         else rbind (getFreeInodeFromFreeLFQueue s v lbn) (\<lambda>(i_idx, s1).
            case hash_node of
              None \<Rightarrow>
                let a = next_node s1 in
                rbind (new_hash_node (inode_table s1) (nodes s1) a (Some (unat i_idx))) (\<lambda>h.
                rbind (insert_hash_node ck (inode_table s1) h table a) (\<lambda>table'.
                rbind (lock_node (s1\<lparr>nodes := h, next_node := a + 1,
                    volume_table := (volume_table s1)[v := ve\<lparr>ve_table := Some table'\<rparr>]\<rparr>) a) (\<lambda>s2.
                  Inr (a, s2))))
            | Some a \<Rightarrow>
                rbind (validate_hash_node (inode_table s1) (nodes s1) hash_node (Some (unat i_idx))) (\<lambda>h.
                rbind (lock_node (s1\<lparr>nodes := h\<rparr>) a) (\<lambda>s2. Inr (a, s2)))))"

lemma get_hash_node_split:
  assumes "v < length (volume_table s)" "ve_table (volume_table s ! v) = Some table"
    "isValidNode s (search_hash_node ck table lbn) = Inr False"
  shows "get_hash_node_with_lock ck s v lbn = install_hash_node ck s v lbn (search_hash_node ck table lbn)"
  using assms by (simp add: get_hash_node_with_lock_def install_hash_node_def Let_def)

lemma next_queue: "rr (x + 1) DEFAULT_NUM_FREE = 1 - rr x DEFAULT_NUM_FREE"
proof -
  have "unat (x + 1) mod 2 = (unat x + 1) mod 2"
    by (simp add: unat_word_ariths mod_mod_cancel)
  then show ?thesis unfolding rr_2 by presburger
qed

text \<open>What the second step leaves when the search found nothing.\<close>

definition installed :: "'m cuckoo \<Rightarrow> 'm nvm \<Rightarrow> nat \<Rightarrow> u32 \<Rightarrow> 'm hash_table \<Rightarrow> u32 \<Rightarrow> u32 lfqueue list \<Rightarrow> 'm nvm" where
  "installed ck s v lbn t w qs = s\<lparr>free_dequeue_idx := free_dequeue_idx s + 1, inode_free_lfqueue := qs,
     inode_table := (inode_table s)[unat w := (inode_table s ! unat w)\<lparr>in_lbn := lbn, in_volume := Some v\<rparr>],
     inode_free_count := inode_free_count s - 1,
     nodes := (nodes s)(next_node s \<mapsto> \<lparr>hn_inode = Some (unat w), hn_lbn = lbn, hn_is_valid = True,
       hn_mutex = True, hn_prev = None, hn_next = None\<rparr>), next_node := next_node s + 1,
     volume_table := (volume_table s)[v := (volume_table s ! v)
       \<lparr>ve_table := Some (t\<lparr>ht_map := ck_assign ck (ht_map t) lbn (next_node s)\<rparr>)\<rparr>]\<rparr>"

lemma install_new:
  assumes "v < length (volume_table s)" "ve_table (volume_table s ! v) = Some t" "isFreeLFQueueEnough s"
    "deq_at (inode_free_lfqueue s) (rr (free_dequeue_idx s) DEFAULT_NUM_FREE) = Inr (w, qs)"
    "unat w < length (inode_table s)"
  shows "install_hash_node ck s v lbn None = Inr (next_node s, installed ck s v lbn t w qs)"
  using assms
  by (simp add: install_hash_node_def getFreeInodeFromFreeLFQueue_def Let_def new_hash_node_def
      insert_hash_node_def lock_node_def installed_def)

lemma deq_at_other: "k \<noteq> k' \<Longrightarrow> deq_at qs k = Inr (w, qs') \<Longrightarrow> deq_at (qs[k' := q]) k = Inr (w, qs'[k' := q])"
  by (auto simp: deq_at_def rbind_Inr_iff at_index_Inr_iff list_update_swap)

lemma one_free_inode:
  assumes inv: "nvm_inv ck m s" and enough: "isFreeLFQueueEnough s"
  shows "\<exists>x q. deq_at (inode_free_lfqueue s) (rr k DEFAULT_NUM_FREE) =
      Inr (x, (inode_free_lfqueue s)[rr k DEFAULT_NUM_FREE := q]) \<and>
    unat x \<in> set (idxs (inode_free_lfqueue s ! rr k DEFAULT_NUM_FREE)) \<and>
    unat x < nI s \<and> st s (unat x) = FREE"
proof -
  note I = nvm_invD [OF inv]
  have k: "rr k DEFAULT_NUM_FREE < length (inode_free_lfqueue s)"
    using I(1) by (simp add: shape_inv_def DEFAULT_NUM_FREE_def rr_less)
  obtain w ws where w: "contents (inode_free_lfqueue s ! rr k DEFAULT_NUM_FREE) = w # ws"
    using free_queues_nonempty [OF I(4) enough] by (meson list.exhaust)
  have i: "unat w \<in> set (idxs (inode_free_lfqueue s ! rr k DEFAULT_NUM_FREE))" by (simp add: idxs_def w)
  obtain q where q: "deq_at (inode_free_lfqueue s) (rr k DEFAULT_NUM_FREE) =
      Inr (w, (inode_free_lfqueue s)[rr k DEFAULT_NUM_FREE := q])"
    using deq_at_ok [OF k _ w] queue_member(1) [OF I(2) k] by blast
  have "rr k DEFAULT_NUM_FREE = 0 \<or> rr k DEFAULT_NUM_FREE = 1" by (auto simp: rr_2)
  then have "unat w \<in> set (idxs (inode_free_lfqueue s ! 0) @ idxs (inode_free_lfqueue s ! 1))" using i by auto
  then have "unat w < nI s \<and> st s (unat w) = FREE" using I(4) by (simp only: free_inv_def Let_def mem_Collect_eq)
  with i q show ?thesis by blast
qed

lemma two_free_inodes:
  assumes inv: "nvm_inv ck (Suc m) s" and enough: "isFreeLFQueueEnough s"
  shows "\<exists>x y q qs. deq_at (inode_free_lfqueue s) (rr n DEFAULT_NUM_FREE) =
      Inr (x, (inode_free_lfqueue s)[rr n DEFAULT_NUM_FREE := q]) \<and>
    deq_at ((inode_free_lfqueue s)[rr n DEFAULT_NUM_FREE := q]) (rr (n + 1) DEFAULT_NUM_FREE) = Inr (y, qs) \<and>
    unat x < nI s \<and> unat y < nI s \<and> unat x \<noteq> unat y"
proof -
  note I = nvm_invD [OF inv]
  note deq = one_free_inode [OF inv enough]
  let ?k = "rr n DEFAULT_NUM_FREE" and ?k' = "rr (n + 1) DEFAULT_NUM_FREE"
  obtain x q where x: "deq_at (inode_free_lfqueue s) ?k = Inr (x, (inode_free_lfqueue s)[?k := q])"
    "unat x \<in> set (idxs (inode_free_lfqueue s ! ?k))" using deq by blast
  obtain y p where y: "deq_at (inode_free_lfqueue s) ?k' = Inr (y, (inode_free_lfqueue s)[?k' := p])"
    "unat y \<in> set (idxs (inode_free_lfqueue s ! ?k'))" using deq by blast
  have k1: "?k' \<noteq> ?k" unfolding next_queue unfolding rr_2 by presburger
  have k: "?k' \<noteq> ?k" "?k = 0 \<or> ?k = 1" "?k' = 1 - ?k" using k1 by (auto simp: rr_2 next_queue)
  note F = I(4) [unfolded free_inv_def Let_def, THEN conjunct1] I(4) [unfolded free_inv_def Let_def, THEN conjunct2, THEN conjunct1]
  have sub: "set (idxs (inode_free_lfqueue s ! j)) \<subseteq> {i. i < nI s \<and> st s i = FREE}" if "j = 0 \<or> j = 1" for j
    unfolding F(2) [symmetric] using that by auto
  have k': "?k' = 0 \<or> ?k' = 1" using k(2,3) by auto
  have dis: "set (idxs (inode_free_lfqueue s ! ?k)) \<inter> set (idxs (inode_free_lfqueue s ! ?k')) = {}"
    using k(2) F(1) unfolding k(3) by (elim disjE) (simp_all add: Int_commute)
  have "unat x \<noteq> unat y" using dis x(2) y(2) by (metis IntI emptyE)
  moreover have "unat x < nI s" "unat y < nI s" using subsetD [OF sub [OF k(2)] x(2)] subsetD [OF sub [OF k'] y(2)] by simp_all
  ultimately show ?thesis using x(1) deq_at_other [OF k(1) y(1)] by blast
qed

text \<open>C11. Two writers of a block that no node stands for yet: when both searches come before either
  insertion, each gets a locked, valid node of its own for the same block, with an inode of its
  own, and the hash table keeps the second. The first writer's data can no longer be found.\<close>
theorem first_write_race:
  assumes "nvm_inv ck (Suc m) s" "cuckoo_laws ck" "v \<in> inuse s" "lookup ck s v lbn = None"
    "101 \<le> unat (inode_free_count s)"
  shows "\<exists>s1 t a b n n' i j. install_hash_node ck s v lbn None = Inr (a, s1) \<and> install_hash_node ck s1 v lbn None = Inr (b, t) \<and>
    nodes t a = Some n \<and> nodes t b = Some n' \<and> hn_is_valid n \<and> hn_is_valid n' \<and>
    hn_inode n = Some i \<and> hn_inode n' = Some j \<and> i \<noteq> j \<and>
    in_lbn (inode_table t ! i) = lbn \<and> in_lbn (inode_table t ! j) = lbn \<and>
    in_volume (inode_table t ! i) = Some v \<and> in_volume (inode_table t ! j) = Some v \<and>
    lookup ck t v lbn = Some b \<and> a \<noteq> b"
proof -
  note I = nvm_invD [OF assms(1)]
  have enough: "isFreeLFQueueEnough s"
    using assms(5) by (simp add: isFreeLFQueueEnough_def DEFAULT_FREE_MIN_COUNT_def word_le_nat_alt)
  have vV: "v < nV s" using inuse_less [OF assms(3)] .
  have len: "length (inode_table s) = nI s" "length (volume_table s) = nV s" using I(1) by (simp_all add: shape_inv_def)
  obtain h where h: "ve_table (volume_table s ! v) = Some h" using inuse_table [OF I(8) assms(3)] by blast
  obtain x y q qs where d: "deq_at (inode_free_lfqueue s) (rr (free_dequeue_idx s) DEFAULT_NUM_FREE) =
      Inr (x, (inode_free_lfqueue s)[rr (free_dequeue_idx s) DEFAULT_NUM_FREE := q])"
    "deq_at ((inode_free_lfqueue s)[rr (free_dequeue_idx s) DEFAULT_NUM_FREE := q]) (rr (free_dequeue_idx s + 1) DEFAULT_NUM_FREE) = Inr (y, qs)"
    "unat x < nI s" "unat y < nI s" "unat x \<noteq> unat y"
    using two_free_inodes [OF assms(1) enough] by blast
  let ?s1 = "installed ck s v lbn h x ((inode_free_lfqueue s)[rr (free_dequeue_idx s) DEFAULT_NUM_FREE := q])"
  let ?h1 = "h\<lparr>ht_map := ck_assign ck (ht_map h) lbn (next_node s)\<rparr>"
  let ?t = "installed ck ?s1 v lbn ?h1 y qs"
  have a: "install_hash_node ck s v lbn None = Inr (next_node s, ?s1)"
    using vV len d by (intro install_new [OF _ h enough]) simp_all
  have "unat (inode_free_count s - 1) = unat (inode_free_count s) - 1" using assms(5) by (intro unat_minus_one) auto
  then have e1: "isFreeLFQueueEnough ?s1"
    using assms(5) by (simp add: isFreeLFQueueEnough_def DEFAULT_FREE_MIN_COUNT_def word_le_nat_alt installed_def)
  have b: "install_hash_node ck ?s1 v lbn None = Inr (next_node ?s1, ?t)"
    by (rule install_new) (use vV len d e1 in \<open>simp_all add: installed_def\<close>)
  let ?n = "\<lambda>i. \<lparr>hn_inode = Some i, hn_lbn = lbn, hn_is_valid = True, hn_mutex = True, hn_prev = None, hn_next = None\<rparr>"
  have "nodes ?t (next_node s) = Some (?n (unat x))" "nodes ?t (next_node ?s1) = Some (?n (unat y))" "next_node s \<noteq> next_node ?s1"
    by (simp_all add: installed_def)
  moreover have "in_lbn (inode_table ?t ! unat x) = lbn" "in_lbn (inode_table ?t ! unat y) = lbn"
    "in_volume (inode_table ?t ! unat x) = Some v" "in_volume (inode_table ?t ! unat y) = Some v"
    using d(3-5) len by (simp_all add: installed_def)
  moreover have "lookup ck ?t v lbn = Some (next_node ?s1)"
    using assms(2) vV len by (simp add: lookup_def installed_def search_hash_node_def cuckoo_laws_def)
  ultimately show ?thesis using a b d(5)
    by (intro exI [of _ ?s1] exI [of _ ?t] exI [of _ "next_node s"] exI [of _ "next_node ?s1"]
        exI [of _ "?n (unat x)"] exI [of _ "?n (unat y)"] exI [of _ "unat x"] exI [of _ "unat y"]) simp
qed

theorem first_write_race_witness:
  "\<exists>s1 t a b. install_hash_node fun_cuckoo demo1 (unat demo_volume) 3 None = Inr (a, s1) \<and>
    install_hash_node fun_cuckoo s1 (unat demo_volume) 3 None = Inr (b, t) \<and>
    lookup fun_cuckoo t (unat demo_volume) 3 = Some b \<and> a \<noteq> b"
proof -
  have inv: "nvm_inv fun_cuckoo (Suc 0) demo1" using nvm_inv_less [OF demo1(2)] by simp
  have "lookup fun_cuckoo demo1 (unat demo_volume) 3 = None" by (rule demo1_lookup)
  moreover have "101 \<le> unat (inode_free_count demo1)" by (simp add: demo1(9))
  ultimately show ?thesis using first_write_race [OF inv fun_cuckoo_laws demo1(3)] by blast
qed

end
