(* ===== verification/NVM_Crash.thy ===== *)
theory NVM_Crash
  imports NVM_Races
begin

text \<open>
  Power failures in the middle of a write: the durable write of a block seen as the sequence of
  its stores to non-volatile memory, and what the abstract store holds after each of them.
\<close>

section \<open>What a power failure leaves\<close>

lemma failure_abs:
  assumes "\<And>i v l. key s i = Some (v, l) \<Longrightarrow> v < length (volume_table s)"
  shows "abs_store (power_failure s) = abs_store s"
proof (rule abs_cong_cached)
  show "key (power_failure s) = key s" by (simp add: key_def st_def power_failure_def fun_eq_iff)
  show "disk_block (power_failure s) = disk_block s" by (simp add: disk_block_def power_failure_def fun_eq_iff)
  show "nI (power_failure s) = nI s" by (simp add: power_failure_def)
  fix i v l assume "key s i = Some (v, l)"
  then show "vid_of (power_failure s) v = vid_of s v \<and> data_of (power_failure s) i = data_of s i"
    using assms by (simp add: vid_of_def data_of_def power_failure_def)
qed

lemma failure_store:
  assumes inv: "nvm_inv ck m s"
  shows "abs_store (power_failure s) = abs_store s"
proof (rule failure_abs)
  note I = nvm_invD [OF inv]
  show "v < length (volume_table s)" if "key s i = Some (v, l)" for i v l
    using inuse_less [OF key_inuse [OF I(9) that]] I(1) by (simp add: shape_inv_def)
qed

section \<open>The moments of a write\<close>

text \<open>
  The states of a block write after each of its stores: at the start, with the node locked, with
  the inode locked, with the inode marked dirty, with \<open>k\<close> bytes copied and with all of them, with
  the volume's and then the inode's block index set, and at the end.
\<close>

definition write_moments :: "'m cuckoo \<Rightarrow> 'm nvm \<Rightarrow> u32 \<Rightarrow> u32 \<Rightarrow> u8 list \<Rightarrow> u32 \<Rightarrow> nat \<Rightarrow> 'm nvm list res" where
  "write_moments ck s v_idx lbn buf local_count k =
     rbind (get_hash_node_with_lock ck s (unat v_idx) lbn) (\<lambda>(a, s1).
     rbind (deref (nodes s1) (Some a)) (\<lambda>hash_node.
     case hn_inode hash_node of None \<Rightarrow> Inl NullDeref
     | Some i \<Rightarrow>
       rbind (lock_inode s1 i) (\<lambda>s2.
       rbind (at_index (inode_table s2) i) (\<lambda>e.
       rbind (set_inode_state s2 i DIRTY) (\<lambda>s3.
       case in_volume e of None \<Rightarrow> Inl NullDeref
       | Some v \<Rightarrow>
         rbind (at_index (volume_table s3) v) (\<lambda>ve.
         rbind (store_block s3 (ve_block ve) buf (of_nat k)) (\<lambda>s3'.
         rbind (store_block s3 (ve_block ve) buf (ucast local_count)) (\<lambda>s4.
         rbind (store_volume_block s4 v (in_block e)) (\<lambda>s5.
         rbind (store_inode_block s5 i (ve_block ve)) (\<lambda>s6.
         rbind (if in_state e \<noteq> DIRTY then
                  rbind (enq_at (inode_dirty_lfqueue s6) (unat v_idx) (get_inode_entry_idx_from_hash i)) (\<lambda>qs.
                    Inr (s6\<lparr>inode_dirty_count := inode_dirty_count s6 + 1, inode_dirty_lfqueue := qs,
                            mon := (mon s6)\<lparr>mon_dirty := mon_dirty (mon s6) + 1\<rparr>\<rparr>))
                else Inr s6) (\<lambda>s7.
         rbind (unlock_inode s7 i) (\<lambda>s8.
         rbind (unlock_node s8 a) (\<lambda>s9. Inr [s, s1, s2, s3, s3', s4, s5, s6, s9])))))))))))))"

text \<open>The same states, written out from the one in which the hash node was found.\<close>

definition dirtied :: "'m nvm \<Rightarrow> nat \<Rightarrow> 'm nvm" where
  "dirtied s i = s\<lparr>inode_table := (inode_table s)[i := (inode_table s ! i)\<lparr>in_lock := True, in_state := DIRTY\<rparr>]\<rparr>"

definition copied :: "'m nvm \<Rightarrow> nat \<Rightarrow> nat \<Rightarrow> u8 list \<Rightarrow> nat \<Rightarrow> 'm nvm" where
  "copied s i v buf n = (dirtied s i)\<lparr>block_table := (block_table s)[unat (ve_block (volume_table s ! v)) := new_data s v buf n]\<rparr>"

definition moved :: "'m nvm \<Rightarrow> nat \<Rightarrow> nat \<Rightarrow> u8 list \<Rightarrow> nat \<Rightarrow> 'm nvm" where
  "moved s i v buf n = (copied s i v buf n)\<lparr>volume_table := (volume_table s)
     [v := (volume_table s ! v)\<lparr>ve_block := in_block (inode_table s ! i)\<rparr>]\<rparr>"

definition stored :: "'m nvm \<Rightarrow> nat \<Rightarrow> nat \<Rightarrow> u8 list \<Rightarrow> nat \<Rightarrow> 'm nvm" where
  "stored s i v buf n = (moved s i v buf n)\<lparr>inode_table := (inode_table s)
     [i := (inode_table s ! i)\<lparr>in_lock := True, in_state := DIRTY, in_block := ve_block (volume_table s ! v)\<rparr>]\<rparr>"

lemmas stage_defs = dirtied_def copied_def moved_def stored_def

lemma moments_from_node:
  assumes "get_hash_node_with_lock ck s (unat v_idx) lbn = Inr (a, s1)" "nodes s1 a = Some nd" "hn_inode nd = Some i"
    "i < length (inode_table s1)" "\<not> in_lock (inode_table s1 ! i)" "in_volume (inode_table s1 ! i) = Some v"
    "v < length (volume_table s1)" "unat (ve_block (volume_table s1 ! v)) < length (block_table s1)"
    "length (block_table s1 ! unat (ve_block (volume_table s1 ! v))) = n"
    "unat count \<le> length buf" "unat count \<le> n" "k \<le> unat count" "i < 2 ^ 26"
    "in_state (inode_table s1 ! i) \<noteq> DIRTY \<Longrightarrow> \<exists>qs. enq_at (inode_dirty_lfqueue s1) (unat v_idx) (of_nat i) = Inr qs"
  shows "\<exists>t. write_block ck s v_idx lbn lo buf count = Inr (ucast count, t) \<and>
    write_moments ck s v_idx lbn buf count k =
      Inr [s, s1, s1\<lparr>inode_table := (inode_table s1)[i := (inode_table s1 ! i)\<lparr>in_lock := True\<rparr>]\<rparr>, dirtied s1 i,
        copied s1 i v buf k, copied s1 i v buf (unat count), moved s1 i v buf (unat count), stored s1 i v buf (unat count), t]"
proof -
  have idx: "get_inode_entry_idx_from_hash i = of_nat i" using idx_from_hash [OF assms(13)] .
  have iu: "unat (of_nat i :: u32) = i" using assms(13) by (intro unat_of_nat_u32) simp
  have cu: "unat (ucast count :: u64) = unat count" by (rule unat_ucast_u32_u64)
  have "k < 2 ^ 64" using assms(12) unat_u32_less [of count] by simp
  then have ku: "unat (of_nat k :: u64) = k" by (intro unat_of_nat_u64) simp
  note ev = write_block_def write_moments_def lock_inode_def set_inode_state_def writeDataToNvmBlock_def store_block_def
    store_volume_block_def store_inode_block_def unlock_inode_def unlock_node_def stage_defs new_data_def
  show ?thesis
  proof (cases "in_state (inode_table s1 ! i) = DIRTY")
    case True
    then show ?thesis using assms idx iu cu ku by (simp add: ev)
  next
    case False
    then obtain qs where "enq_at (inode_dirty_lfqueue s1) (unat v_idx) (of_nat i) = Inr qs" using assms(14) by blast
    then show ?thesis using assms idx iu cu ku False by (simp add: ev)
  qed
qed

section \<open>The store at each moment\<close>

text \<open>The tables that do not change before the two index stores, against a well-formed state.\<close>

definition same_blocks :: "'m nvm \<Rightarrow> nat \<Rightarrow> 'm nvm \<Rightarrow> bool" where
  "same_blocks s v t \<longleftrightarrow> max_inode_entry t = max_inode_entry s \<and> length (volume_table t) = length (volume_table s) \<and>
     (\<forall>j < nI s. in_block (inode_table t ! j) = in_block (inode_table s ! j)) \<and>
     (\<forall>u < nV s. ve_vid (volume_table t ! u) = ve_vid (volume_table s ! u)) \<and>
     (\<forall>b. b \<noteq> unat (ve_block (volume_table s ! v)) \<longrightarrow> block_table t ! b = block_table s ! b) \<and>
     length (block_table t) = length (block_table s) \<and> block_size t = block_size s \<and> system t = system s"

lemma same_blocks_data:
  assumes inv: "nvm_inv ck m s" and t: "same_blocks s v t" and v: "v < nV s"
  shows "j < nI s \<Longrightarrow> data_of t j = data_of s j" "u < nV s \<Longrightarrow> vid_of t u = vid_of s u" "disk_block t = disk_block s"
proof -
  note I = nvm_invD [OF inv]
  show "data_of t j = data_of s j" if "j < nI s"
    using t inode_not_spare [OF I(3), of j v] I(1) v that by (simp add: same_blocks_def data_of_def shape_inv_def)
  show "u < nV s \<Longrightarrow> vid_of t u = vid_of s u" "disk_block t = disk_block s"
    using t by (simp_all add: same_blocks_def vid_of_def disk_block_def fun_eq_iff)
qed

lemma key_length:
  assumes "nvm_inv ck m s" "key s i = Some (v, l)"
  shows "v < nV s" "v < length (volume_table s)" "i < nI s" "v \<in> inuse s"
proof -
  note I = nvm_invD [OF assms(1)]
  show "v \<in> inuse s" using key_inuse [OF I(9) assms(2)] .
  then show "v < nV s" by (rule inuse_less)
  then show "v < length (volume_table s)" using I(1) by (simp add: shape_inv_def)
  show "i < nI s" using key_Some(1) [OF assms(2)] .
qed

text \<open>While no inode has changed hands the store is as before.\<close>

lemma moment_before:
  assumes inv: "nvm_inv ck m s" and t: "same_blocks s v t" and v: "v < nV s" and k: "key t = key s"
  shows "abs_store (power_failure t) = abs_store s"
proof -
  note D = same_blocks_data [OF inv t v]
  have "abs_store (power_failure t) = abs_store t"
    by (rule failure_abs) (use k t key_length [OF inv] in \<open>auto simp: same_blocks_def\<close>)
  also have "abs_store t = abs_store s"
    by (rule abs_cong_cached) (use k D t key_length [OF inv] in \<open>auto simp: same_blocks_def\<close>)
  finally show ?thesis .
qed

text \<open>Once an inode has, the block reads as that inode's data.\<close>

lemma moment_after:
  assumes inv: "nvm_inv ck m s" and v: "v \<in> inuse s" and k: "key t = (key s)(i \<mapsto> (v, lbn))"
    and old: "key s i = Some (v, lbn) \<or> key s i = None \<and> (\<forall>j. key s j \<noteq> Some (v, lbn))"
    and len: "length (volume_table t) = length (volume_table s)"
    and vid: "\<And>u. u < nV s \<Longrightarrow> vid_of t u = vid_of s u"
    and data: "\<And>j. j < nI s \<Longrightarrow> j \<noteq> i \<Longrightarrow> data_of t j = data_of s j"
    and disk: "disk_block t = disk_block s"
  shows "abs_store (power_failure t) = (abs_store s)(vid_of s v := (abs_store s (vid_of s v))(lbn := data_of t i))"
proof -
  note I = nvm_invD [OF inv]
  have "v < length (volume_table s)" using inuse_less [OF v] I(1) by (simp add: shape_inv_def)
  then have "abs_store (power_failure t) = abs_store t"
    using k len key_length(2) [OF inv] by (intro failure_abs) (auto split: if_splits)
  also have "\<dots> = (abs_store s)(vid_of s v := (abs_store s (vid_of s v))(lbn := data_of t i))"
    using abs_store_update [OF I(9,8) v k old _ _ disk] vid data key_length(3) [OF inv] inuse_less
    by (metis not_Some_eq surj_pair)
  finally show ?thesis .
qed

text \<open>The stages against the state the write began in.\<close>

lemma stage_same:
  assumes "same_blocks s v s1" "i < length (inode_table s1)" "v < length (volume_table s1)"
    "ve_block (volume_table s1 ! v) = ve_block (volume_table s ! v)"
  shows "same_blocks s v (s1\<lparr>inode_table := (inode_table s1)[i := (inode_table s1 ! i)\<lparr>in_lock := True\<rparr>]\<rparr>)"
    "same_blocks s v (dirtied s1 i)" "same_blocks s v (copied s1 i v buf n)" "same_blocks s v (moved s1 i v buf n)"
  using assms by (auto simp: same_blocks_def stage_defs nth_list_update)

text \<open>The last store exchanges the inode's block for the one with the data.\<close>

lemma stored_data:
  assumes inv: "nvm_inv ck m s" and s1: "same_blocks s v s1" and v: "v < nV s" and i: "i < nI s"
    and len: "length (inode_table s1) = length (inode_table s)"
    and b: "ve_block (volume_table s1 ! v) = ve_block (volume_table s ! v)"
  shows "j < nI s \<Longrightarrow> data_of (stored s1 i v buf n) j = (if j = i then new_data s1 v buf n else data_of s j)"
    "u < nV s \<Longrightarrow> vid_of (stored s1 i v buf n) u = vid_of s u" "disk_block (stored s1 i v buf n) = disk_block s"
    "length (volume_table (stored s1 i v buf n)) = length (volume_table s)"
proof -
  note I = nvm_invD [OF inv]
  have l: "i < length (inode_table s1)" "v < length (volume_table s1)" "unat (ve_block (volume_table s ! v)) < length (block_table s1)"
    using s1 v i len I(1) owner_block(2) [OF I(1,3) v] by (simp_all add: same_blocks_def shape_inv_def)
  note S = stage_same(4) [OF s1 l(1,2) b, of buf n]
  note D = same_blocks_data [OF inv S v]
  show "data_of (stored s1 i v buf n) j = (if j = i then new_data s1 v buf n else data_of s j)" if j: "j < nI s"
  proof (cases "j = i")
    case True
    then show ?thesis using l b by (simp add: data_of_def stage_defs)
  next
    case False
    have "data_of (stored s1 i v buf n) j = data_of (moved s1 i v buf n) j" using False by (simp add: data_of_def stage_defs)
    with D(1) [OF j] False show ?thesis by simp
  qed
  show "u < nV s \<Longrightarrow> vid_of (stored s1 i v buf n) u = vid_of s u" "disk_block (stored s1 i v buf n) = disk_block s"
    "length (volume_table (stored s1 i v buf n)) = length (volume_table s)"
    using D(2,3) S by (simp_all add: stored_def vid_of_def disk_block_def same_blocks_def fun_eq_iff)
qed

lemma dirty_queue_room:
  assumes inv: "nvm_inv ck (Suc m) s" and v: "v < nV s" and i: "i < nI s" "st s i \<noteq> DIRTY"
  shows "\<exists>qs. enq_at (inode_dirty_lfqueue s) v x = Inr qs"
proof -
  note I = nvm_invD [OF inv]
  have "v < length (inode_dirty_lfqueue s)" using v I(1) by (simp add: shape_inv_def)
  from dirty_room [OF I(1,5) v i] queue_member(2) [OF I(2) this] enq_at_ok [OF this, of m x] show ?thesis by auto
qed

text \<open>A statement about each of the nine moments.\<close>

lemma nine_moments:
  assumes "P 0 a" "P 1 b" "P 2 c" "P 3 d" "P 4 e" "P 5 f" "P 6 g" "P 7 h" "P 8 i"
  shows "\<forall>j < 9. P j ([a, b, c, d, e, f, g, h, i] ! j)"
proof (intro allI impI)
  fix j :: nat assume "j < 9"
  then have "j \<in> {0, 1, 2, 3, 4, 5, 6, 7, 8}" by auto
  then show "P j ([a, b, c, d, e, f, g, h, i] ! j)" by (elim insertE emptyE) (use assms in simp_all)
qed

text \<open>The moments of a rewrite: the node found is locked, nothing else has changed.\<close>

lemma rewrite_moments:
  assumes "nvm_inv ck (Suc m) s" "key s i = Some (unat v, lbn)" "st s i \<noteq> SYNC"
    "unat count \<le> length buf" "unat count \<le> bsz s" "k \<le> unat count"
  shows "\<exists>N t. write_block ck s v lbn lo buf count = Inr (ucast count, t) \<and>
    (let s1 = s\<lparr>nodes := N\<rparr> in write_moments ck s v lbn buf count k =
      Inr [s, s1, s1\<lparr>inode_table := (inode_table s1)[i := (inode_table s1 ! i)\<lparr>in_lock := True\<rparr>]\<rparr>, dirtied s1 i,
        copied s1 i (unat v) buf k, copied s1 i (unat v) buf (unat count), moved s1 i (unat v) buf (unat count),
        stored s1 i (unat v) buf (unat count), t])"
proof -
  note I = nvm_invD [OF assms(1)] and K = key_Some [OF assms(2)] and L = key_length [OF assms(1,2)]
  let ?v = "unat v"
  have len: "length (inode_table s) = nI s" using I(1) by (simp add: shape_inv_def)
  from core_key [OF I(9)[unfolded hash_inv_def, THEN conjunct1] assms(2)]
  obtain a where a: "lookup ck s ?v lbn = Some a" "view (nodes s) a = Some (Some i, lbn, True, False)" by blast
  from view_nodes [OF a(2)] obtain nd where nd: "nodes s a = Some nd" "hn_inode nd = Some i" "hn_is_valid nd" "\<not> hn_mutex nd" by auto
  from lookup_Some [OF a(1)] obtain h where h: "ve_table (volume_table s ! ?v) = Some h" "search_hash_node ck h lbn = Some a" by blast
  let ?N = "(nodes s)(a \<mapsto> nd\<lparr>hn_mutex := True\<rparr>)"
  let ?s1 = "s\<lparr>nodes := ?N\<rparr>"
  have g: "get_hash_node_with_lock ck s ?v lbn = Inr (a, ?s1)"
    using L h nd by (simp add: get_hash_node_with_lock_def isValidNode_def lock_node_def)
  have blk: "unat (ve_block (volume_table s ! ?v)) < length (block_table s)" using owner_block(2) [OF I(1,3) L(1)] .
  have lock: "\<not> in_lock (inode_table s ! i)" using I(6) K(1) assms(3) by (simp add: sync_inv_def)
  show ?thesis
    unfolding Let_def
  proof (intro exI [of _ ?N] moments_from_node [OF g, of "nd\<lparr>hn_mutex := True\<rparr>" i ?v "bsz s"])
    show "\<exists>qs. enq_at (inode_dirty_lfqueue ?s1) ?v (of_nat i) = Inr qs" if "in_state (inode_table ?s1 ! i) \<noteq> DIRTY"
      using dirty_queue_room [OF assms(1) L(1,3), of "of_nat i"] that by (simp add: st_def)
    show "length (block_table ?s1 ! unat (ve_block (volume_table ?s1 ! ?v))) = bsz s"
      using blk I(1) by (simp add: shape_inv_def)
    show "i < 2 ^ 26" using L(3) I(1) by (simp add: shape_inv_def)
  qed (use L len K lock nd blk assms in simp_all)
qed

text \<open>C8. A power failure at any moment of a write to a block that an inode already caches leaves the
  old data or the new: while the data is copied, however far, and after the volume's index store
  the old, from the inode's index store on the new. No other block is affected.\<close>
theorem rewrite_crash_atomic:
  assumes "nvm_inv ck (Suc m) s" "cuckoo_laws ck" "key s i = Some (unat v, lbn)" "st s i \<noteq> SYNC"
    "unat count \<le> length buf" "unat count \<le> bsz s" "k \<le> unat count"
  shows "\<exists>ms t. write_moments ck s v lbn buf count k = Inr ms \<and> write_block ck s v lbn lo buf count = Inr (ucast count, t) \<and>
    length ms = 9 \<and> (\<forall>j < 9. abs_store (power_failure (ms ! j)) = (if j < 7 then abs_store s else abs_store t))"
proof -
  note I = nvm_invD [OF assms(1)] and K = key_Some [OF assms(3)] and L = key_length [OF assms(1,3)]
  let ?v = "unat v" and ?n = "unat count"
  have lm: "lbn \<noteq> - 1" using I(10) assms(3) by (auto simp: disk_inv_def)
  obtain N t where t: "write_block ck s v lbn lo buf count = Inr (ucast count, t)" and ms: "write_moments ck s v lbn buf count k =
      Inr [s, s\<lparr>nodes := N\<rparr>, s\<lparr>nodes := N, inode_table := (inode_table s)[i := (inode_table s ! i)\<lparr>in_lock := True\<rparr>]\<rparr>,
        dirtied (s\<lparr>nodes := N\<rparr>) i, copied (s\<lparr>nodes := N\<rparr>) i ?v buf k, copied (s\<lparr>nodes := N\<rparr>) i ?v buf ?n,
        moved (s\<lparr>nodes := N\<rparr>) i ?v buf ?n, stored (s\<lparr>nodes := N\<rparr>) i ?v buf ?n, t]"
    using rewrite_moments [OF assms(1,3-7), of lo] by (auto simp: Let_def)
  let ?s1 = "s\<lparr>nodes := N\<rparr>"
  obtain t' where t': "write_block ck s v lbn lo buf count = Inr (ucast count, t')" "nvm_inv ck m t'"
    "abs_store t' = (abs_store s)(vid_of s ?v := (abs_store s (vid_of s ?v))(lbn := new_data s ?v buf ?n))"
    using write_block_ok [OF assms(1,2) lm L(4) refl assms(5,6)] assms(3,4) key_unique [OF I(9,8) assms(3)] by blast
  have tt: "t' = t" using t t'(1) by simp
  have sb: "same_blocks s ?v s" "same_blocks s ?v ?s1" by (simp_all add: same_blocks_def)
  have i1: "i < length (inode_table ?s1)" "?v < length (volume_table ?s1)"
    "ve_block (volume_table ?s1 ! ?v) = ve_block (volume_table s ! ?v)"
    using L I(1) by (simp_all add: shape_inv_def)
  note S = stage_same [OF sb(2) i1]
  have kd: "key ?s1 = key s" "key (?s1\<lparr>inode_table := (inode_table s)[i := (inode_table s ! i)\<lparr>in_lock := True\<rparr>]\<rparr>) = key s"
    "key (dirtied ?s1 i) = key s" "key (copied ?s1 i ?v buf n) = key s" "key (moved ?s1 i ?v buf n) = key s"
    "key (stored ?s1 i ?v buf n) = (key s)(i \<mapsto> (?v, lbn))" for n
    using K i1 assms(3) by (auto simp: key_def st_def stage_defs fun_eq_iff nth_list_update)
  note D = stored_data [OF assms(1) sb(2) L(1,3)]
  have after: "abs_store (power_failure (stored ?s1 i ?v buf ?n)) = abs_store t"
    using moment_after [OF assms(1) L(4) kd(6)] D assms(3)
    unfolding t'(3) [unfolded tt] using D(1) [OF _ _ L(3)] by (simp add: new_data_def)
  note before = moment_before [OF assms(1) _ L(1)]
  note m = before [OF sb(1) refl] before [OF sb(2) kd(1)] before [OF S(1)] before [OF S(2) kd(3)] before [OF S(3) kd(4)] before [OF S(4) kd(5)]
  have "\<forall>j < 9. abs_store (power_failure (projr (write_moments ck s v lbn buf count k) ! j)) = (if j < 7 then abs_store s else abs_store t)"
    unfolding ms sum.sel by (rule nine_moments) (use m kd(2) after failure_store [OF t'(2) [unfolded tt]] in simp_all)
  with t ms show ?thesis by simp
qed

theorem rewrite_crash_atomic_witness:
  "\<exists>ms. write_moments fun_cuckoo demo2 demo_volume 3 [9, 9, 9, 9] 4 2 = Inr ms \<and>
    abs_store (power_failure (ms ! 4)) 7 3 = [1, 2, 3, 4]"
proof -
  obtain i where i: "key demo2 = [i \<mapsto> (unat demo_volume, 3)]" "st demo2 i = DIRTY" using demo2(13) by blast
  have inv: "nvm_inv fun_cuckoo (Suc 0) demo2" using nvm_inv_less [OF demo2(2)] by simp
  have k: "key demo2 i = Some (unat demo_volume, 3)" "st demo2 i \<noteq> SYNC" using i by simp_all
  have c: "unat (4 :: u32) \<le> length [9, 9, 9, 9 :: u8]" "unat (4 :: u32) \<le> bsz demo2" "2 \<le> unat (4 :: u32)" by (simp_all add: demo2(8))
  obtain ms where "write_moments fun_cuckoo demo2 demo_volume 3 [9, 9, 9, 9] 4 2 = Inr ms"
    "abs_store (power_failure (ms ! 4)) = abs_store demo2"
    using rewrite_crash_atomic [OF inv fun_cuckoo_laws k c] by force
  then show ?thesis using demo2(5) by auto
qed

text \<open>The moments of a first write: the node is new, and a free inode has been taken for it.\<close>

lemma first_write_moments:
  assumes "nvm_inv ck (Suc m) s" "unat v \<in> inuse s" "lookup ck s (unat v) lbn = None"
    "isFreeLFQueueEnough s" "unat count \<le> length buf" "unat count \<le> bsz s" "k \<le> unat count"
  shows "\<exists>h x qs t. write_block ck s v lbn lo buf count = Inr (ucast count, t) \<and> unat x < nI s \<and> st s (unat x) = FREE \<and>
    (let i = unat x; s1 = installed ck s (unat v) lbn h x qs in write_moments ck s v lbn buf count k =
      Inr [s, s1, s1\<lparr>inode_table := (inode_table s1)[i := (inode_table s1 ! i)\<lparr>in_lock := True\<rparr>]\<rparr>, dirtied s1 i,
        copied s1 i (unat v) buf k, copied s1 i (unat v) buf (unat count), moved s1 i (unat v) buf (unat count),
        stored s1 i (unat v) buf (unat count), t])"
proof -
  note I = nvm_invD [OF assms(1)]
  let ?v = "unat v"
  have vV: "?v < nV s" using inuse_less [OF assms(2)] .
  have len: "length (inode_table s) = nI s" "length (volume_table s) = nV s" using I(1) by (simp_all add: shape_inv_def)
  obtain h where h: "ve_table (volume_table s ! ?v) = Some h" using inuse_table [OF I(8) assms(2)] by blast
  have sn: "search_hash_node ck h lbn = None" using assms(3) vV h by (simp add: lookup_def)
  obtain x q where d: "deq_at (inode_free_lfqueue s) (rr (free_dequeue_idx s) DEFAULT_NUM_FREE) =
      Inr (x, (inode_free_lfqueue s)[rr (free_dequeue_idx s) DEFAULT_NUM_FREE := q])" "unat x < nI s" "st s (unat x) = FREE"
    using one_free_inode [OF assms(1,4)] by blast
  let ?i = "unat x" and ?qs = "(inode_free_lfqueue s)[rr (free_dequeue_idx s) DEFAULT_NUM_FREE := q]"
  let ?s1 = "installed ck s ?v lbn h x ?qs"
  have "get_hash_node_with_lock ck s ?v lbn = install_hash_node ck s ?v lbn None"
    using get_hash_node_split [of ?v s h ck lbn] vV len h sn by (simp add: isValidNode_def)
  also have "\<dots> = Inr (next_node s, ?s1)" using vV len d by (intro install_new [OF _ h assms(4)]) simp_all
  finally have g: "get_hash_node_with_lock ck s ?v lbn = Inr (next_node s, ?s1)" .
  have blk: "unat (ve_block (volume_table s ! ?v)) < length (block_table s)" using owner_block(2) [OF I(1,3) vV] .
  have lock: "\<not> in_lock (inode_table s ! ?i)" using I(6) d(2,3) by (simp add: sync_inv_def)
  have i1: "?i < length (inode_table ?s1)" "?v < length (volume_table ?s1)"
    "ve_block (volume_table ?s1 ! ?v) = ve_block (volume_table s ! ?v)" using d(2) vV len by (simp_all add: installed_def)
  have "\<exists>t. write_block ck s v lbn lo buf count = Inr (ucast count, t) \<and> write_moments ck s v lbn buf count k =
      Inr [s, ?s1, ?s1\<lparr>inode_table := (inode_table ?s1)[?i := (inode_table ?s1 ! ?i)\<lparr>in_lock := True\<rparr>]\<rparr>, dirtied ?s1 ?i,
        copied ?s1 ?i ?v buf k, copied ?s1 ?i ?v buf (unat count),
        moved ?s1 ?i ?v buf (unat count), stored ?s1 ?i ?v buf (unat count), t]"
  proof (rule moments_from_node [OF g, of "\<lparr>hn_inode = Some ?i, hn_lbn = lbn, hn_is_valid = True,
       hn_mutex = True, hn_prev = None, hn_next = None\<rparr>" ?i ?v "bsz s"])
    show "\<exists>qs. enq_at (inode_dirty_lfqueue ?s1) ?v (of_nat ?i) = Inr qs"
      using dirty_queue_room [OF assms(1) vV d(2), of "of_nat ?i"] d(3) by (simp add: installed_def)
    show "length (block_table ?s1 ! unat (ve_block (volume_table ?s1 ! ?v))) = bsz s"
      using blk I(1) i1 by (simp add: shape_inv_def installed_def)
    show "?i < 2 ^ 26" using d(2) I(1) by (simp add: shape_inv_def)
  qed (use i1 vV len lock blk d assms in \<open>simp_all add: installed_def\<close>)
  then obtain t where t: "write_block ck s v lbn lo buf count = Inr (ucast count, t)" "write_moments ck s v lbn buf count k =
      Inr [s, ?s1, ?s1\<lparr>inode_table := (inode_table ?s1)[?i := (inode_table ?s1 ! ?i)\<lparr>in_lock := True\<rparr>]\<rparr>, dirtied ?s1 ?i,
        copied ?s1 ?i ?v buf k, copied ?s1 ?i ?v buf (unat count),
        moved ?s1 ?i ?v buf (unat count), stored ?s1 ?i ?v buf (unat count), t]" by blast
  show ?thesis unfolding Let_def
    by (rule exI [of _ h], rule exI [of _ x], rule exI [of _ ?qs], rule exI [of _ t]) (intro conjI t d(2,3))
qed

text \<open>Once the new inode is dirty and as long as it has its old block, the block reads as what that holds.\<close>

lemma moment_stale:
  assumes inv: "nvm_inv ck m s" and v: "v \<in> inuse s" and i: "i < nI s" and k0: "key s i = None"
    and miss: "\<forall>j. key s j \<noteq> Some (v, lbn)" and u: "same_blocks s v u" "key u = (key s)(i \<mapsto> (v, lbn))"
  shows "abs_store (power_failure u) = (abs_store s)(vid_of s v := (abs_store s (vid_of s v))(lbn := data_of s i))"
proof -
  note D = same_blocks_data [OF inv u(1) inuse_less [OF v]]
  have "length (volume_table u) = length (volume_table s)" using u(1) by (simp add: same_blocks_def)
  from moment_after [OF inv v u(2) _ this] D k0 miss show ?thesis using D(1) [OF i] by simp
qed

text \<open>C9. The first write of a block is not safe against a power failure: the inode is marked dirty
  before the data is copied, and its own block still holds what it held when it was freed. From
  that store to the last one a failure leaves the block with those stale bytes, which are neither
  what the file held nor what is being written.\<close>
theorem first_write_crash_window:
  assumes "nvm_inv ck (Suc m) s" "cuckoo_laws ck" "unat v \<in> inuse s" "lbn \<noteq> - 1" "lookup ck s (unat v) lbn = None"
    "isFreeLFQueueEnough s" "unat count \<le> length buf" "unat count \<le> bsz s" "k \<le> unat count"
  shows "\<exists>ms t i. write_moments ck s v lbn buf count k = Inr ms \<and> write_block ck s v lbn lo buf count = Inr (ucast count, t) \<and>
    length ms = 9 \<and> i < nI s \<and> st s i = FREE \<and>
    (\<forall>j < 9. abs_store (power_failure (ms ! j)) =
      (if j < 3 then abs_store s
       else if j < 7 then (abs_store s)(vid_of s (unat v) := (abs_store s (vid_of s (unat v)))(lbn := data_of s i))
       else abs_store t))"
proof -
  note I = nvm_invD [OF assms(1)]
  let ?v = "unat v" and ?n = "unat count"
  obtain h x qs t where t: "write_block ck s v lbn lo buf count = Inr (ucast count, t)" and d: "unat x < nI s" "st s (unat x) = FREE"
    and ms: "let i = unat x; s1 = installed ck s (unat v) lbn h x qs in write_moments ck s v lbn buf count k =
      Inr [s, s1, s1\<lparr>inode_table := (inode_table s1)[i := (inode_table s1 ! i)\<lparr>in_lock := True\<rparr>]\<rparr>, dirtied s1 i,
        copied s1 i (unat v) buf k, copied s1 i (unat v) buf (unat count), moved s1 i (unat v) buf (unat count),
        stored s1 i (unat v) buf (unat count), t]"
    using first_write_moments [OF assms(1,3,5-9), of lo] by blast
  let ?i = "unat x" and ?s1 = "installed ck s ?v lbn h x qs"
  let ?s2 = "?s1\<lparr>inode_table := (inode_table ?s1)[?i := (inode_table ?s1 ! ?i)\<lparr>in_lock := True\<rparr>]\<rparr>"
  note ms' = ms [unfolded Let_def]
  have vV: "?v < nV s" using inuse_less [OF assms(3)] .
  have len: "length (inode_table s) = nI s" "length (volume_table s) = nV s" using I(1) by (simp_all add: shape_inv_def)
  have miss: "\<forall>j. key s j \<noteq> Some (?v, lbn)"
    using core_key [OF I(9)[unfolded hash_inv_def, THEN conjunct1]] assms(5) by fastforce
  have i1: "?i < length (inode_table ?s1)" "?v < length (volume_table ?s1)"
    "ve_block (volume_table ?s1 ! ?v) = ve_block (volume_table s ! ?v)"
    "length (inode_table ?s1) = length (inode_table s)" using d(1) vV len by (simp_all add: installed_def)
  obtain t' where t': "write_block ck s v lbn lo buf count = Inr (ucast count, t')" "nvm_inv ck m t'"
    "abs_store t' = (abs_store s)(vid_of s ?v := (abs_store s (vid_of s ?v))(lbn := new_data s ?v buf ?n))"
    using write_block_ok [OF assms(1,2,4,3) refl assms(7,8)] miss assms(6) by blast
  have tt: "t' = t" using t t'(1) by simp
  have sb: "same_blocks s ?v s" "same_blocks s ?v ?s1"
    using len d(1) vV by (auto simp: same_blocks_def installed_def nth_list_update)
  note S = stage_same [OF sb(2) i1(1-3)] and D = stored_data [OF assms(1) sb(2) vV d(1) i1(4,3)]
  have k0: "key s ?i = None" using d(2) by (simp add: key_def)
  have kd: "key ?s1 = key s" "key ?s2 = key s" "key (dirtied ?s1 ?i) = (key s)(?i \<mapsto> (?v, lbn))"
    "key (copied ?s1 ?i ?v buf n) = (key s)(?i \<mapsto> (?v, lbn))" "key (moved ?s1 ?i ?v buf n) = (key s)(?i \<mapsto> (?v, lbn))"
    "key (stored ?s1 ?i ?v buf n) = (key s)(?i \<mapsto> (?v, lbn))" for n
    using d len by (auto simp: key_def st_def stage_defs installed_def fun_eq_iff nth_list_update)
  have "new_data ?s1 ?v buf ?n = new_data s ?v buf ?n" using i1(3) by (simp add: new_data_def installed_def)
  then have after: "abs_store (power_failure (stored ?s1 ?i ?v buf ?n)) = abs_store t"
    using moment_after [OF assms(1,3) kd(6)] D k0 miss unfolding t'(3) [unfolded tt] using D(1) [OF d(1)] by simp
  note before = moment_before [OF assms(1) _ vV] and stale = moment_stale [OF assms(1,3) d(1) k0 miss]
  note m = before [OF sb(1) refl] before [OF sb(2) kd(1)] before [OF S(1) kd(2)] stale [OF S(2) kd(3)]
    stale [OF S(3) kd(4)] stale [OF S(4) kd(5)] after failure_store [OF t'(2) [unfolded tt]]
  have "\<forall>j < 9. abs_store (power_failure (projr (write_moments ck s v lbn buf count k) ! j)) =
      (if j < 3 then abs_store s
       else if j < 7 then (abs_store s)(vid_of s ?v := (abs_store s (vid_of s ?v))(lbn := data_of s ?i))
       else abs_store t)"
    unfolding ms' sum.sel by (rule nine_moments) (use m in simp_all)
  with t d ms' show ?thesis
    by (intro exI [of _ "projr (write_moments ck s v lbn buf count k)"] exI [of _ t] exI [of _ ?i]) simp
qed

theorem first_write_crash_window_witness:
  "\<exists>ms i. write_moments fun_cuckoo demo1 demo_volume 5 [9, 9, 9, 9] 4 4 = Inr ms \<and>
    abs_store (power_failure (ms ! 3)) 7 5 = data_of demo1 i \<and> st demo1 i = FREE"
proof -
  have inv: "nvm_inv fun_cuckoo (Suc 0) demo1" using nvm_inv_less [OF demo1(2)] by simp
  have c: "unat (4 :: u32) \<le> length [9, 9, 9, 9 :: u8]" "unat (4 :: u32) \<le> bsz demo1" "4 \<le> unat (4 :: u32)" by (simp_all add: demo1(6))
  have e: "isFreeLFQueueEnough demo1"
    using demo1(9) by (simp add: isFreeLFQueueEnough_def DEFAULT_FREE_MIN_COUNT_def word_le_nat_alt)
  have "(5 :: u32) \<noteq> - 1" by simp
  from first_write_crash_window [OF inv fun_cuckoo_laws demo1(3) this demo1_lookup [of 5] e c] obtain ms i where
    "write_moments fun_cuckoo demo1 demo_volume 5 [9, 9, 9, 9] 4 4 = Inr ms" "st demo1 i = FREE"
    "abs_store (power_failure (ms ! 3)) = (abs_store demo1)(vid_of demo1 (unat demo_volume) :=
       (abs_store demo1 (vid_of demo1 (unat demo_volume)))(5 := data_of demo1 i))" by force
  then show ?thesis using demo1(4) by auto
qed

end
