(* ===== verification/NVM_Correctness.thy ===== *)
theory NVM_Correctness
  imports NVM_System NVM_Crash NVM_Flush_Batch NVM_Close_Inv NVM_Write_Loop NVM_Example
begin

text \<open>
  The properties of the running system and of its operations, each applied to the small system of
  \<open>NVM_Example\<close>.
\<close>

section \<open>A run to try the theorems on\<close>

definition demo_run0 :: "(u32 \<Rightarrow> nat option) sys" where
  "demo_run0 = \<lparr>mem = demo0, promised = file_block demo_blank, phases = (\<lambda>_. Idle)\<rparr>"

definition demo_run1 :: "(u32 \<Rightarrow> nat option) sys" where
  "demo_run1 = demo_run0\<lparr>mem := demo1\<rparr>"

definition demo_run2 :: "(u32 \<Rightarrow> nat option) sys" where
  "demo_run2 = demo_run1\<lparr>mem := demo2, promised := (promised demo_run1)(7 := (promised demo_run1 7)
     (3 := new_data demo1 (unat demo_volume) [1, 2, 3, 4] 4))\<rparr>"

lemma demo_step0: "sys_step fun_cuckoo demo_run0 demo_run1"
  unfolding demo_run1_def
  by (rule sys_step.open_volume [of 7 _ _ demo_volume]) (simp_all add: demo_run0_def demo0(9) demo1(1))

lemma demo_step1: "sys_step fun_cuckoo demo_run1 demo_run2"
  unfolding demo_run2_def
  by (rule sys_step.write_step [of demo_volume _ 3 4 "[1, 2, 3, 4]" fun_cuckoo 0 4])
    (simp_all add: demo_run1_def demo_run0_def demo1(3,4,6) demo2(1))

lemma demo_reach: "sys_reach fun_cuckoo 1 demo_run1" "sys_reach fun_cuckoo 2 demo_run2"
proof -
  have "sys_start demo_run0"
    unfolding sys_start_def
    by (intro exI [of _ "\<lambda>_. 0"] exI [of _ demo_blank])
      (simp add: demo_boot demo_run0_def demo0(1), simp add: demo_blank_def)
  then have "sys_reach fun_cuckoo 0 demo_run0"
    unfolding sys_reach_def by (intro reach_start) (simp add: fun_cuckoo_laws)
  then have r: "sys_reach fun_cuckoo (Suc 0) demo_run1"
    unfolding sys_reach_def using demo_step0 by (rule reach_step)
  then have "sys_reach fun_cuckoo (Suc (Suc 0)) demo_run2"
    unfolding sys_reach_def using demo_step1 by (rule reach_step)
  with r show "sys_reach fun_cuckoo 1 demo_run1" "sys_reach fun_cuckoo 2 demo_run2"
    by (simp_all add: numeral_2_eq_2)
qed

section \<open>The running system\<close>

text \<open>C1. No write is lost: wherever writers, flush, sync and balloon threads can bring the running
  system, what a power failure at that moment leaves in non-volatile memory and on the device
  holds, for every block of every volume, the data last written to it.\<close>
theorem store_survives_power_failure:
  assumes "sys_reach ck n S" "n \<le> 2 ^ 50"
  shows "abs_store (power_failure (mem S)) = promised S"
  using sys_reach_inv [OF assms] failure_store unfolding sys_inv_def sys_at_def by metis

theorem store_survives_power_failure_witness: "abs_store (power_failure (mem demo_run2)) 7 3 = [1, 2, 3, 4]"
proof -
  have "abs_store demo2 = promised demo_run2"
    using sys_reach_inv [OF demo_reach(2)] by (simp add: sys_inv_def sys_at_def demo_run2_def)
  then have "promised demo_run2 7 3 = [1, 2, 3, 4]" using demo2(5) by metis
  with store_survives_power_failure [OF demo_reach(2)] show ?thesis by simp
qed

text \<open>C2. An inode's memory is given back only when its data is safe elsewhere: in every reachable
  state the device holds the data last written to a block, unless an inode that is dirty or waits
  for its sync caches the block.\<close>
theorem device_holds_the_rest:
  assumes "sys_reach ck n S" "n \<le> 2 ^ 50"
  shows "(\<exists>i v. key (mem S) i = Some (v, l) \<and> vid_of (mem S) v = x \<and> st (mem S) i \<in> {DIRTY, SYNC}) \<or>
    disk_block (mem S) x l = promised S x l"
proof (cases "cached (mem S) x l")
  case False
  then show ?thesis using sys_reach_inv [OF assms] abs_uncached [of "mem S" x l] by (simp add: sys_inv_def sys_at_def)
next
  case True
  then obtain i v where k: "key (mem S) i = Some (v, l)" "vid_of (mem S) v = x" by (auto simp: cached_def)
  obtain m where inv: "nvm_inv ck m (mem S)" and G: "promised S = abs_store (mem S)"
    using sys_reach_inv [OF assms] by (auto simp: sys_inv_def sys_at_def)
  note I = nvm_invD [OF inv]
  have "disk_block (mem S) x l = promised S x l" if "st (mem S) i = CLEAN"
    using I(10) k that abs_cached [OF I(9,8) k(1)] G unfolding disk_inv_def by metis
  then show ?thesis using k key_Some(2) [OF k(1)] by (cases "st (mem S) i") blast+
qed

theorem device_holds_the_rest_witness: "disk_block (mem demo_run2) 7 5 = promised demo_run2 7 5"
proof -
  obtain i where "key demo2 = [i \<mapsto> (unat demo_volume, 3)]" using demo2(13) by blast
  then have "\<not> (\<exists>j v. key (mem demo_run2) j = Some (v, 5) \<and> vid_of (mem demo_run2) v = 7 \<and>
      st (mem demo_run2) j \<in> {DIRTY, SYNC})" by (auto simp: demo_run2_def split: if_splits)
  moreover have "(2 :: nat) \<le> 2 ^ 50" by simp
  ultimately show ?thesis using device_holds_the_rest [OF demo_reach(2), of 5 7] by blast
qed

text \<open>C16. In every step of the running system an inode stays in its state or goes on along the
  cycle free, dirty, sync, clean and back to free, or from clean to dirty when its block is
  written again.\<close>
theorem inode_life_cycle:
  assumes "sys_reach ck n S" "n < 2 ^ 50" "sys_step ck S T"
  shows "inode_edge (st (mem S) i) (st (mem T) i)"
proof -
  have "cuckoo_laws ck \<and> sys_inv ck n S"
    using nvm_runs.reach_inv [of ck n S] assms(1,2) by (simp add: sys_reach_def)
  then show ?thesis using sys_step_edge [of ck n S T i] assms(2,3) by simp
qed

theorem inode_life_cycle_witness: "\<exists>i. st demo2 i = DIRTY \<and> inode_edge (st demo1 i) (st demo2 i)"
proof -
  obtain i where "st demo2 i = DIRTY" using demo2(13) by blast
  with inode_life_cycle [OF demo_reach(1) _ demo_step1, of i] show ?thesis
    by (intro exI [of _ i]) (simp add: demo_run1_def demo_run2_def)
qed

section \<open>Single operations\<close>

text \<open>C5. A block write, run on any well-formed state of the system for an open volume, either
  returns with exactly that block of the abstract store replaced by the first bytes of the buffer
  followed by what the block used for the copy held before, or it waits, and it waits exactly
  when the block is being synced or the free inodes run short.\<close>
theorem write_block_spec:
  assumes "nvm_inv ck (Suc m) s" "cuckoo_laws ck" "lbn \<noteq> - 1" "unat v \<in> inuse s"
    "unat count \<le> length buf" "unat count \<le> bsz s"
  shows "if (\<exists>i. key s i = Some (unat v, lbn) \<and> st s i = SYNC) \<or>
      ((\<forall>i. key s i \<noteq> Some (unat v, lbn)) \<and> \<not> isFreeLFQueueEnough s)
    then write_block ck s v lbn local_offset buf count = Inl Blocked
    else \<exists>s'. write_block ck s v lbn local_offset buf count = Inr (ucast count, s') \<and> nvm_inv ck m s' \<and>
      abs_store s' = (abs_store s)(vid_of s (unat v) := (abs_store s (vid_of s (unat v)))
        (lbn := take (unat count) buf @ drop (unat count) (block_table s ! unat (ve_block (volume_table s ! unat v)))))"
    (is "if ?wait then _ else _")
proof (cases ?wait)
  case True
  have "write_block ck s v lbn local_offset buf count = Inl Blocked"
    using write_block_blocked [OF assms(1,4) refl True] .
  with True show ?thesis by (simp only: if_True)
next
  case False
  then have go: "\<forall>i. key s i = Some (unat v, lbn) \<longrightarrow> st s i \<noteq> SYNC"
    "(\<forall>i. key s i \<noteq> Some (unat v, lbn)) \<longrightarrow> isFreeLFQueueEnough s" by blast+
  from write_block_ok [OF assms(1-4) refl assms(5,6) go] False show ?thesis
    unfolding new_data_def by (simp only: if_False) blast
qed

theorem write_block_spec_witness:
  "\<exists>s'. write_block fun_cuckoo demo1 demo_volume 3 0 [1, 2, 3, 4] 2 = Inr (2, s') \<and>
    take 2 (abs_store s' 7 3) = [1, 2]"
proof -
  have inv: "nvm_inv fun_cuckoo (Suc 0) demo1" using nvm_inv_less [OF demo1(2)] by simp
  have "(3 :: u32) \<noteq> - 1" "unat (2 :: u32) \<le> length [1, 2, 3, 4 :: u8]" "unat (2 :: u32) \<le> bsz demo1"
    by (simp_all add: demo1(6))
  from write_block_spec [OF inv fun_cuckoo_laws this(1) demo1(3) this(2,3), of 0] show ?thesis
    using demo1(4,9,13) by (auto simp: isFreeLFQueueEnough_def DEFAULT_FREE_MIN_COUNT_def)
qed

text \<open>C20. \<open>get_volume_entry_idx\<close> returns the entry of a volume that is in use, without changing
  anything, and otherwise takes a free entry for it and opens its file; the abstract store stays
  the same. It needs an entry free, a file that opens, and an id other than the one that marks
  free entries.\<close>
theorem volume_lookup:
  assumes "nvm_inv ck (Suc m) s" "cuckoo_laws ck" "vid \<noteq> - 1" "\<not> open_fails (system s) (get_filename vid)"
    "(\<exists>v \<in> inuse s. vid_of s v = vid) \<or> inuse s \<noteq> {..<nV s}"
  shows "\<exists>v s'. get_volume_entry_idx ck s vid = Inr (v, s') \<and> nvm_inv ck m s' \<and>
    unat v \<in> inuse s' \<and> vid_of s' (unat v) = vid \<and> abs_store s' = abs_store s \<and>
    ((\<exists>v \<in> inuse s. vid_of s v = vid) \<longrightarrow> s' = s)"
  using get_volume_entry_idx_ok [OF assms] by blast

theorem volume_lookup_witness: "\<exists>v s'. get_volume_entry_idx fun_cuckoo demo1 7 = Inr (v, s') \<and> s' = demo1"
proof -
  have inv: "nvm_inv fun_cuckoo (Suc 0) demo1" using nvm_inv_less [OF demo1(2)] by simp
  have "(7 :: u32) \<noteq> - 1" "\<not> open_fails (system demo1) (get_filename 7)" "\<exists>v \<in> inuse demo1. vid_of demo1 v = 7"
    using demo1(3,4) by (auto simp: demo1(10))
  with volume_lookup [OF inv fun_cuckoo_laws] show ?thesis by blast
qed

text \<open>C6. A write of any number of whole blocks at a block boundary returns, whatever the number
  of blocks, reports the bytes asked for, and changes exactly these blocks. Each of them receives
  the first block of the buffer: right for a single block, while the second and later blocks of
  a longer request get the wrong data, because the loop does not advance the buffer.\<close>
theorem durable_write_blocks:
  assumes "nvm_inv ck (Suc (Suc n + m)) s" "cuckoo_laws ck" "vid \<noteq> - 1" "\<not> open_fails (system s) (get_filename vid)"
    "(\<exists>v \<in> inuse s. vid_of s v = vid) \<or> inuse s \<noteq> {..<nV s}" "k + Suc n < 2 ^ 32" "bsz s \<le> length buf"
    "100 + n < unat (inode_free_count s)" "range_quiet s vid k (Suc n)"
  shows "\<exists>s'. nvm_durable_write ck s vid (of_nat (k * bsz s)) buf (of_nat (Suc n * bsz s)) =
      Some (Inr (of_nat (Suc n * bsz s), s')) \<and> nvm_inv ck m s' \<and>
    (\<forall>x l. abs_store s' x l =
      (if x = vid \<and> k \<le> unat l \<and> unat l < k + Suc n then take (bsz s) buf else abs_store s x l))"
  using durable_write_aligned [OF assms] by (auto simp: spread_def)

lemma demo1_quiet: "range_quiet demo1 x k n"
  by (simp add: range_quiet_def demo1(13))

theorem durable_write_blocks_witness:
  "\<exists>s'. nvm_durable_write fun_cuckoo demo1 7 8 [1, 2, 3, 4, 5, 6, 7, 8] 8 = Some (Inr (8, s')) \<and>
    abs_store s' 7 2 = [1, 2, 3, 4] \<and> abs_store s' 7 3 = [1, 2, 3, 4] \<and> abs_store s' 7 4 = [0, 0, 0, 0]"
proof -
  have inv: "nvm_inv fun_cuckoo (Suc (Suc 1 + 0)) demo1" using nvm_inv_less [OF demo1(2)] by simp
  have h: "(7 :: u32) \<noteq> - 1" "\<not> open_fails (system demo1) (get_filename 7)"
    "(\<exists>v \<in> inuse demo1. vid_of demo1 v = 7) \<or> inuse demo1 \<noteq> {..<nV demo1}"
    "2 + Suc 1 < (2 :: nat) ^ 32" "bsz demo1 \<le> length [1, 2, 3, 4, 5, 6, 7, 8 :: u8]" "100 + 1 < unat (inode_free_count demo1)"
    using demo1(3,4) by (auto simp: demo1(6,9,10))
  obtain s' where r: "nvm_durable_write fun_cuckoo demo1 7 (of_nat (2 * bsz demo1)) [1, 2, 3, 4, 5, 6, 7, 8]
      (of_nat (Suc 1 * bsz demo1)) = Some (Inr (of_nat (Suc 1 * bsz demo1), s'))"
    and a: "\<forall>x l. abs_store s' x l = (if x = 7 \<and> 2 \<le> unat l \<and> unat l < 2 + Suc 1
      then take (bsz demo1) [1, 2, 3, 4, 5, 6, 7, 8] else abs_store demo1 x l)"
    using durable_write_blocks [OF inv fun_cuckoo_laws h demo1_quiet] by blast
  have "nvm_durable_write fun_cuckoo demo1 7 8 [1, 2, 3, 4, 5, 6, 7, 8] 8 = Some (Inr (8, s'))"
    using r by (simp add: demo1(6))
  moreover have "abs_store s' 7 2 = [1, 2, 3, 4]" "abs_store s' 7 3 = [1, 2, 3, 4]" "abs_store s' 7 4 = [0, 0, 0, 0]"
    unfolding a [rule_format] by (simp_all add: demo1(5,6))
  ultimately show ?thesis by blast
qed

text \<open>C24. A write of less than a block is carried out as one of a whole block: it reads a block's
  worth of bytes from the buffer, replaces the whole block, and returns the block size instead of
  the count.\<close>
theorem short_write_writes_block:
  assumes "nvm_inv ck (Suc (Suc m)) s" "cuckoo_laws ck" "vid \<noteq> - 1" "\<not> open_fails (system s) (get_filename vid)"
    "(\<exists>v \<in> inuse s. vid_of s v = vid) \<or> inuse s \<noteq> {..<nV s}" "k + 1 < 2 ^ 32" "bsz s \<le> length buf"
    "0 < count" "count \<le> bsz s" "100 \<le> unat (inode_free_count s)" "range_quiet s vid k 1"
  shows "\<exists>s'. nvm_durable_write ck s vid (of_nat (k * bsz s)) buf (of_nat count) =
      Some (Inr (ucast (block_size s), s')) \<and> nvm_inv ck m s' \<and>
    (\<forall>x l. abs_store s' x l = (if x = vid \<and> k = unat l then take (bsz s) buf else abs_store s x l))"
proof -
  obtain s' where s': "nvm_durable_write ck s vid (of_nat (k * bsz s)) buf (of_nat count) =
      Some (Inr (ucast (block_size s), s'))" "nvm_inv ck m s'"
    "abs_store s' = spread (abs_store s) vid k 1 (take (bsz s) buf)"
    using durable_write_short [OF assms] by blast
  have "k \<le> unat l \<and> unat l < k + 1 \<longleftrightarrow> k = unat l" for l :: u32 by auto
  with s' show ?thesis by (intro exI [of _ s']) (simp add: spread_def)
qed

theorem short_write_writes_block_witness:
  "\<exists>s'. nvm_durable_write fun_cuckoo demo1 7 8 [1, 2, 3, 4] 1 = Some (Inr (4, s')) \<and> abs_store s' 7 2 = [1, 2, 3, 4]"
proof -
  have inv: "nvm_inv fun_cuckoo (Suc (Suc 0)) demo1" using nvm_inv_less [OF demo1(2)] by simp
  have h: "(7 :: u32) \<noteq> - 1" "\<not> open_fails (system demo1) (get_filename 7)"
    "(\<exists>v \<in> inuse demo1. vid_of demo1 v = 7) \<or> inuse demo1 \<noteq> {..<nV demo1}"
    "2 + 1 < (2 :: nat) ^ 32" "bsz demo1 \<le> length [1, 2, 3, 4 :: u8]" "0 < (1 :: nat)" "1 \<le> bsz demo1"
    "100 \<le> unat (inode_free_count demo1)"
    using demo1(3,4) by (auto simp: demo1(6,9,10))
  obtain s' where r: "nvm_durable_write fun_cuckoo demo1 7 (of_nat (2 * bsz demo1)) [1, 2, 3, 4] (of_nat 1) =
      Some (Inr (ucast (block_size demo1), s'))"
    and a: "\<forall>x l. abs_store s' x l = (if x = 7 \<and> 2 = unat l then take (bsz demo1) [1, 2, 3, 4] else abs_store demo1 x l)"
    using short_write_writes_block [OF inv fun_cuckoo_laws h demo1_quiet] by blast
  have "nvm_durable_write fun_cuckoo demo1 7 8 [1, 2, 3, 4] 1 = Some (Inr (4, s'))"
    using r by (simp add: demo1(6))
  moreover have "abs_store s' 7 2 = [1, 2, 3, 4]" unfolding a [rule_format] by (simp add: demo1(6))
  ultimately show ?thesis by blast
qed

text \<open>C7. The three stores of the shadow-block write leave the inode's data as it was until the
  last one, and change no other inode's data: a power failure between them finds the old data or
  the new, never a mixture. After the second store, though, the volume and the inode both point to
  the same block, which the next write to the volume would overwrite.\<close>
theorem shadow_write_atomic:
  assumes "nvm_inv ck m s" "key s i = Some (v, lbn)" "unat count \<le> length ptr" "unat count \<le> bsz s"
  shows "\<exists>s1 s2 s3. store_block s (ve_block (volume_table s ! v)) ptr count = Inr s1 \<and>
    store_volume_block s1 v (in_block (inode_table s ! i)) = Inr s2 \<and>
    store_inode_block s2 i (ve_block (volume_table s ! v)) = Inr s3 \<and>
    writeDataToNvmBlock s (of_nat i) offset ptr count = Inr (count, s3) \<and>
    (\<forall>j < nI s. data_of s1 j = data_of s j \<and> data_of s2 j = data_of s j \<and>
       data_of s3 j = (if j = i then new_data s v ptr (unat count) else data_of s j)) \<and>
    ve_block (volume_table s2 ! v) = in_block (inode_table s2 ! i)"
proof -
  note I = nvm_invD [OF assms(1)] and K = key_Some [OF assms(2)]
  have vV: "v < nV s" using inuse_less [OF key_inuse [OF I(9) assms(2)]] .
  have len: "length (inode_table s) = nI s" "length (volume_table s) = nV s" "nI s \<le> 2 ^ 26"
    using I(1) by (simp_all add: shape_inv_def)
  let ?b = "ve_block (volume_table s ! v)"
  have blk: "unat ?b < length (block_table s)" using owner_block(2) [OF I(1,3) vV] .
  then have bl: "length (block_table s ! unat ?b) = bsz s" using I(1) by (simp add: shape_inv_def)
  have iu: "unat (of_nat i :: u32) = i" using K(1) len(3) by (intro unat_of_nat_u32) simp
  let ?s1 = "s\<lparr>block_table := (block_table s)[unat ?b := new_data s v ptr (unat count)]\<rparr>"
  let ?s2 = "?s1\<lparr>volume_table := (volume_table s)[v := (volume_table s ! v)\<lparr>ve_block := in_block (inode_table s ! i)\<rparr>]\<rparr>"
  let ?s3 = "?s2\<lparr>inode_table := (inode_table s)[i := (inode_table s ! i)\<lparr>in_block := ?b\<rparr>]\<rparr>"
  have s1: "store_block s ?b ptr count = Inr ?s1" using blk bl assms(3,4) by (simp add: store_block_def new_data_def)
  have s2: "store_volume_block ?s1 v (in_block (inode_table s ! i)) = Inr ?s2" using vV len by (simp add: store_volume_block_def)
  have s3: "store_inode_block ?s2 i ?b = Inr ?s3" using K(1) len by (simp add: store_inode_block_def)
  have w: "writeDataToNvmBlock s (of_nat i) offset ptr count = Inr (count, ?s3)"
    using K len vV s1 s2 s3 by (simp add: writeDataToNvmBlock_def iu)
  have other: "unat (in_block (inode_table s ! j)) \<noteq> unat ?b" if "j < nI s" for j
    using inode_not_spare [OF I(3), of j v] that vV len by simp
  have d: "data_of ?s1 j = data_of s j \<and> data_of ?s2 j = data_of s j \<and>
      data_of ?s3 j = (if j = i then new_data s v ptr (unat count) else data_of s j)" if j: "j < nI s" for j
  proof -
    have keep: "(block_table s)[unat ?b := y] ! unat (in_block (inode_table s ! j)) = block_table s ! unat (in_block (inode_table s ! j))" for y
      using other [OF j] by (intro nth_list_update_neq) simp
    have "data_of ?s3 j = (if j = i then new_data s v ptr (unat count) else data_of s j)"
    proof (cases "j = i")
      case True
      then show ?thesis using j blk len(1) by (simp add: data_of_def)
    next
      case False
      then show ?thesis using keep by (simp add: data_of_def)
    qed
    then show ?thesis using keep by (simp add: data_of_def)
  qed
  have "ve_block (volume_table ?s2 ! v) = in_block (inode_table ?s2 ! i)" using vV len by simp
  with s1 s2 s3 w d show ?thesis by (intro exI [of _ ?s1] exI [of _ ?s2] exI [of _ ?s3]) simp
qed

theorem shadow_write_atomic_witness:
  "\<exists>i s3. writeDataToNvmBlock demo2 (of_nat i) 0 [9, 9, 9, 9] 4 = Inr (4, s3) \<and> take 4 (data_of s3 i) = [9, 9, 9, 9]"
proof -
  obtain i where i: "key demo2 = [i \<mapsto> (unat demo_volume, 3)]" using demo2(13) by blast
  then have k: "key demo2 i = Some (unat demo_volume, 3)" by simp
  have "unat (4 :: u64) \<le> length [9, 9, 9, 9 :: u8]" "unat (4 :: u64) \<le> bsz demo2" by (simp_all add: demo2(8))
  from shadow_write_atomic [OF demo2(2) k this, of 0] obtain s1 s2 s3 :: "(u32 \<Rightarrow> nat option) nvm" where
    w: "writeDataToNvmBlock demo2 (of_nat i) 0 [9, 9, 9, 9] 4 = Inr (4, s3)"
    and d: "\<forall>j < nI demo2. data_of s1 j = data_of demo2 j \<and> data_of s2 j = data_of demo2 j \<and>
      data_of s3 j = (if j = i then new_data demo2 (unat demo_volume) [9, 9, 9, 9] (unat (4 :: u64)) else data_of demo2 j)"
    by (elim exE conjE) (rule that, assumption, assumption)
  then have "data_of s3 i = new_data demo2 (unat demo_volume) [9, 9, 9, 9] 4" using key_Some(1) [OF k] by simp
  with w show ?thesis by (intro exI [of _ i] exI [of _ s3]) (simp add: new_data_def)
qed

text \<open>C12. A flush writes all but one of a volume's dirty blocks, at most 1024, to the volume's
  file, and hands their inodes on to the sync threads; the rest stays queued in order, and the
  abstract store does not change.\<close>
theorem flush_writes_out:
  assumes "nvm_inv ck (1024 + m) s" "v \<in> inuse s" "contents (inode_dirty_lfqueue s ! v) \<noteq> []" "\<not> io_error (system s)"
  shows "\<exists>s'. nvm_flush s v = Inr s' \<and> nvm_inv ck m s' \<and> abs_store s' = abs_store s \<and>
    (let q = contents (inode_dirty_lfqueue s ! v); k = min 1024 (length q - 1) in
     contents (inode_dirty_lfqueue s' ! v) = drop k q \<and>
     (\<forall>x \<in> set (take k q). st s' (unat x) = SYNC \<and>
        file_block s' (vid_of s v) (in_lbn (inode_table s ! unat x)) = abs_store s (vid_of s v) (in_lbn (inode_table s ! unat x))))"
proof -
  obtain s' where s': "nvm_flush s v = Inr s'" "nvm_inv ck m s'" "abs_store s' = abs_store s" "flush_frame s s'"
    "contents (inode_dirty_lfqueue s' ! v) = drop (flush_size s v) (contents (inode_dirty_lfqueue s ! v))"
    "\<forall>x \<in> set (take (flush_size s v) (idxs (inode_dirty_lfqueue s ! v))). st s' x = SYNC"
    using nvm_flush_ok [OF assms] by blast
  note I = nvm_invD [OF assms(1)] and I' = nvm_invD [OF s'(2)]
  let ?q = "contents (inode_dirty_lfqueue s ! v)"
  have "st s' (unat x) = SYNC \<and> file_block s' (vid_of s v) (in_lbn (inode_table s ! unat x)) =
      abs_store s (vid_of s v) (in_lbn (inode_table s ! unat x))" if x: "x \<in> set (take (flush_size s v) ?q)" for x
  proof -
    have sy: "st s' (unat x) = SYNC" using s'(6) x by (auto simp: idxs_def take_map)
    have "unat x \<in> set (idxs (inode_dirty_lfqueue s ! v))" using x in_set_takeD by (fastforce simp: idxs_def)
    then have "key s (unat x) = Some (v, in_lbn (inode_table s ! unat x))"
      using I(5) inuse_less [OF assms(2)] by (auto simp: dirty_inv_def key_def)
    then have k: "key s' (unat x) = Some (v, in_lbn (inode_table s ! unat x))" and vd: "vid_of s' v = vid_of s v"
      using s'(4) by (simp_all add: flush_frame_def vid_of_def)
    have "file_block s' (vid_of s' v) (in_lbn (inode_table s ! unat x)) = data_of s' (unat x)"
      using I'(10) k sy unfolding disk_inv_def by blast
    then show ?thesis using sy vd abs_cached [OF I'(9,8) k] s'(3) by simp
  qed
  with s' show ?thesis unfolding flush_size_def Let_def by blast
qed

theorem flush_writes_out_witness:
  "\<exists>s' x l. nvm_flush demo3 (unat demo_volume) = Inr s' \<and> st demo3 x = DIRTY \<and> st s' x = SYNC \<and>
    (l = 3 \<and> file_block s' 7 l = [1, 2, 3, 4] \<or> l = 4 \<and> file_block s' 7 l = [5, 6, 7, 8])"
proof -
  let ?q = "contents (inode_dirty_lfqueue demo3 ! unat demo_volume)"
  have inv: "nvm_inv fun_cuckoo (1024 + 0) demo3" using nvm_inv_less [OF demo3(2)] by simp
  from flush_writes_out [OF inv demo3(3,11,10)] obtain s' where s': "nvm_flush demo3 (unat demo_volume) = Inr s'"
    "\<forall>x \<in> set (take (min 1024 (length ?q - 1)) ?q). st s' (unat x) = SYNC \<and>
       file_block s' 7 (in_lbn (inode_table demo3 ! unat x)) = abs_store demo3 7 (in_lbn (inode_table demo3 ! unat x))"
    unfolding Let_def demo3(4) by blast
  obtain x where x: "x \<in> set (take (min 1024 (length ?q - 1)) ?q)" using demo3_dirty(1) by (cases ?q) auto
  then have "unat x \<in> set (idxs (inode_dirty_lfqueue demo3 ! unat demo_volume))"
    using in_set_takeD by (fastforce simp: idxs_def)
  from demo3_dirty(2) [OF this] obtain l where "st demo3 (unat x) = DIRTY" "l = 3 \<or> l = 4"
    "key demo3 (unat x) = Some (unat demo_volume, l)" by blast
  moreover from this have "in_lbn (inode_table demo3 ! unat x) = l" using key_Some(4) by blast
  then have "st s' (unat x) = SYNC \<and> file_block s' 7 l = abs_store demo3 7 l" using s'(2) x by blast
  ultimately show ?thesis using s'(1) demo3(5,6)
    by (intro exI [of _ s'] exI [of _ "unat x"] exI [of _ l]) auto
qed

text \<open>C13. Gathering runs of consecutive blocks into one \<^verbatim>\<open>pwritev\<close> makes no difference: the flush
  does what one that writes every block with a call of its own does, state for state.\<close>
theorem flush_batching_equivalent:
  assumes "nvm_inv ck (1024 + m) s" "v \<in> inuse s" "contents (inode_dirty_lfqueue s ! v) \<noteq> []" "\<not> io_error (system s)"
  shows "nvm_flush s v = nvm_flush_each s v"
  using nvm_flush_each_eq [OF assms] .

theorem flush_batching_equivalent_witness:
  "nvm_flush demo3 (unat demo_volume) = nvm_flush_each demo3 (unat demo_volume)"
proof -
  have inv: "nvm_inv fun_cuckoo (1024 + 0) demo3" using nvm_inv_less [OF demo3(2)] by simp
  show ?thesis by (rule flush_batching_equivalent [OF inv demo3(3,11,10)])
qed

text \<open>C14. \<open>nvm_sync\<close> releases every inode that waited in its queue as clean, and only with its
  data on the device; no inode changes the block it caches, and the abstract store does not change.
  It needs room in the clean queues.\<close>
theorem sync_makes_durable:
  assumes "nvm_inv ck (nI s + m) s" "sync_option s" "k < DEFAULT_NUM_SYNCER"
    "clean_room s (length (contents (inode_sync_lfqueue s ! k)))"
  shows "\<exists>s'. nvm_sync s k = Inr s' \<and> nvm_inv ck m s' \<and> abs_store s' = abs_store s \<and>
    contents (inode_sync_lfqueue s' ! k) = [] \<and> key s' = key s \<and> vid_of s' = vid_of s \<and>
    (\<forall>i \<in> set (idxs (inode_sync_lfqueue s ! k)). st s' i = CLEAN \<and>
      (\<forall>v l. key s' i = Some (v, l) \<longrightarrow> disk_block s' (vid_of s' v) l = abs_store s (vid_of s' v) l))"
proof -
  obtain s' where s': "nvm_sync s k = Inr s'" "nvm_inv ck m s'" "abs_store s' = abs_store s"
    "contents (inode_sync_lfqueue s' ! k) = []" "\<forall>i \<in> set (idxs (inode_sync_lfqueue s ! k)). st s' i = CLEAN"
    "key s' = key s" "vid_of s' = vid_of s"
    using nvm_sync_ok [OF assms] by blast
  note I' = nvm_invD [OF s'(2)]
  have "disk_block s' (vid_of s' v) l = abs_store s (vid_of s' v) l"
    if "st s' i = CLEAN" "key s' i = Some (v, l)" for i v l
    using I'(10) that abs_cached [OF I'(9,8) that(2)] s'(3) unfolding disk_inv_def by metis
  with s' show ?thesis by blast
qed

theorem sync_makes_durable_witness:
  "\<exists>s' i l. nvm_sync demo4 demo_sync = Inr s' \<and> st demo4 i = SYNC \<and> st s' i = CLEAN \<and>
    (l = 3 \<and> disk_block s' 7 l = [1, 2, 3, 4] \<or> l = 4 \<and> disk_block s' 7 l = [5, 6, 7, 8])"
proof -
  have inv: "nvm_inv fun_cuckoo (nI demo4 + 0) demo4" using nvm_inv_less [OF demo4(2)] by (simp add: demo4(4))
  from sync_makes_durable [OF inv demo4(5) demo_sync(1,5)] obtain s' where
    s': "nvm_sync demo4 demo_sync = Inr s'" "key s' = key demo4" "vid_of s' = vid_of demo4"
    "\<forall>i \<in> set (idxs (inode_sync_lfqueue demo4 ! demo_sync)). st s' i = CLEAN \<and>
      (\<forall>v l. key s' i = Some (v, l) \<longrightarrow> disk_block s' (vid_of s' v) l = abs_store demo4 (vid_of s' v) l)" by blast
  obtain i where i: "i \<in> set (idxs (inode_sync_lfqueue demo4 ! demo_sync))" using demo_sync(2) by fastforce
  obtain l where l: "l = 3 \<or> l = 4" "key demo4 i = Some (unat demo_volume, l)" using demo_sync(4) [OF i] by blast
  have "disk_block s' 7 l = abs_store demo3 7 l" using s'(2-4) i l(2) demo4(3,6) by force
  with s'(1,4) i l(1) demo_sync(3) [OF i] demo3(5,6) show ?thesis
    by (intro exI [of _ s'] exI [of _ i] exI [of _ l]) auto
qed

text \<open>C15. A balloon thread's round over its clean queue ends, empties the queue, frees exactly the
  inodes in it that are still clean, and does not change the abstract store.\<close>
theorem balloon_frees_clean:
  assumes "nvm_inv ck (nI s + m) s" "k < DEFAULT_NUM_BALLOON"
  shows "\<exists>s'. fill_free_inodes ck s k = Inr s' \<and> nvm_inv ck m s' \<and> abs_store s' = abs_store s \<and>
    contents (inode_clean_lfqueue s' ! k) = [] \<and>
    (\<forall>i. st s' i = (if i \<in> set (idxs (inode_clean_lfqueue s ! k)) \<and> st s i = CLEAN then FREE else st s i))"
  using fill_free_inodes_ok [OF assms] by blast

theorem balloon_frees_clean_witness:
  "\<exists>k s' i. fill_free_inodes fun_cuckoo demo5 k = Inr s' \<and> st demo5 i = CLEAN \<and> st s' i = FREE \<and>
    abs_store s' 7 3 = [1, 2, 3, 4]"
proof -
  have inv: "nvm_inv fun_cuckoo (nI demo5 + 0) demo5" using nvm_inv_less [OF demo5(2)] by (simp add: demo5(3))
  note I = nvm_invD [OF demo5(2)]
  obtain i where i: "i < nI demo5" "st demo5 i = CLEAN" using demo5(3,5) by auto
  then obtain q where q: "q \<in> set (inode_clean_lfqueue demo5)" "i \<in> set (idxs q)"
    using I(7) unfolding clean_inv_def by blast
  then obtain k where k: "k < DEFAULT_NUM_BALLOON" "i \<in> set (idxs (inode_clean_lfqueue demo5 ! k))"
    using I(1) by (auto simp: in_set_conv_nth shape_inv_def)
  from balloon_frees_clean [OF inv k(1)] obtain s' where s': "fill_free_inodes fun_cuckoo demo5 k = Inr s'"
    "abs_store s' = abs_store demo5"
    "\<forall>i. st s' i = (if i \<in> set (idxs (inode_clean_lfqueue demo5 ! k)) \<and> st demo5 i = CLEAN then FREE else st demo5 i)"
    by blast
  with i(2) k(2) show ?thesis
    by (intro exI [of _ k] exI [of _ s'] exI [of _ i]) (simp add: demo5(4) demo3(5))
qed

section \<open>Start, close and recovery\<close>

text \<open>C17. Formatting a zeroed or recycled segment and starting the system on it succeeds and leaves a
  well-formed state: all parts of the invariant hold, no volume is open, and the abstract store is
  what the files hold. The tables must have the lengths that the layout computes.\<close>
theorem format_and_start:
  fixes s :: "'m nvm"
  assumes "0 < unat (lay_max_inode (nvm_layout nvm sz))" "unat (lay_max_inode (nvm_layout nvm sz)) \<le> 2 ^ 26"
    "length (inode_table s) = unat (lay_max_inode (nvm_layout nvm sz))" "length (volume_table s) = 128"
    "length (block_table s) = unat (lay_max_inode (nvm_layout nvm sz)) + 128" "\<forall>b \<in> set (block_table s). length b = 16384"
    "\<forall>e \<in> set (volume_table s). ve_table e = None" "\<forall>fd. fds (system s) fd = None" "0 \<le> next_fd (system s)"
    "\<forall>a \<ge> next_node s. nodes s a = None"
  shows "\<exists>s1 s2. nvm_structure_build nvm sz s = Inr s1 \<and> nvm_system_init raw s1 = Inr s2 \<and>
    nvm_inv ck (2 ^ 61) s2 \<and> inuse s2 = {} \<and>
    (\<forall>x l. abs_store s2 x l = fblock 16384 (files (system s) (get_filename x)) (unat l))"
proof -
  let ?N = "lay_max_inode (nvm_layout nvm sz)"
  let ?s0 = "s\<lparr>max_volume_entry := MAX_VOLUME_ENTRY, block_size := BLOCK_SIZE, max_inode_entry := ?N\<rparr>"
  let ?it = "upd_upto (\<lambda>i e. e\<lparr>in_state := FREE, in_block := of_nat i\<rparr>) (unat ?N) (inode_table s)"
  let ?vt = "upd_upto (\<lambda>i ve. ve\<lparr>ve_block := of_nat i + ?N\<rparr>) 128 (volume_table s)"
  let ?s1 = "?s0\<lparr>inode_table := ?it, volume_table := ?vt\<rparr>"
  have V: "unat MAX_VOLUME_ENTRY = 128" "unat BLOCK_SIZE = 16384" by (simp_all add: MAX_VOLUME_ENTRY_def BLOCK_SIZE_def)
  have fi: "for_upto format_inode (unat ?N) ?s0 = Inr (?s0\<lparr>inode_table := ?it\<rparr>)"
    using format_inodes [of "unat ?N" ?s0] assms(3) by simp
  have fv: "for_upto format_volume 128 (?s0\<lparr>inode_table := ?it\<rparr>) = Inr ?s1"
    using format_volumes [of 128 "?s0\<lparr>inode_table := ?it\<rparr>"] assms(4) by simp
  have b: "nvm_structure_build nvm sz s = Inr ?s1"
    using fi fv V by (simp add: nvm_structure_build_def Let_def)
  have ob: "block_owners ?s1 = map of_nat [0..<unat ?N + 128]"
  proof (rule nth_equalityI)
    show "length (block_owners ?s1) = length (map (of_nat :: nat \<Rightarrow> u32) [0..<unat ?N + 128])"
      using assms(3,4) by (simp add: block_owners_def)
    fix k assume "k < length (block_owners ?s1)"
    then have k: "k < unat ?N + 128" using assms(3,4) by (simp add: block_owners_def)
    have "(of_nat k :: u32) = of_nat (k - unat ?N) + ?N" if "unat ?N \<le> k"
      using that by (simp add: of_nat_diff)
    moreover have "k - unat ?N < 128" if "unat ?N \<le> k" using that k by linarith
    ultimately show "block_owners ?s1 ! k = map of_nat [0..<unat ?N + 128] ! k"
      using k assms(3,4) by (cases "k < unat ?N") (simp_all add: block_owners_def nth_append)
  qed
  have N: "unat ?N + 128 \<le> 2 ^ 32" using assms(2) by simp
  have "block_inv ?s1"
    unfolding block_inv_def ob
  proof
    show "distinct (map (of_nat :: nat \<Rightarrow> u32) [0..<unat ?N + 128])" by (rule distinct_of_nat [OF N])
    show "\<forall>b \<in> set (map of_nat [0..<unat ?N + 128]). unat (b :: u32) < length (block_table ?s1)"
      using assms(5) N by (auto simp: unat_of_nat_u32)
  qed
  moreover have "\<not> unsaved ?s1 i" for i using assms(3) by (simp add: unsaved_def st_def)
  ultimately have boot: "boot_ok ?s1"
    using assms V by (simp add: boot_ok_def tables_ok_def)
  obtain s2 where s2: "nvm_system_init raw ?s1 = Inr s2" "nvm_inv ck (2 ^ 61) s2" "inuse s2 = {}" "abs_store s2 = file_block ?s1"
    using nvm_system_init_ok [OF boot, of "2 ^ 61" raw ck] by auto
  have "file_block ?s1 x l = fblock 16384 (files (system s) (get_filename x)) (unat l)" for x l
    using V(2) by (simp add: file_block_def)
  with b s2 show ?thesis by (intro exI [of _ ?s1] exI [of _ s2]) simp
qed

definition demo_segment :: "(u32 \<Rightarrow> nat option) nvm" where
  "demo_segment = demo_blank\<lparr>
     inode_table := replicate 126 \<lparr>in_lbn = 0, in_state = FREE, in_volume = None, in_block = 0, in_lock = False\<rparr>,
     volume_table := replicate 128 \<lparr>ve_vid = 0, ve_fd = 0, ve_block = 0, ve_table = None\<rparr>,
     block_table := replicate 254 (replicate 16384 0)\<rparr>"

theorem format_and_start_witness:
  "\<exists>s1 s2. nvm_structure_build 4096 4194304 demo_segment = Inr s1 \<and> nvm_system_init (\<lambda>_. 0) s1 = Inr s2 \<and>
    nvm_inv fun_cuckoo (2 ^ 61) s2"
proof -
  have N: "unat (lay_max_inode (nvm_layout 4096 4194304)) = 126"
    by (simp add: nvm_layout_def layout_defs Let_def)
  have "length (inode_table demo_segment) = 126" "length (volume_table demo_segment) = 128"
    "length (block_table demo_segment) = 254" "\<forall>b \<in> set (block_table demo_segment). length b = 16384"
    "\<forall>e \<in> set (volume_table demo_segment). ve_table e = None" "\<forall>fd. fds (system demo_segment) fd = None"
    "0 \<le> next_fd (system demo_segment)" "\<forall>a \<ge> next_node demo_segment. nodes demo_segment a = None"
    by (simp_all add: demo_segment_def demo_blank_def)
  with format_and_start [of 4096 4194304 demo_segment "\<lambda>_. 0" fun_cuckoo] show ?thesis unfolding N by auto
qed

text \<open>C3. Closing the system makes every write durable: afterwards the device holds the abstract
  store, no inode is dirty or waiting for its sync, and every open file is closed.\<close>
theorem close_makes_durable:
  assumes "nvm_inv ck m s" "\<not> io_error (system s)"
  shows "\<exists>s'. nvm_system_close s = Inr s' \<and> disk_block s' = abs_store s \<and>
    (\<forall>i < nI s. st s' i \<noteq> DIRTY \<and> st s' i \<noteq> SYNC) \<and>
    (\<forall>v \<in> inuse s. fds (system s') (ve_fd (volume_table s ! v)) = None) \<and>
    contents (volume_inuse_lfqueue s') = [] \<and> sys_terminate s'"
  using nvm_system_close_ok [OF assms] by blast

theorem close_makes_durable_witness: "\<exists>s'. nvm_system_close demo2 = Inr s' \<and> disk_block s' 7 3 = [1, 2, 3, 4]"
  using close_makes_durable [OF demo2(2,9)] demo2(5) by metis

text \<open>C4. Round trip: a close followed by a start of a new process gives a well-formed state with the
  same abstract store.\<close>
theorem close_then_start:
  assumes "nvm_inv ck m s" "nV s \<le> 2 ^ 31" "\<not> io_error (system s)" "k \<le> 2 ^ 61"
  shows "\<exists>s1 s2. nvm_system_close s = Inr s1 \<and> nvm_system_init raw (power_failure s1) = Inr s2 \<and>
    nvm_inv ck k s2 \<and> abs_store s2 = abs_store s"
  using close_restart_ok [OF assms] .

theorem close_then_start_witness:
  "\<exists>s1 s2. nvm_system_close demo2 = Inr s1 \<and> nvm_system_init (\<lambda>_. 0) (power_failure s1) = Inr s2 \<and>
    abs_store s2 7 3 = [1, 2, 3, 4]"
proof -
  have "nV demo2 \<le> 2 ^ 31" "0 \<le> (2 ^ 61 :: nat)" by (simp_all add: demo2(7))
  from close_then_start [OF demo2(2) this(1) demo2(9) this(2), of "\<lambda>_. 0"] demo2(5) show ?thesis by metis
qed

text \<open>C23. After a power failure the start writes every block that was dirty or waiting for its sync to
  a file \<open>VOL_id.txt\<close> in the working directory, at offsets that must fit 32 bits. These are not the
  volumes' files: the store that the program then serves is what the device held before, so that
  a block last written shortly before the failure reads as its older version.\<close>
theorem recovery_writes_elsewhere:
  assumes "nvm_inv ck m s" "nV s \<le> 2 ^ 31" "k \<le> 2 ^ 61" "\<not> io_error (system s)"
    "\<And>x. \<not> open_fails (system s) (recovery_filename x)"
    "\<And>i. unsaved s i \<Longrightarrow> bsz s * unat (in_lbn (inode_table s ! i)) < 2 ^ 32"
  shows "\<exists>s'. nvm_system_init raw (power_failure s) = Inr s' \<and> nvm_inv ck k s' \<and>
    (\<forall>i v l. unsaved s i \<longrightarrow> key s i = Some (v, l) \<longrightarrow>
       fblock (bsz s) (files (system s') (recovery_filename (vid_of s v))) (unat l) = abs_store s (vid_of s v) l) \<and>
    abs_store s' = disk_block s"
proof -
  obtain s' where "nvm_system_init raw (power_failure s) = Inr s'" "nvm_inv ck k s'" "abs_store s' = disk_block s"
    using restart_ok [OF assms(1-3), of raw ck] by blast
  with recovery_saves [OF assms, of raw ck] show ?thesis by fastforce
qed

theorem recovery_writes_elsewhere_witness:
  "\<exists>s'. nvm_system_init (\<lambda>_. 0) (power_failure demo2) = Inr s' \<and>
    fblock 4 (files (system s') ''VOL_7.txt'') 3 = [1, 2, 3, 4] \<and> abs_store s' 7 3 = disk_block demo2 7 3"
proof -
  obtain i where i: "key demo2 = [i \<mapsto> (unat demo_volume, 3)]" "st demo2 i = DIRTY" using demo2(13) by blast
  have k: "key demo2 i = Some (unat demo_volume, 3)" using i(1) by simp
  have ui: "unsaved demo2 i" using i(2) key_Some(1) [OF k] by (simp add: unsaved_def)
  have u: "bsz demo2 * unat (in_lbn (inode_table demo2 ! j)) < 2 ^ 32" if "unsaved demo2 j" for j
  proof -
    have j: "j < nI demo2" "st demo2 j \<noteq> FREE" using that by (auto simp: unsaved_def)
    then have "key demo2 j \<noteq> None" using inode_inuse [OF demo2(2) j] by auto
    then have "key demo2 j = Some (unat demo_volume, 3)" using i(1) by (auto split: if_splits)
    from key_Some(4) [OF this] show ?thesis by (simp add: demo2(8))
  qed
  have "nV demo2 \<le> 2 ^ 31" "0 \<le> (2 ^ 61 :: nat)" "\<not> open_fails (system demo2) (recovery_filename x)" for x
    by (simp_all add: demo2(7,10))
  from recovery_writes_elsewhere [OF demo2(2) this(1,2) demo2(9) this(3) u, of "\<lambda>_. 0"] obtain s' where
    s': "nvm_system_init (\<lambda>_. 0) (power_failure demo2) = Inr s'"
    "\<forall>i v l. unsaved demo2 i \<longrightarrow> key demo2 i = Some (v, l) \<longrightarrow>
       fblock (bsz demo2) (files (system s') (recovery_filename (vid_of demo2 v))) (unat l) = abs_store demo2 (vid_of demo2 v) l"
    "abs_store s' = disk_block demo2" by blast
  have "recovery_filename 7 = ''VOL_7.txt''" by (simp add: recovery_filename_def to_string.simps digit_def)
  with s'(2) [rule_format, OF ui k] s'(1,3) demo2(4,5,8) show ?thesis by (intro exI [of _ s']) simp
qed

section \<open>Indices\<close>

text \<open>The index that the write computes from a hash node's inode pointer is the inode's index
  exactly as long as this is below \<open>2 ^ 26\<close>: the distance in bytes is cut to 32 bits before the
  division.\<close>
theorem inode_index_exact: "unat (get_inode_entry_idx_from_hash i) = i \<longleftrightarrow> i < 2 ^ 26"
proof
  have lt: "unat (get_inode_entry_idx_from_hash i) < 2 ^ 26" for i
    using unat_u32_less [of "of_nat (i * SIZEOF_INODE_ENTRY)"]
    by (simp add: get_inode_entry_idx_from_hash_def SIZEOF_INODE_ENTRY_def unat_div less_mult_imp_div_less)
  show "i < 2 ^ 26" if "unat (get_inode_entry_idx_from_hash i) = i" using lt [of i] that by simp
  show "unat (get_inode_entry_idx_from_hash i) = i" if "i < 2 ^ 26"
    using idx_from_hash [of i] that by (simp add: unat_of_nat_u32)
qed

end
