(* ===== verification/NVM_Monitor_Inv.thy ===== *)
theory NVM_Monitor_Inv
  imports NVM_Monitor NVM_Example
begin

text \<open>
  What the monitor thread shows and what it leaves alone: it redraws in place, in columns that line
  up, the totals it shows are the numbers of inodes in each state, and rates come every 200 rounds.
\<close>

section \<open>Columns\<close>

text \<open>A text that takes \<open>n\<close> columns of the row it is printed in.\<close>

definition width :: "string \<Rightarrow> nat \<Rightarrow> bool" where
  "width cs n \<longleftrightarrow> (\<forall>r c. show_text (Text, r, c) cs = (Text, r, c + n))"

named_theorems widths

lemma width_plain: "plain cs \<Longrightarrow> width cs (length cs)"
  by (simp add: width_def show_plain)

lemma width_text: "plain cs \<Longrightarrow> length cs = n \<Longrightarrow> width cs n"
  using width_plain by blast

lemma width_append: "width xs m \<Longrightarrow> width ys n \<Longrightarrow> width (xs @ ys) (m + n)"
  by (simp add: width_def add.assoc)

lemma width_colour [widths]: "width plain_colour 0" "width (queue_coloring f) 0" "width (rate_coloring f) 0"
  by (simp_all add: width_def plain_colour_def queue_coloring_def rate_coloring_def colour_def ESC_def LF_def CR_def)

lemma width_bars [widths]: "width (bars f) 20"
proof -
  have "plain (bars f)" by (auto simp: bars_def plain_def ESC_def LF_def CR_def split: if_splits)
  from width_plain [OF this] show ?thesis by (simp add: bars_def)
qed

lemma width_percent [widths]:
  assumes "0 \<le> x" "x \<le> 999"
  shows "width (show_percent (Fin x)) 10"
proof -
  have "plain (show_percent (Fin x))" by (simp add: show_percent_def) (simp add: ESC_def LF_def CR_def)
  from width_plain [OF this] show ?thesis
    using length_pad [OF length_fixed3 [OF assms]] by (simp add: show_percent_def)
qed

text \<open>The drawing of a queue takes thirty columns, a cell of the gauge thirty-six.\<close>

lemma queue_fullness:
  assumes "lfq_ok m q"
  shows "\<exists>x. percentage (uint (get_size q)) (capacity q) = Fin x \<and> 0 \<le> x \<and> x \<le> 100"
proof -
  have inv: "lfq_inv q" using assms by (simp add: lfq_ok_def)
  have "unat (get_size q) \<le> unat (capacity q)" "0 < unat (capacity q)"
    using lfq_inv_bounds [OF inv] unat_get_size [OF inv] length_contents [of q] by simp_all
  then have "uint (get_size q) \<le> uint (capacity q)" "0 < uint (capacity q)"
    unfolding of_nat_le_iff [where ?'a = int, symmetric] of_nat_less_iff [where ?'a = int, symmetric] by simp_all
  moreover have "uint (get_size q) \<le> 2 ^ 53" using uint_lt2p [of "get_size q"] by simp
  ultimately show ?thesis using percentage_bounds [of "uint (get_size q)" 1 "capacity q"] by simp
qed

lemma width_monitor:
  assumes "lfq_ok m q"
  shows "width (queue_monitor q) 30"
proof -
  obtain x where x: "percentage (uint (get_size q)) (capacity q) = Fin x" "0 \<le> x" "x \<le> 999"
    using queue_fullness [OF assms] order.trans [of _ 100 999] by force
  have "width (queue_coloring (Fin x) @ bars (Fin x) @ show_percent (Fin x) @ plain_colour) (0 + (20 + (10 + 0)))"
    using x by (intro width_append widths)
  then show ?thesis by (simp add: queue_monitor_def x Let_def)
qed

lemma width_cell:
  assumes "\<And>q. q \<in> set qs \<Longrightarrow> lfq_ok m q" "int i < n \<Longrightarrow> i < length qs" "i < 8"
  shows "\<exists>cs. gauge_cell n qs i = Inr cs \<and> width cs 36"
proof (cases "n - 1 < int i")
  case True
  have "plain (replicate 36 CHR '' '')" by (simp add: ESC_def LF_def CR_def)
  from width_plain [OF this] True show ?thesis by (simp add: gauge_cell_def)
next
  case False
  then have i: "i < length qs" using assms(2) by simp
  have "i \<in> {0, 1, 2, 3, 4, 5, 6, 7}" using assms(3) by auto
  then have "length (pad CHR '' '' 2 (to_string i)) = 2"
    by (elim insertE emptyE) (simp_all add: pad_def to_string.simps)
  moreover have "plain (''['' @ pad CHR '' '' 2 (to_string i) @ '']'')"
    by (simp add: ESC_def LF_def CR_def)
  ultimately have "width (''['' @ pad CHR '' '' 2 (to_string i) @ '']'') 4" using width_plain by fastforce
  moreover have "width ''  '' 2" by (rule width_text) (simp_all add: ESC_def LF_def CR_def)
  ultimately have "width ((''['' @ pad CHR '' '' 2 (to_string i) @ '']'') @ queue_monitor (qs ! i) @ ''  '') (4 + (30 + 2))"
    using width_monitor [OF assms(1), of "qs ! i"] i by (intro width_append) simp_all
  with False i show ?thesis by (simp add: gauge_cell_def)
qed

section \<open>Totals\<close>

lemma inv_queues:
  assumes "queue_inv m s"
  shows "q \<in> set (inode_free_lfqueue s) \<Longrightarrow> lfq_ok m q \<and> capacity q = max_inode_entry s"
    "q \<in> set (inode_dirty_lfqueue s) \<Longrightarrow> lfq_ok m q \<and> capacity q = max_inode_entry s"
    "q \<in> set (inode_sync_lfqueue s) \<Longrightarrow> lfq_ok m q \<and> capacity q = max_inode_entry s"
    "q \<in> set (inode_clean_lfqueue s) \<Longrightarrow> lfq_ok m q \<and> capacity q = max_inode_entry s"
  using assms by (simp_all add: queue_inv_def queues_ok_def)

lemma total_size_sum:
  assumes "\<And>q. q \<in> set qs \<Longrightarrow> lfq_inv q" "n \<le> length qs" "n \<le> 2 ^ 32"
  shows "\<exists>t. total_size qs n = Inr t \<and> unat t = (\<Sum>i<n. length (contents (qs ! i))) \<and> unat t \<le> n * (2 ^ 32 - 1)"
  using assms(2,3)
proof (induction n)
  case (Suc n)
  then obtain t where t: "total_size qs n = Inr t" "unat t = (\<Sum>i<n. length (contents (qs ! i)))"
    "unat t \<le> n * (2 ^ 32 - 1)" by auto
  have q: "lfq_inv (qs ! n)" using Suc.prems(1) by (intro assms(1)) simp
  let ?z = "get_size (qs ! n)"
  have z: "unat ?z = length (contents (qs ! n))" "unat ?z \<le> 2 ^ 32 - 1"
    using unat_get_size [OF q] unat_u32_less [of ?z] by simp_all
  then have le: "unat t + unat ?z \<le> Suc n * (2 ^ 32 - 1)" using t(3) by simp
  moreover have "Suc n * (2 ^ 32 - 1) < 2 ^ 64" using Suc.prems(2) by simp
  ultimately have "unat (t + ucast ?z) = unat t + unat ?z"
    using unat_add_no_wrap [of t "ucast ?z"] by (simp add: unat_ucast_u32_u64)
  with Suc.prems t z le show ?case by (intro exI [of _ "t + ucast ?z"]) simp
qed simp

lemma idxs_length: "length (idxs q) = length (contents q)"
  by (simp add: idxs_def)

text \<open>What the invariant says about the sums: the numbers of inodes in each state.\<close>

lemma free_total:
  assumes "nvm_inv ck m s"
  shows "(\<Sum>i<DEFAULT_NUM_FREE. length (contents (inode_free_lfqueue s ! i))) = card {i. i < nI s \<and> st s i = FREE}"
proof -
  let ?q0 = "idxs (inode_free_lfqueue s ! 0)" and ?q1 = "idxs (inode_free_lfqueue s ! 1)"
  have "distinct (?q0 @ ?q1)" "set (?q0 @ ?q1) = {i. i < nI s \<and> st s i = FREE}"
    using nvm_invD(4) [OF assms] by (simp_all add: free_inv_def Let_def)
  then have "length (?q0 @ ?q1) = card {i. i < nI s \<and> st s i = FREE}" by (metis distinct_card)
  then show ?thesis by (simp add: DEFAULT_NUM_FREE_def idxs_length numeral_2_eq_2)
qed

lemma sync_total:
  assumes "nvm_inv ck m s"
  shows "(\<Sum>i<DEFAULT_NUM_SYNCER. length (contents (inode_sync_lfqueue s ! i))) = card {i. i < nI s \<and> st s i = SYNC}"
proof -
  let ?q0 = "idxs (inode_sync_lfqueue s ! 0)" and ?q1 = "idxs (inode_sync_lfqueue s ! 1)"
  have "distinct (?q0 @ ?q1)" "set (?q0 @ ?q1) = {i. i < nI s \<and> st s i = SYNC}"
    using nvm_invD(6) [OF assms] by (simp_all add: sync_inv_def)
  then have "length (?q0 @ ?q1) = card {i. i < nI s \<and> st s i = SYNC}" by (metis distinct_card)
  then show ?thesis by (simp add: DEFAULT_NUM_SYNCER_def idxs_length numeral_2_eq_2)
qed

lemma dirty_total:
  assumes "nvm_inv ck m s"
  shows "(\<Sum>v<nV s. length (contents (inode_dirty_lfqueue s ! v))) = card {i. i < nI s \<and> st s i = DIRTY}"
proof -
  let ?D = "\<lambda>v. {i. i < nI s \<and> st s i = DIRTY \<and> in_volume (inode_table s ! i) = Some v}"
  note I = nvm_invD [OF assms]
  have each: "length (contents (inode_dirty_lfqueue s ! v)) = card (?D v)" if "v < nV s" for v
    using that I(5) distinct_card [of "idxs (inode_dirty_lfqueue s ! v)"] by (simp add: dirty_inv_def idxs_length)
  have "\<exists>v<nV s. in_volume (inode_table s ! i) = Some v" if "i < nI s" "st s i = DIRTY" for i
    using I(9) that by (fastforce simp: hash_inv_def inuse_def)
  then have "{i. i < nI s \<and> st s i = DIRTY} = (\<Union>v\<in>{..<nV s}. ?D v)" by auto
  moreover have "card (\<Union>v\<in>{..<nV s}. ?D v) = (\<Sum>v\<in>{..<nV s}. card (?D v))"
    by (rule card_UN_disjoint) auto
  ultimately show ?thesis using each by simp
qed

lemma clean_total:
  assumes "nvm_inv ck m s"
  shows "card {i. i < nI s \<and> st s i = CLEAN} \<le> (\<Sum>k<DEFAULT_NUM_BALLOON. length (contents (inode_clean_lfqueue s ! k)))"
    "(\<Sum>k<DEFAULT_NUM_BALLOON. length (contents (inode_clean_lfqueue s ! k))) \<le> 8 * nI s"
proof -
  let ?q = "\<lambda>k. inode_clean_lfqueue s ! k"
  note I = nvm_invD [OF assms]
  have len: "length (inode_clean_lfqueue s) = DEFAULT_NUM_BALLOON" using I(1) by (simp add: shape_inv_def)
  have "{i. i < nI s \<and> st s i = CLEAN} \<subseteq> (\<Union>k\<in>{..<DEFAULT_NUM_BALLOON}. set (idxs (?q k)))"
    using I(7) len unfolding clean_inv_def by (fastforce simp: in_set_conv_nth)
  then have "card {i. i < nI s \<and> st s i = CLEAN} \<le> card (\<Union>k\<in>{..<DEFAULT_NUM_BALLOON}. set (idxs (?q k)))"
    by (intro card_mono) simp_all
  also have "\<dots> \<le> (\<Sum>k\<in>{..<DEFAULT_NUM_BALLOON}. card (set (idxs (?q k))))" by (intro card_UN_le) simp
  also have "\<dots> \<le> (\<Sum>k\<in>{..<DEFAULT_NUM_BALLOON}. length (contents (?q k)))"
    by (intro sum_mono) (metis card_length idxs_length)
  finally show "card {i. i < nI s \<and> st s i = CLEAN} \<le> (\<Sum>k<DEFAULT_NUM_BALLOON. length (contents (?q k)))" .
  have "length (contents (?q k)) \<le> nI s" if "k < DEFAULT_NUM_BALLOON" for k
  proof -
    have "?q k \<in> set (inode_clean_lfqueue s)" using that len by simp
    from inv_queues(4) [OF I(2) this] have "lfq_inv (?q k)" "capacity (?q k) = max_inode_entry s"
      by (simp_all add: lfq_ok_def)
    then show ?thesis using lfq_inv_bounds [of "?q k"] length_contents [of "?q k"] by simp
  qed
  then have "(\<Sum>k<DEFAULT_NUM_BALLOON. length (contents (?q k))) \<le> (\<Sum>k<DEFAULT_NUM_BALLOON. nI s)"
    by (intro sum_mono) simp
  then show "(\<Sum>k<DEFAULT_NUM_BALLOON. length (contents (?q k))) \<le> 8 * nI s" by (simp add: DEFAULT_NUM_BALLOON_def)
qed

lemma width_total_line:
  assumes "n \<le> k * unat d" "k \<le> 9" "0 < unat d"
  shows "width (total_line (percentage (int n) d)) 34"
proof -
  have "int n \<le> int k * uint d" "0 < uint d"
    using assms(1,3) unfolding of_nat_le_iff [where ?'a = int, symmetric] of_nat_less_iff [where ?'a = int, symmetric]
    by simp_all
  moreover have "n \<le> 9 * 2 ^ 32" using assms(1) unat_u32_less [of d] mult_le_mono [OF assms(2), of "unat d" "2 ^ 32"] by simp
  ultimately obtain x where "percentage (int n) d = Fin x" "0 \<le> x" "x \<le> of_int (int k * 100)"
    using percentage_bounds [of "int n" "int k" d] assms(2) by auto
  moreover have "of_int (int k * 100) \<le> (999 :: rat)" using assms(2) of_nat_le_iff [where ?'a = rat, of k 9] by simp
  ultimately have x: "percentage (int n) d = Fin x" "0 \<le> x" "x \<le> 999" by simp_all
  have four: "width ''    '' 4" by (rule width_text) (simp_all add: ESC_def LF_def CR_def)
  have "width (queue_coloring (Fin x) @ ''    '' @ bars (Fin x) @ show_percent (Fin x) @ plain_colour) (0 + (4 + (20 + (10 + 0))))"
    using x four by (intro width_append widths)
  then show ?thesis by (simp add: total_line_def x)
qed

lemma gauge_total_ok:
  assumes "nvm_inv ck m s" "0 < nV s" "n \<le> length qs" "n \<le> 2 ^ 32" "\<And>q. q \<in> set qs \<Longrightarrow> lfq_ok m q"
  shows "gauge_total s qs n = Inr (total_line (percentage (int (\<Sum>i<n. length (contents (qs ! i)))) (max_inode_entry s)))"
proof -
  obtain t where t: "total_size qs n = Inr t" "unat t = (\<Sum>i<n. length (contents (qs ! i)))"
    using total_size_sum [of qs n] assms(3-5) by (auto simp: lfq_ok_def)
  have "uint t = int (\<Sum>i<n. length (contents (qs ! i)))" by (simp flip: t(2))
  moreover have "0 < length (inode_dirty_lfqueue s)" using nvm_invD(1) [OF assms(1)] assms(2) by (simp add: shape_inv_def)
  ultimately show ?thesis by (simp add: gauge_total_def t(1))
qed

text \<open>The four totals of the gauge.\<close>

lemma gauge_totals:
  assumes "nvm_inv ck m s" "0 < nV s"
  shows "gauge_total s (inode_free_lfqueue s) DEFAULT_NUM_FREE =
      Inr (total_line (percentage (int (card {i. i < nI s \<and> st s i = FREE})) (max_inode_entry s)))"
    "gauge_total s (inode_dirty_lfqueue s) (nV s) =
      Inr (total_line (percentage (int (card {i. i < nI s \<and> st s i = DIRTY})) (max_inode_entry s)))"
    "gauge_total s (inode_sync_lfqueue s) DEFAULT_NUM_SYNCER =
      Inr (total_line (percentage (int (card {i. i < nI s \<and> st s i = SYNC})) (max_inode_entry s)))"
    "\<exists>n. gauge_total s (inode_clean_lfqueue s) DEFAULT_NUM_BALLOON =
        Inr (total_line (percentage (int n) (max_inode_entry s))) \<and>
      card {i. i < nI s \<and> st s i = CLEAN} \<le> n \<and> n \<le> 8 * nI s"
proof -
  note I = nvm_invD [OF assms(1)]
  note q = inv_queues [OF I(2)]
  have len: "length (inode_free_lfqueue s) = DEFAULT_NUM_FREE" "length (inode_dirty_lfqueue s) = nV s"
    "length (inode_sync_lfqueue s) = DEFAULT_NUM_SYNCER" "length (inode_clean_lfqueue s) = DEFAULT_NUM_BALLOON"
    using I(1) by (simp_all add: shape_inv_def)
  note g = gauge_total_ok [OF assms]
  show "gauge_total s (inode_free_lfqueue s) DEFAULT_NUM_FREE =
      Inr (total_line (percentage (int (card {i. i < nI s \<and> st s i = FREE})) (max_inode_entry s)))"
    using q(1) len(1) by (intro g [of DEFAULT_NUM_FREE "inode_free_lfqueue s", unfolded free_total [OF assms(1)]])
      (simp_all add: DEFAULT_NUM_FREE_def)
  show "gauge_total s (inode_dirty_lfqueue s) (nV s) =
      Inr (total_line (percentage (int (card {i. i < nI s \<and> st s i = DIRTY})) (max_inode_entry s)))"
    using q(2) len(2) unat_u32_less [of "max_volume_entry s"]
    by (intro g [of "nV s" "inode_dirty_lfqueue s", unfolded dirty_total [OF assms(1)]]) simp_all
  show "gauge_total s (inode_sync_lfqueue s) DEFAULT_NUM_SYNCER =
      Inr (total_line (percentage (int (card {i. i < nI s \<and> st s i = SYNC})) (max_inode_entry s)))"
    using q(3) len(3) by (intro g [of DEFAULT_NUM_SYNCER "inode_sync_lfqueue s", unfolded sync_total [OF assms(1)]])
      (simp_all add: DEFAULT_NUM_SYNCER_def)
  have "gauge_total s (inode_clean_lfqueue s) DEFAULT_NUM_BALLOON =
      Inr (total_line (percentage (int (\<Sum>k<DEFAULT_NUM_BALLOON. length (contents (inode_clean_lfqueue s ! k)))) (max_inode_entry s)))"
    using q(4) len(4) by (intro g) (simp_all add: DEFAULT_NUM_BALLOON_def)
  then show "\<exists>n. gauge_total s (inode_clean_lfqueue s) DEFAULT_NUM_BALLOON =
        Inr (total_line (percentage (int n) (max_inode_entry s))) \<and>
      card {i. i < nI s \<and> st s i = CLEAN} \<le> n \<and> n \<le> 8 * nI s"
    using clean_total [OF assms(1)] by blast
qed

section \<open>Drawing in place\<close>

lemma gauge_row_ok:
  assumes "nvm_inv ck m s" "min (sint num_flush) 8 \<le> int (nV s)" "i < 8"
  shows "\<exists>row. gauge_row num_flush s i = Inr (row @ [LF]) \<and> width row 144"
proof -
  note I = nvm_invD [OF assms(1)]
  note q = inv_queues [OF I(2)]
  have len: "length (inode_free_lfqueue s) = DEFAULT_NUM_FREE" "length (inode_dirty_lfqueue s) = nV s"
    "length (inode_sync_lfqueue s) = DEFAULT_NUM_SYNCER" "length (inode_clean_lfqueue s) = DEFAULT_NUM_BALLOON"
    using I(1) by (simp_all add: shape_inv_def)
  have drawn: "i < nV s" if "int i < sint num_flush" using that assms(2,3) by linarith
  obtain a where a: "gauge_cell (int DEFAULT_NUM_FREE) (inode_free_lfqueue s) i = Inr a" "width a 36"
    using width_cell [of "inode_free_lfqueue s" m i "int DEFAULT_NUM_FREE"] q(1) len assms(3) by auto
  obtain b where b: "gauge_cell (sint num_flush) (inode_dirty_lfqueue s) i = Inr b" "width b 36"
    using width_cell [of "inode_dirty_lfqueue s" m i "sint num_flush"] q(2) len drawn assms(3) by auto
  obtain c where c: "gauge_cell (int DEFAULT_NUM_SYNCER) (inode_sync_lfqueue s) i = Inr c" "width c 36"
    using width_cell [of "inode_sync_lfqueue s" m i "int DEFAULT_NUM_SYNCER"] q(3) len assms(3) by auto
  obtain d where d: "gauge_cell (int DEFAULT_NUM_BALLOON) (inode_clean_lfqueue s) i = Inr d" "width d 36"
    using width_cell [of "inode_clean_lfqueue s" m i "int DEFAULT_NUM_BALLOON"] q(4) len assms(3) by auto
  have "width (a @ b @ c @ d) (36 + (36 + (36 + 36)))"
    using a b c d by (intro width_append)
  then show ?thesis using a b c d by (intro exI [of _ "a @ b @ c @ d"]) (simp add: gauge_row_def)
qed

lemma show_LF: "show_text (Text, r, c) [LF] = (Text, r + 1, 0)"
  by (simp add: LF_def ESC_def)

lemma gauge_rows_ok:
  assumes "nvm_inv ck m s" "min (sint num_flush) 8 \<le> int (nV s)" "k \<le> 8"
  shows "\<exists>rows. gauge_rows num_flush s k = Inr rows \<and> (\<forall>r. show_text (Text, r, 0) rows = (Text, r + int k, 0))"
  using assms(3)
proof (induction k)
  case (Suc k)
  then obtain rows where rows: "gauge_rows num_flush s k = Inr rows"
    "\<And>r. show_text (Text, r, 0) rows = (Text, r + int k, 0)" by auto
  obtain row where row: "gauge_row num_flush s k = Inr (row @ [LF])" "width row 144"
    using gauge_row_ok [OF assms(1,2), of k] Suc.prems by auto
  have "show_text (Text, r, 0) ((row @ [LF]) @ rows) = (Text, r + int (Suc k), 0)" for r
    using row(2) unfolding width_def show_text_simps(3) by (simp add: show_LF rows(2) del: show_text_simps(2))
  with rows(1) row(1) show ?case by (intro exI [of _ "(row @ [LF]) @ rows"]) simp
qed simp

text \<open>Moving up row by row, with or without a blank before the carriage return.\<close>

lemma show_ups:
  assumes "\<And>r c. show_text (Text, r, c) cs = (Text, r + d, 0)"
  shows "show_text (Text, r, c) (concat (replicate (Suc k) cs)) = (Text, r + d * int (Suc k), 0)"
proof (induction k arbitrary: r c)
  case 0
  then show ?case by (simp add: assms)
next
  case (Suc k)
  have "show_text (Text, r, c) (concat (replicate (Suc (Suc k)) cs)) =
      show_text (Text, r + d, 0) (concat (replicate (Suc k) cs))"
    by (subst replicate_Suc) (simp add: assms)
  also have "\<dots> = (Text, r + d + d * int (Suc k), 0)" by (rule Suc)
  finally show ?case by (simp add: algebra_simps)
qed

lemma gauge_in_place:
  assumes "nvm_inv ck m s" "0 < nV s" "min (sint num_flush) 8 \<le> int (nV s)"
  shows "\<exists>out. printLFQueueGauge num_flush s = Inr out \<and> (\<forall>r. show_text (Text, r, 0) out = (Text, r, 0))"
proof -
  obtain rows where rows: "gauge_rows num_flush s (MONITORING_AMOUNT + 1) = Inr rows"
    "\<And>r. show_text (Text, r, 0) rows = (Text, r + 8, 0)"
    using gauge_rows_ok [OF assms(1,3), of 8] by (auto simp: MONITORING_AMOUNT_def)
  obtain a b c d where t: "gauge_total s (inode_free_lfqueue s) DEFAULT_NUM_FREE = Inr a"
    "gauge_total s (inode_dirty_lfqueue s) (unat (max_volume_entry s)) = Inr b"
    "gauge_total s (inode_sync_lfqueue s) DEFAULT_NUM_SYNCER = Inr c"
    "gauge_total s (inode_clean_lfqueue s) DEFAULT_NUM_BALLOON = Inr d"
    and w: "width a 34" "width b 34" "width c 34" "width d 34"
  proof -
    have card: "card {i. i < nI s \<and> st s i = x} \<le> 1 * nI s" for x
      using card_mono [of "{..<nI s}" "{i. i < nI s \<and> st s i = x}"] by auto
    have pos: "0 < nI s" using nvm_invD(1) [OF assms(1)] by (simp add: shape_inv_def)
    obtain n where n: "gauge_total s (inode_clean_lfqueue s) DEFAULT_NUM_BALLOON =
        Inr (total_line (percentage (int n) (max_inode_entry s)))" "n \<le> 8 * nI s"
      using gauge_totals(4) [OF assms(1,2)] by blast
    show thesis
      by (rule that [OF gauge_totals(1-3) [OF assms(1,2)] n(1)])
        (rule width_total_line [OF card _ pos] width_total_line [OF n(2) _ pos]; simp)+
  qed
  have two: "width ''  '' 2" by (rule width_text) (simp_all add: ESC_def LF_def CR_def)
  define totals where "totals = (a @ ''  '') @ (b @ plain_colour @ ''  '') @ (c @ ''  '') @ (d @ ''  '')"
  have "width ((a @ ''  '') @ (b @ plain_colour @ ''  '') @ (c @ ''  '') @ (d @ ''  '')) ((34 + 2) + ((34 + (0 + 2)) + ((34 + 2) + (34 + 2))))"
    using w two by (intro width_append widths)
  then have "show_text (Text, r, c) totals = (Text, r, c + 144)" for r c by (simp add: totals_def width_def del: show_text_simps)
  moreover have "show_text (Text, r, 0) gauge_header = (Text, r + 1, 0)" for r
    by (simp add: gauge_header_def ESC_def LF_def CR_def)
  moreover have "show_text (Text, r, c) (concat (replicate (MONITORING_AMOUNT + 2) (cursor_up @ [CR]))) = (Text, r - 9, 0)" for r c
    using show_ups [of "cursor_up @ [CR]" "- 1" r c 8]
    by (simp add: MONITORING_AMOUNT_def cursor_up_def ESC_def LF_def CR_def del: replicate.simps)
  ultimately have scr: "show_text (Text, r, 0) (gauge_header @ rows @ totals @
      concat (replicate (MONITORING_AMOUNT + 2) (cursor_up @ [CR]))) = (Text, r, 0)" for r
    unfolding show_text_simps(3) rows(2) by (simp add: rows(2) del: show_text_simps replicate.simps add_2_eq_Suc')
  show ?thesis
    unfolding printLFQueueGauge_def rows(1) t rbind_simps totals_def append_assoc
    by (rule exI, rule conjI, rule refl, rule allI, rule scr [unfolded totals_def append_assoc])
qed

lemma rates_in_place: "show_text (Text, r, 0) (fst (printThroughput now later m)) = (Text, r, 0)"
proof -
  have app: "\<exists>w. width xs w \<Longrightarrow> \<exists>w. width ys w \<Longrightarrow> \<exists>w. width (xs @ ys) w" for xs ys
    using width_append by blast
  have pl: "plain l \<Longrightarrow> \<exists>w. width l w" for l using width_plain by blast
  have colour: "\<exists>w. width plain_colour w" "\<exists>w. width (rate_coloring x) w" for x using widths by blast+
  have rate: "\<exists>w. width (show_rate l x) w" if "\<exists>w. width l w" for l x
    unfolding show_rate_def by (rule app [OF that app [OF colour(2) app [OF pl pl]]]) (simp_all add: ESC_def LF_def CR_def)
  define x where "x = dsub (TimeSpecToSeconds now) (TimeSpecToSeconds (time_recorder m))"
  define rates where "rates = show_rate ''    clean->free: '' (gib_rate (mon_free m) x) @
      show_rate (plain_colour @ ''    free->dirty: '') (gib_rate (mon_dirty m) x) @
      show_rate (plain_colour @ ''    dirty->sync: '') (gib_rate (mon_sync m) x) @
      show_rate (plain_colour @ ''    sync->clean: '') (gib_rate (mon_clean m) x) @ plain_colour"
  have "\<exists>w. width rates w"
    unfolding rates_def by (intro app rate colour pl) (simp_all add: ESC_def LF_def CR_def)
  then obtain w where w: "width rates w" by blast
  have down: "show_text (Text, r, c) (concat (replicate (MONITORING_AMOUNT + 3) [LF, CHR '' '', CR])) = (Text, r + 10, 0)" for r c
    using show_ups [of "[LF, CHR '' '', CR]" 1 r c 9]
    by (simp add: MONITORING_AMOUNT_def ESC_def LF_def CR_def del: replicate.simps)
  have up: "show_text (Text, r, c) (concat (replicate (MONITORING_AMOUNT + 3) (cursor_up @ '' '' @ [CR]))) = (Text, r - 10, 0)" for r c
    using show_ups [of "cursor_up @ '' '' @ [CR]" "- 1" r c 9]
    by (simp add: MONITORING_AMOUNT_def cursor_up_def ESC_def LF_def CR_def del: replicate.simps)
  have "fst (printThroughput now later m) = concat (replicate (MONITORING_AMOUNT + 3) [LF, CHR '' '', CR]) @ rates @
      concat (replicate (MONITORING_AMOUNT + 3) (cursor_up @ '' '' @ [CR]))"
    unfolding printThroughput_def rates_def x_def Let_def fst_conv append_assoc by (rule refl)
  then show ?thesis using w down up unfolding width_def by (simp only: show_text_simps(3)) simp
qed

section \<open>What a round does\<close>

text \<open>C25. A round of the monitor thread never fails, leaves the cursor where it was, so that the next
  round draws over it, and changes only its own counters: the invariant and the abstract store stay.
  Hypotheses: at most as many dirty queues are drawn as there are volumes.\<close>
theorem monitor_redraws_in_place:
  assumes "nvm_inv ck m s" "0 < nV s" "min (sint num_flush) 8 \<le> int (nV s)"
  shows "\<exists>out counter' s'. nvm_monitor num_flush now later (counter, s) = Inr (out, counter', s') \<and>
    (\<forall>r. show_text (Text, r, 0) out = (Text, r, 0)) \<and>
    (\<exists>x. s' = s\<lparr>mon := x\<rparr>) \<and> nvm_inv ck m s' \<and> abs_store s' = abs_store s"
proof -
  obtain out where out: "printLFQueueGauge num_flush s = Inr out" "\<And>r. show_text (Text, r, 0) out = (Text, r, 0)"
    using gauge_in_place [OF assms] by blast
  show ?thesis
  proof (cases "counter = 200")
    case True
    obtain rates x where x: "printThroughput now later (mon s) = (rates, x)" by fastforce
    with True out rates_in_place [of _ now later "mon s"] show ?thesis
      by (intro exI [of _ "out @ rates"] exI [of _ "1 :: int"] exI [of _ "s\<lparr>mon := x\<rparr>"])
        (auto simp: nvm_monitor_def monitor_irrelevant assms(1))
  next
    case False
    with out assms(1) show ?thesis by (auto simp: nvm_monitor_def intro: exI [of _ "mon s"])
  qed
qed

text \<open>The rows of the gauge line up: each takes 144 columns, four cells of 36, like the header, and
  no percentage ever needs more than its seven columns.\<close>
theorem gauge_rows_line_up:
  assumes "nvm_inv ck m s" "min (sint num_flush) 8 \<le> int (nV s)" "i < 8"
  shows "\<exists>row. gauge_row num_flush s i = Inr (row @ [LF]) \<and>
    show_text (Text, r, 0) row = (Text, r, 144) \<and>
    show_text (Text, r, 0) (butlast gauge_header) = (Text, r, 144)"
proof -
  obtain row where "gauge_row num_flush s i = Inr (row @ [LF])" "width row 144"
    using gauge_row_ok [OF assms] by blast
  moreover have "show_text (Text, r, 0) (butlast gauge_header) = (Text, r, 144)"
    by (simp add: gauge_header_def ESC_def LF_def CR_def)
  ultimately show ?thesis by (auto simp: width_def)
qed

text \<open>The totals under the gauge are the shares of the inodes that are free, dirty and being
  synced. The last one is at least the share of the clean inodes: entries of the clean queues may be
  out of date, so that it can be more, up to 800 percent.\<close>
theorem gauge_shows_inode_states:
  assumes "nvm_inv ck m s" "0 < nV s"
  shows "gauge_total s (inode_free_lfqueue s) DEFAULT_NUM_FREE =
      Inr (total_line (percentage (int (card {i. i < nI s \<and> st s i = FREE})) (max_inode_entry s))) \<and>
    gauge_total s (inode_dirty_lfqueue s) (nV s) =
      Inr (total_line (percentage (int (card {i. i < nI s \<and> st s i = DIRTY})) (max_inode_entry s))) \<and>
    gauge_total s (inode_sync_lfqueue s) DEFAULT_NUM_SYNCER =
      Inr (total_line (percentage (int (card {i. i < nI s \<and> st s i = SYNC})) (max_inode_entry s))) \<and>
    (\<exists>n. gauge_total s (inode_clean_lfqueue s) DEFAULT_NUM_BALLOON =
        Inr (total_line (percentage (int n) (max_inode_entry s))) \<and>
      card {i. i < nI s \<and> st s i = CLEAN} \<le> n \<and> n \<le> 8 * nI s)"
  using gauge_totals [OF assms] by blast

text \<open>The bars of a queue: a queue with \<open>x\<close> percent shows one bar more than \<open>x\<close> has whole
  twentieths, at most twenty. So an empty queue shows a bar, and twenty bars do not mean full.\<close>
theorem queue_bars:
  assumes "lfq_ok m q"
  shows "\<exists>x k. percentage (uint (get_size q)) (capacity q) = Fin x \<and> 0 \<le> x \<and> x \<le> 100 \<and>
    k = min 20 (nat \<lfloor>x / 5\<rfloor> + 1) \<and> 1 \<le> k \<and>
    queue_monitor q = queue_coloring (Fin x) @ (replicate k CHR ''|'' @ replicate (20 - k) CHR ''-'') @
      show_percent (Fin x) @ plain_colour"
proof -
  obtain x where x: "percentage (uint (get_size q)) (capacity q) = Fin x" "0 \<le> x" "x \<le> 100"
    using queue_fullness [OF assms] by blast
  show ?thesis using x bars_Fin [OF x(2)]
    by (intro exI [of _ x] exI [of _ "min 20 (nat \<lfloor>x / 5\<rfloor> + 1)"]) (simp add: queue_monitor_def Let_def)
qed

section \<open>Rounds\<close>

text \<open>The rounds of the thread; other threads change the system from one to the next.\<close>

fun monitor_run :: "u32 \<Rightarrow> int \<Rightarrow> (timespec \<times> timespec \<times> 'm nvm) list \<Rightarrow> (string list \<times> int) res" where
  "monitor_run num_flush counter [] = Inr ([], counter)"
| "monitor_run num_flush counter ((now, later, s) # rest) =
     rbind (nvm_monitor num_flush now later (counter, s)) (\<lambda>(out, counter', s').
     rbind (monitor_run num_flush counter' rest) (\<lambda>(outs, c). Inr (out # outs, c)))"

definition round_output :: "u32 \<Rightarrow> bool \<Rightarrow> timespec \<times> timespec \<times> 'm nvm \<Rightarrow> string" where
  "round_output num_flush rates x = (case x of (now, later, s) \<Rightarrow>
     projr (printLFQueueGauge num_flush s) @ (if rates then fst (printThroughput now later (mon s)) else []))"

lemma monitor_run_outputs:
  assumes "\<forall>x \<in> set xs. \<exists>g. printLFQueueGauge num_flush (snd (snd x)) = Inr g"
    "counter = (if k = 0 then 200 else int ((k - 1) mod 200) + 1)"
  shows "\<exists>c. monitor_run num_flush counter xs =
    Inr (map (\<lambda>(j, x). round_output num_flush (j mod 200 = 0) x) (zip [k..<k + length xs] xs), c)"
  using assms
proof (induction xs arbitrary: counter k)
  case (Cons x xs)
  obtain now later s where x: "x = (now, later, s)" by (cases x)
  obtain g where g: "printLFQueueGauge num_flush s = Inr g" using Cons.prems(1) x by auto
  have two: "counter = 200 \<longleftrightarrow> k mod 200 = 0"
    using Cons.prems(2) by (cases k) (auto simp: mod_Suc)
  let ?c = "if k mod 200 = 0 then 1 else counter + 1"
  have nx: "?c = (if Suc k = 0 then 200 else int ((Suc k - 1) mod 200) + 1)"
    using Cons.prems(2) by (cases k) (auto simp: mod_Suc)
  obtain c where c: "monitor_run num_flush ?c xs =
      Inr (map (\<lambda>(j, x). round_output num_flush (j mod 200 = 0) x) (zip [Suc k..<Suc k + length xs] xs), c)"
    using Cons.IH [OF _ nx] Cons.prems(1) by (meson list.set_intros(2))
  have upt: "[k..<k + length (x # xs)] = k # [Suc k..<Suc k + length xs]" by (simp add: upt_rec)
  show ?case
    unfolding upt using c two g by (cases "k mod 200 = 0")
      (simp_all add: x nvm_monitor_def round_output_def split_beta Let_def)
qed simp

text \<open>However the system changes between the rounds, the thread prints the gauge every time and the
  rates in its first round and then in every 200th; printing them sets the four counters back to zero
  and notes the time.\<close>
theorem rates_every_200_rounds:
  assumes "\<forall>x \<in> set xs. nvm_inv ck m (snd (snd x)) \<and> 0 < nV (snd (snd x)) \<and>
    min (sint num_flush) 8 \<le> int (nV (snd (snd x)))"
  shows "(\<exists>c. monitor_run num_flush 200 xs =
      Inr (map (\<lambda>(j, x). round_output num_flush (j mod 200 = 0) x) (zip [0..<length xs] xs), c)) \<and>
    snd (printThroughput now later x) =
      \<lparr>mon_free = 0, mon_dirty = 0, mon_clean = 0, mon_sync = 0, time_recorder = later\<rparr>"
proof
  have "\<forall>x \<in> set xs. \<exists>g. printLFQueueGauge num_flush (snd (snd x)) = Inr g"
    using gauge_in_place assms by meson
  from monitor_run_outputs [OF this, where k = 0 and counter = 200]
  show "\<exists>c. monitor_run num_flush 200 xs =
      Inr (map (\<lambda>(j, x). round_output num_flush (j mod 200 = 0) x) (zip [0..<length xs] xs), c)" by simp
qed (simp add: printThroughput_def reset_def Let_def)

section \<open>On the example\<close>

lemma demo3_drawable: "0 < nV demo3" "min (sint (2 :: u32)) 8 \<le> int (nV demo3)"
  by (simp_all add: demo3)

theorem monitor_redraws_in_place_witness:
  "\<exists>out counter' s'. nvm_monitor 2 \<lparr>tv_sec = 5, tv_nsec = 0\<rparr> \<lparr>tv_sec = 5, tv_nsec = 9\<rparr> (200, demo3) = Inr (out, counter', s') \<and>
     show_text (Text, 3, 0) out = (Text, 3, 0) \<and> abs_store s' = abs_store demo3"
  using monitor_redraws_in_place [OF demo3(2) demo3_drawable, of "\<lparr>tv_sec = 5, tv_nsec = 0\<rparr>" "\<lparr>tv_sec = 5, tv_nsec = 9\<rparr>" 200]
  by blast

theorem gauge_rows_line_up_witness:
  "\<exists>row. gauge_row 2 demo3 1 = Inr (row @ [LF]) \<and> show_text (Text, 0, 0) row = (Text, 0, 144)"
  using gauge_rows_line_up [OF demo3(2) demo3_drawable(2), of 1 0] by auto

theorem gauge_shows_inode_states_witness:
  "gauge_total demo3 (inode_dirty_lfqueue demo3) 2 =
     Inr (total_line (percentage (int (card {i. i < 128 \<and> st demo3 i = DIRTY})) 128))"
  using gauge_shows_inode_states [OF demo3(2) demo3_drawable(1)] by (simp add: demo3)

theorem queue_bars_witness:
  "queue_monitor (new_lfqueue (\<lambda>_. 0 :: u32) 4) =
     queue_coloring (Fin 0) @ (''|'' @ replicate 19 CHR ''-'') @ show_percent (Fin 0) @ plain_colour"
proof -
  let ?q = "new_lfqueue (\<lambda>_. 0 :: u32) 4"
  have ok: "lfq_ok 1 ?q" by (rule lfq_ok_new) simp_all
  then have "unat (get_size ?q) = 0" using unat_get_size [of ?q] contents_new [of "\<lambda>_. 0" 4] by (simp add: lfq_ok_def)
  then have "get_size ?q = 0" by (simp add: unat_eq_0)
  then have "percentage (uint (get_size ?q)) (capacity ?q) = Fin 0"
    using percentage_ends(2) [of 4] by (simp add: new_lfqueue_def)
  with queue_bars [OF ok] show ?thesis by auto
qed

theorem rates_every_200_rounds_witness:
  "\<exists>c out. monitor_run 2 200 [(\<lparr>tv_sec = 5, tv_nsec = 0\<rparr>, \<lparr>tv_sec = 5, tv_nsec = 9\<rparr>, demo3)] = Inr ([out], c)"
proof -
  have "\<forall>x \<in> set [(\<lparr>tv_sec = 5, tv_nsec = 0\<rparr>, \<lparr>tv_sec = 5, tv_nsec = 9\<rparr>, demo3)]. nvm_inv fun_cuckoo (2 ^ 58) (snd (snd x)) \<and>
      0 < nV (snd (snd x)) \<and> min (sint (2 :: u32)) 8 \<le> int (nV (snd (snd x)))"
    using demo3(2) demo3_drawable by simp
  from rates_every_200_rounds [OF this] show ?thesis by fastforce
qed

end
