(* ===== verification/NVM_Shm.thy ===== *)
theory NVM_Shm
  imports NVM_Init
begin

text \<open>
  The memory segment that stands for non-volatile memory (\<^verbatim>\<open>src/nvm0nvm.cc\<close>): getting and attaching it,
  reading it once from end to end so that its pages are there, and giving it back. The results of
  the system calls are a parameter; \<open>exit(0)\<close> after a failed one is the fault \<open>Exited\<close>.
\<close>

record shm_calls =
  shmget :: int
  shmat :: u64
  shmdt :: int
  shmctl :: int

definition PAGE_FAULT_UNIT_SIZE :: u64 where "PAGE_FAULT_UNIT_SIZE = 2 ^ 12"

text \<open>The loop that reads a byte in every page, up to \<open>e\<close>; its pointer may wrap around at the top.
  It returns the addresses read.\<close>

partial_function (option) touch_pages :: "u64 \<Rightarrow> u64 \<Rightarrow> u64 list option" where
  "touch_pages e p =
     (if p < e then Option.bind (touch_pages e (p + PAGE_FAULT_UNIT_SIZE)) (\<lambda>ps. Some (p # ps)) else Some [])"

definition create_nvm_in_shm :: "shm_calls \<Rightarrow> u64 \<Rightarrow> (u64 \<times> u64 list) res option" where
  "create_nvm_in_shm c nvm_size =
     (if shmget c = - 1 then Some (Inl Exited)
      else if shmat c = - 1 then Some (Inl Exited)
      else Option.bind (touch_pages (shmat c + nvm_size) (shmat c)) (\<lambda>ps. Some (Inr (shmat c, ps))))"

definition remove_nvm_in_shm :: "shm_calls \<Rightarrow> unit res" where
  "remove_nvm_in_shm c =
     (if shmget c = - 1 then Inl Exited
      else if shmdt c = - 1 then Inl Exited
      else if shmctl c < 0 then Inl Exited
      else Inr ())"

definition nvm_structure_destroy :: "shm_calls \<Rightarrow> unit res" where
  "nvm_structure_destroy c = remove_nvm_in_shm c"

text \<open>\<open>nvm_structure_build\<close> with the first thing it does.\<close>

definition nvm_structure_create :: "shm_calls \<Rightarrow> u64 \<Rightarrow> 'm nvm \<Rightarrow> 'm nvm res option" where
  "nvm_structure_create c nvm_size s =
     Option.bind (create_nvm_in_shm c nvm_size) (\<lambda>r.
       Some (rbind r (\<lambda>(nvm, ps). nvm_structure_build nvm nvm_size s)))"

section \<open>What the loop reads\<close>

lemma touch_pages_ok:
  assumes "unat e + 4096 \<le> 2 ^ 64"
  shows "\<exists>ps. touch_pages e p = Some ps \<and> (\<forall>x \<in> set ps. p \<le> x \<and> x < e) \<and>
    (\<forall>a. unat p \<le> a \<and> a < unat e \<longrightarrow> (\<exists>x \<in> set ps. unat x \<le> a \<and> a < unat x + 4096))"
proof (induction "unat e - unat p" arbitrary: p rule: less_induct)
  case less
  show ?case
  proof (cases "p < e")
    case False
    then show ?thesis by (subst touch_pages.simps) (simp add: word_less_nat_alt)
  next
    case True
    then have lt: "unat p < unat e" by (simp add: word_less_nat_alt)
    have s: "unat (p + PAGE_FAULT_UNIT_SIZE) = unat p + 4096"
      using lt assms by (subst unat_add_no_wrap) (simp_all add: PAGE_FAULT_UNIT_SIZE_def)
    have "unat e - unat (p + PAGE_FAULT_UNIT_SIZE) < unat e - unat p" using s lt by linarith
    from less [OF this] obtain ps where ps: "touch_pages e (p + PAGE_FAULT_UNIT_SIZE) = Some ps"
      "\<And>x. x \<in> set ps \<Longrightarrow> p + PAGE_FAULT_UNIT_SIZE \<le> x \<and> x < e"
      "\<And>a. unat p + 4096 \<le> a \<Longrightarrow> a < unat e \<Longrightarrow> \<exists>x \<in> set ps. unat x \<le> a \<and> a < unat x + 4096"
      using s by auto
    have "touch_pages e p = Some (p # ps)" using True ps(1) by (subst touch_pages.simps) simp
    moreover have "p \<le> x \<and> x < e" if "x \<in> set (p # ps)" for x
      using that ps(2) [of x] True s by (auto simp: word_le_nat_alt)
    moreover have "\<exists>x \<in> set (p # ps). unat x \<le> a \<and> a < unat x + 4096" if "unat p \<le> a" "a < unat e" for a
      using ps(3) [of a] that by (cases "a < unat p + 4096") auto
    ultimately show ?thesis by blast
  qed
qed

text \<open>Getting the segment either ends the program, when a system call fails, or returns its address
  after a loop that ends, reads no byte outside the segment, and comes within a page of every
  byte of it. Hypothesis: the segment does not reach into the last page of the address space.\<close>
theorem create_nvm_reads_segment:
  assumes "unat (shmat c) + unat nvm_size + 4096 \<le> 2 ^ 64"
  shows "if shmget c = - 1 \<or> shmat c = - 1 then create_nvm_in_shm c nvm_size = Some (Inl Exited)
    else \<exists>ps. create_nvm_in_shm c nvm_size = Some (Inr (shmat c, ps)) \<and>
      (\<forall>x \<in> set ps. unat (shmat c) \<le> unat x \<and> unat x < unat (shmat c) + unat nvm_size) \<and>
      (\<forall>a. unat (shmat c) \<le> a \<and> a < unat (shmat c) + unat nvm_size \<longrightarrow>
         (\<exists>x \<in> set ps. unat x \<le> a \<and> a < unat x + 4096))"
proof -
  have e: "unat (shmat c + nvm_size) = unat (shmat c) + unat nvm_size"
    using assms by (subst unat_add_no_wrap) simp_all
  obtain ps where ps: "touch_pages (shmat c + nvm_size) (shmat c) = Some ps"
    "\<forall>x \<in> set ps. shmat c \<le> x \<and> x < shmat c + nvm_size"
    "\<forall>a. unat (shmat c) \<le> a \<and> a < unat (shmat c + nvm_size) \<longrightarrow> (\<exists>x \<in> set ps. unat x \<le> a \<and> a < unat x + 4096)"
    using touch_pages_ok [of "shmat c + nvm_size" "shmat c"] assms e by auto
  have "\<forall>x \<in> set ps. unat (shmat c) \<le> unat x \<and> unat x < unat (shmat c) + unat nvm_size"
    using ps(2) unfolding word_le_nat_alt word_less_nat_alt e .
  with ps(1) ps(3) [unfolded e] show ?thesis by (simp add: create_nvm_in_shm_def)
qed

theorem create_nvm_reads_segment_witness:
  "\<exists>ps. create_nvm_in_shm \<lparr>shmget = 7, shmat = 8192, shmdt = 0, shmctl = 0\<rparr> 20000 = Some (Inr (8192, ps)) \<and>
     (\<exists>x \<in> set ps. unat x \<le> 28000 \<and> 28000 < unat x + 4096)"
proof -
  let ?c = "\<lparr>shmget = 7, shmat = 8192, shmdt = 0, shmctl = 0\<rparr>"
  have n: "\<not> (shmget ?c = - 1 \<or> shmat ?c = - 1)" by simp
  obtain ps where ps: "create_nvm_in_shm ?c 20000 = Some (Inr (shmat ?c, ps))"
    "\<forall>a. unat (shmat ?c) \<le> a \<and> a < unat (shmat ?c) + unat (20000 :: u64) \<longrightarrow> (\<exists>x \<in> set ps. unat x \<le> a \<and> a < unat x + 4096)"
    using create_nvm_reads_segment [of ?c 20000] n by auto
  have "\<exists>x \<in> set ps. unat x \<le> 28000 \<and> 28000 < unat x + 4096" using ps(2) [THEN spec, of 28000] by simp
  with ps(1) show ?thesis by auto
qed

text \<open>What is built is built at the address attached; nothing is formatted when a call failed.\<close>

lemma structure_create:
  assumes "unat (shmat c) + unat nvm_size + 4096 \<le> 2 ^ 64"
  shows "nvm_structure_create c nvm_size s =
    Some (if shmget c = - 1 \<or> shmat c = - 1 then Inl Exited else nvm_structure_build (shmat c) nvm_size s)"
proof -
  obtain ps where "touch_pages (shmat c + nvm_size) (shmat c) = Some ps"
    using touch_pages_ok [of "shmat c + nvm_size" "shmat c"] assms by (auto simp: unat_add_no_wrap)
  then show ?thesis by (simp add: nvm_structure_create_def create_nvm_in_shm_def)
qed

lemma destroy_ok: "nvm_structure_destroy c = Inr () \<longleftrightarrow> shmget c \<noteq> - 1 \<and> shmdt c \<noteq> - 1 \<and> 0 \<le> shmctl c"
  by (simp add: nvm_structure_destroy_def remove_nvm_in_shm_def)

end
