(* ===== verification/NVM_Threads.thy ===== *)
theory NVM_Threads
  imports NVM_State Console "HOL-Library.Multiset"
begin

text \<open>
  The threads of the system (\<^verbatim>\<open>src/nvm0nvm.cc\<close>): the arrays of handles, the loops of
  \<open>nvm_system_init\<close> that create them and those of \<open>nvm_system_close\<close> that join them, and the condition
  variables of the balloon threads (\<^verbatim>\<open>src/nvm0write.cc\<close>, \<^verbatim>\<open>src/nvm0balloon.cc\<close>). A handle is the
  number of the thread in the order of creation. The queues and tables do not appear here.
\<close>

section \<open>Handles, mutexes and condition variables\<close>

definition DEFAULT_NUM_FLUSH :: nat where "DEFAULT_NUM_FLUSH = 16"

text \<open>What a thread runs, with the number it reads through its argument.\<close>

datatype thread = Flusher | Syncer nat | Balloon nat | Monitor

record threads =
  flush_thread :: "nat option list"
  sync_thread :: "nat option list"
  balloon_thread :: "nat option list"
  monitor_thread :: "nat option"
  sync_idx :: "nat list"
  clean_idx :: "nat list"
  balloon_mutex :: "bool list"       \<comment> \<open>held or not\<close>
  balloon_waiters :: "nat list"      \<comment> \<open>threads asleep on the condition variable\<close>
  started :: "thread list"
  joined :: "nat list"
  stopping :: bool                   \<comment> \<open>\<open>sys_terminate\<close>\<close>
  console :: string

definition thread_globals :: "threads \<Rightarrow> bool" where
  "thread_globals s \<longleftrightarrow> length (flush_thread s) = DEFAULT_NUM_FLUSH \<and>
     length (sync_thread s) = DEFAULT_NUM_SYNCER \<and> length (sync_idx s) = DEFAULT_NUM_SYNCER \<and>
     length (balloon_thread s) = DEFAULT_NUM_BALLOON \<and> length (clean_idx s) = DEFAULT_NUM_BALLOON \<and>
     length (balloon_mutex s) = DEFAULT_NUM_BALLOON \<and> length (balloon_waiters s) = DEFAULT_NUM_BALLOON"

text \<open>Storing in an array, \<open>pthread_create\<close> and \<open>pthread_join\<close>; a handle never set is not one to join.\<close>

definition put_at :: "'a list \<Rightarrow> nat \<Rightarrow> 'a \<Rightarrow> 'a list res" where
  "put_at xs i x = (if i < length xs then Inr (xs[i := x]) else Inl OutOfBounds)"

definition spawn :: "thread \<Rightarrow> threads \<Rightarrow> threads" where
  "spawn th s = s\<lparr>started := started s @ [th]\<rparr>"

definition join_thread :: "nat option \<Rightarrow> threads \<Rightarrow> threads res" where
  "join_thread p s = (case p of None \<Rightarrow> Inl NullDeref | Some k \<Rightarrow> Inr (s\<lparr>joined := joined s @ [k]\<rparr>))"

definition say :: "string \<Rightarrow> threads \<Rightarrow> threads" where
  "say cs s = s\<lparr>console := console s @ cs @ [LF]\<rparr>"

section \<open>Creating the threads\<close>

definition init_balloon_lock :: "nat \<Rightarrow> threads \<Rightarrow> threads res" where
  "init_balloon_lock i s =
     rbind (put_at (balloon_waiters s) i 0) (\<lambda>ws.
     rbind (put_at (balloon_mutex s) i False) (\<lambda>ms.
       Inr (s\<lparr>balloon_waiters := ws, balloon_mutex := ms\<rparr>)))"

definition create_flush_thread :: "nat \<Rightarrow> threads \<Rightarrow> threads res" where
  "create_flush_thread i s =
     rbind (put_at (flush_thread s) i (Some (length (started s)))) (\<lambda>hs.
       Inr (spawn Flusher (s\<lparr>flush_thread := hs\<rparr>)))"

definition create_sync_thread :: "nat \<Rightarrow> threads \<Rightarrow> threads res" where
  "create_sync_thread i s =
     rbind (put_at (sync_idx s) i i) (\<lambda>xs.
     rbind (put_at (sync_thread s) i (Some (length (started s)))) (\<lambda>hs.
       Inr (spawn (Syncer (xs ! i)) (s\<lparr>sync_idx := xs, sync_thread := hs\<rparr>))))"

definition create_balloon_thread :: "nat \<Rightarrow> threads \<Rightarrow> threads res" where
  "create_balloon_thread i s =
     rbind (put_at (clean_idx s) i i) (\<lambda>xs.
     rbind (put_at (balloon_thread s) i (Some (length (started s)))) (\<lambda>hs.
       Inr (spawn (Balloon (xs ! i)) (s\<lparr>clean_idx := xs, balloon_thread := hs\<rparr>))))"

text \<open>The last part of \<open>nvm_system_init\<close>, which also resets the counters (see \<open>init_counters\<close>).\<close>

definition create_threads :: "u32 \<Rightarrow> bool \<Rightarrow> threads \<Rightarrow> threads res" where
  "create_threads num_flush monitor_option s =
     rbind (for_upto init_balloon_lock DEFAULT_NUM_BALLOON s) (\<lambda>s1.
     rbind (for_upto create_flush_thread (unat num_flush) (s1\<lparr>stopping := False\<rparr>)) (\<lambda>s2.
     rbind (for_upto create_sync_thread DEFAULT_NUM_SYNCER
       (say (to_string (unat num_flush) @ '' Flush thread created...'') s2)) (\<lambda>s3.
     rbind (for_upto create_balloon_thread DEFAULT_NUM_BALLOON
       (say (to_string DEFAULT_NUM_SYNCER @ '' Sync thread created...'') s3)) (\<lambda>s4.
     let s5 = say ''Balloon thread created...'' s4;
         s6 = (if monitor_option
           then say ''monitor thread created...''
             (spawn Monitor (s5\<lparr>monitor_thread := Some (length (started s5))\<rparr>)) else s5)
     in Inr (say (''NVM system successfully started!'' @ [LF]) s6)))))"

section \<open>Joining them\<close>

text \<open>
  Waking a thread that sleeps on the condition variable, as the close and a writer short of free
  inodes do: \<open>pthread_cond_signal\<close> wakes one sleeper, if there is one.
\<close>

definition signal_balloon :: "nat \<Rightarrow> threads \<Rightarrow> threads res" where
  "signal_balloon i s =
     rbind (at_index (balloon_mutex s) i) (\<lambda>m. if m then Inl Blocked else
     rbind (at_index (balloon_waiters s) i) (\<lambda>w.
       Inr (s\<lparr>balloon_waiters := (balloon_waiters s)[i := w - 1], balloon_mutex := (balloon_mutex s)[i := False]\<rparr>)))"

definition awakeBalloonThread :: "threads \<Rightarrow> threads res" where
  "awakeBalloonThread s = for_upto signal_balloon DEFAULT_NUM_BALLOON s"

text \<open>
  \<open>balloon_wait\<close>, up to the moment it sleeps, with the mutex released, and from the moment it is
  woken or the time is over: then the mutex is taken again, and released. Its call is commented out.
\<close>

definition balloon_deadline :: "int \<Rightarrow> int \<Rightarrow> timespec" where
  "balloon_deadline now_sec now_usec = \<lparr>tv_sec = now_sec + 10, tv_nsec = now_usec * 1000\<rparr>"

definition balloon_sleep :: "nat \<Rightarrow> int \<Rightarrow> int \<Rightarrow> threads \<Rightarrow> (timespec \<times> threads) res" where
  "balloon_sleep i now_sec now_usec s =
     rbind (at_index (balloon_mutex s) i) (\<lambda>m. if m then Inl Blocked else
     rbind (at_index (balloon_waiters s) i) (\<lambda>w.
       Inr (balloon_deadline now_sec now_usec, s\<lparr>balloon_waiters := (balloon_waiters s)[i := w + 1]\<rparr>)))"

definition balloon_wake :: "nat \<Rightarrow> bool \<Rightarrow> threads \<Rightarrow> threads res" where
  "balloon_wake i timed_out s =
     rbind (at_index (balloon_mutex s) i) (\<lambda>m. if m then Inl Blocked else
     rbind (at_index (balloon_waiters s) i) (\<lambda>w.
       Inr (s\<lparr>balloon_waiters := (balloon_waiters s)[i := if timed_out then w - 1 else w]\<rparr>)))"

definition join_balloon :: "nat \<Rightarrow> threads \<Rightarrow> threads res" where
  "join_balloon i s = rbind (signal_balloon i s) (\<lambda>s1.
     rbind (at_index (balloon_thread s1) i) (\<lambda>h. join_thread h s1))"

definition join_flush :: "nat \<Rightarrow> threads \<Rightarrow> threads res" where
  "join_flush i s = rbind (at_index (flush_thread s) i) (\<lambda>h. join_thread h s)"

definition join_sync :: "nat \<Rightarrow> threads \<Rightarrow> threads res" where
  "join_sync i s = rbind (at_index (sync_thread s) i) (\<lambda>h. join_thread h s)"

text \<open>The first part of \<open>nvm_system_close\<close>; what it does to the tables is \<open>nvm_system_close\<close> of \<open>NVM_Init\<close>.\<close>

definition join_threads :: "u32 \<Rightarrow> bool \<Rightarrow> threads \<Rightarrow> threads res" where
  "join_threads num_flush monitor_option s =
     rbind (for_upto join_balloon DEFAULT_NUM_BALLOON (s\<lparr>stopping := True\<rparr>)) (\<lambda>s1.
     rbind (for_upto join_flush (unat num_flush) s1) (\<lambda>s2.
     rbind (for_upto join_sync DEFAULT_NUM_SYNCER s2) (\<lambda>s3.
     if monitor_option then
       rbind (join_thread (monitor_thread s3) s3) (\<lambda>s4.
         Inr (s4\<lparr>console := console s4 @ replicate (MONITORING_AMOUNT + 4) LF\<rparr>))
     else Inr s3)))"

section \<open>Every thread is joined once\<close>

lemma put_at_in [simp]: "i < length xs \<Longrightarrow> put_at xs i x = Inr (xs[i := x])"
  by (simp add: put_at_def)

lemma for_upto_fault: "for_upto f k s = Inl e \<Longrightarrow> k \<le> n \<Longrightarrow> for_upto f n s = Inl e"
  by (induction n) (auto simp: le_Suc_eq)

lemma replicate_upd [simp]: "(replicate n x)[i := x] = replicate n x"
  by (cases "i < n") (simp_all add: list_update_same_conv list_update_beyond)

definition threads_of :: "nat \<Rightarrow> bool \<Rightarrow> thread list" where
  "threads_of n m = replicate n Flusher @ map Syncer [0..<DEFAULT_NUM_SYNCER] @
     map Balloon [0..<DEFAULT_NUM_BALLOON] @ (if m then [Monitor] else [])"

text \<open>The loops, as the states they build up.\<close>

lemma init_balloon_loop:
  assumes "length (balloon_mutex s) = n" "length (balloon_waiters s) = n"
  shows "for_upto init_balloon_lock n s = Inr (s\<lparr>balloon_waiters := replicate n 0, balloon_mutex := replicate n False\<rparr>)"
proof -
  let ?F = "\<lambda>i. s\<lparr>balloon_waiters := upd_upto (\<lambda>_ _. 0) i (balloon_waiters s),
    balloon_mutex := upd_upto (\<lambda>_ _. False) i (balloon_mutex s)\<rparr>"
  have "for_upto init_balloon_lock n s = Inr (?F n)"
    by (rule for_upto_eq) (use assms in \<open>simp_all add: init_balloon_lock_def upd_upto_Suc\<close>)
  moreover have "upd_upto (\<lambda>_ _. 0) n (balloon_waiters s) = replicate n 0"
    "upd_upto (\<lambda>_ _. False) n (balloon_mutex s) = replicate n False"
    using assms by (auto intro!: nth_equalityI)
  ultimately show ?thesis by simp
qed

lemma create_flush_loop:
  assumes "n \<le> length (flush_thread s)" "started s = []"
  shows "for_upto create_flush_thread n s = Inr (s\<lparr>flush_thread := upd_upto (\<lambda>k _. Some k) n (flush_thread s),
    started := replicate n Flusher\<rparr>)"
proof -
  let ?F = "\<lambda>i. s\<lparr>flush_thread := upd_upto (\<lambda>k _. Some k) i (flush_thread s), started := replicate i Flusher\<rparr>"
  have "for_upto create_flush_thread n s = Inr (?F n)"
    by (rule for_upto_eq)
       (use assms in \<open>simp_all add: create_flush_thread_def spawn_def upd_upto_Suc replicate_append_same\<close>)
  then show ?thesis .
qed

lemma create_sync_loop:
  assumes "length (sync_thread s) = n" "length (sync_idx s) = n"
  shows "for_upto create_sync_thread n s = Inr (s\<lparr>sync_idx := [0..<n],
    sync_thread := map (\<lambda>k. Some (length (started s) + k)) [0..<n], started := started s @ map Syncer [0..<n]\<rparr>)"
proof -
  let ?F = "\<lambda>i. s\<lparr>sync_idx := upd_upto (\<lambda>k _. k) i (sync_idx s),
    sync_thread := upd_upto (\<lambda>k _. Some (length (started s) + k)) i (sync_thread s),
    started := started s @ map Syncer [0..<i]\<rparr>"
  have "for_upto create_sync_thread n s = Inr (?F n)"
    by (rule for_upto_eq) (use assms in \<open>simp_all add: create_sync_thread_def spawn_def upd_upto_Suc\<close>)
  moreover have "upd_upto (\<lambda>k _. k) n (sync_idx s) = [0..<n]"
    "upd_upto (\<lambda>k _. Some (length (started s) + k)) n (sync_thread s) = map (\<lambda>k. Some (length (started s) + k)) [0..<n]"
    using assms by (auto intro!: nth_equalityI)
  ultimately show ?thesis by simp
qed

lemma create_balloon_loop:
  assumes "length (balloon_thread s) = n" "length (clean_idx s) = n"
  shows "for_upto create_balloon_thread n s = Inr (s\<lparr>clean_idx := [0..<n],
    balloon_thread := map (\<lambda>k. Some (length (started s) + k)) [0..<n], started := started s @ map Balloon [0..<n]\<rparr>)"
proof -
  let ?F = "\<lambda>i. s\<lparr>clean_idx := upd_upto (\<lambda>k _. k) i (clean_idx s),
    balloon_thread := upd_upto (\<lambda>k _. Some (length (started s) + k)) i (balloon_thread s),
    started := started s @ map Balloon [0..<i]\<rparr>"
  have "for_upto create_balloon_thread n s = Inr (?F n)"
    by (rule for_upto_eq) (use assms in \<open>simp_all add: create_balloon_thread_def spawn_def upd_upto_Suc\<close>)
  moreover have "upd_upto (\<lambda>k _. k) n (clean_idx s) = [0..<n]"
    "upd_upto (\<lambda>k _. Some (length (started s) + k)) n (balloon_thread s) = map (\<lambda>k. Some (length (started s) + k)) [0..<n]"
    using assms by (auto intro!: nth_equalityI)
  ultimately show ?thesis by simp
qed

text \<open>What the close needs to find.\<close>

definition handles_ok :: "nat \<Rightarrow> bool \<Rightarrow> threads \<Rightarrow> bool" where
  "handles_ok n m s \<longleftrightarrow> length (flush_thread s) = DEFAULT_NUM_FLUSH \<and>
     (\<forall>k < n. flush_thread s ! k = Some k) \<and>
     sync_thread s = map (\<lambda>k. Some (n + k)) [0..<DEFAULT_NUM_SYNCER] \<and>
     balloon_thread s = map (\<lambda>k. Some (n + DEFAULT_NUM_SYNCER + k)) [0..<DEFAULT_NUM_BALLOON] \<and>
     (m \<longrightarrow> monitor_thread s = Some (n + DEFAULT_NUM_SYNCER + DEFAULT_NUM_BALLOON)) \<and>
     balloon_mutex s = replicate DEFAULT_NUM_BALLOON False \<and>
     length (balloon_waiters s) = DEFAULT_NUM_BALLOON \<and> started s = threads_of n m"

lemma create_threads_ok:
  assumes g: "thread_globals s" and n: "unat num_flush \<le> DEFAULT_NUM_FLUSH" and st: "started s = []"
  shows "\<exists>s'. create_threads num_flush m s = Inr s' \<and> handles_ok (unat num_flush) m s' \<and>
    sync_idx s' = [0..<DEFAULT_NUM_SYNCER] \<and> clean_idx s' = [0..<DEFAULT_NUM_BALLOON] \<and>
    joined s' = joined s \<and> \<not> stopping s'"
  using g n st unfolding create_threads_def
  by (simp add: thread_globals_def init_balloon_loop create_flush_loop create_sync_loop create_balloon_loop
      say_def spawn_def handles_ok_def threads_of_def Let_def)

lemma join_balloon_loop:
  assumes "balloon_mutex s = replicate n False" "length (balloon_waiters s) = n"
    "balloon_thread s = map (\<lambda>k. Some (b + k)) [0..<n]"
  shows "for_upto join_balloon n s = Inr (s\<lparr>balloon_waiters := upd_upto (\<lambda>_ w. w - 1) n (balloon_waiters s),
    joined := joined s @ map (\<lambda>k. b + k) [0..<n]\<rparr>)"
proof -
  let ?F = "\<lambda>i. s\<lparr>balloon_waiters := upd_upto (\<lambda>_ w. w - 1) i (balloon_waiters s),
    joined := joined s @ map (\<lambda>k. b + k) [0..<i]\<rparr>"
  have "for_upto join_balloon n s = Inr (?F n)"
    by (rule for_upto_eq)
       (use assms in \<open>simp_all add: join_balloon_def signal_balloon_def join_thread_def upd_upto_Suc\<close>)
  then show ?thesis .
qed

lemma join_handles:
  assumes "\<And>i. i < n \<Longrightarrow> i < length (hs s) \<and> hs s ! i = Some (b + i)"
    "\<And>xs. hs (s\<lparr>joined := xs\<rparr>) = hs s"
    "\<And>i s. f i s = rbind (at_index (hs s) i) (\<lambda>h. join_thread h s)"
  shows "for_upto f n s = Inr (s\<lparr>joined := joined s @ map (\<lambda>k. b + k) [0..<n]\<rparr>)"
proof -
  have "for_upto f n s = Inr ((\<lambda>i. s\<lparr>joined := joined s @ map (\<lambda>k. b + k) [0..<i]\<rparr>) n)"
    by (rule for_upto_eq) (use assms in \<open>simp_all add: join_thread_def\<close>)
  then show ?thesis by simp
qed

lemma join_threads_ok:
  assumes h: "handles_ok (unat num_flush) m s" and n: "unat num_flush \<le> DEFAULT_NUM_FLUSH"
  shows "\<exists>s'. join_threads num_flush m s = Inr s' \<and> stopping s' \<and> started s' = started s \<and> joined s' = joined s @
    map (\<lambda>k. unat num_flush + DEFAULT_NUM_SYNCER + k) [0..<DEFAULT_NUM_BALLOON] @ [0..<unat num_flush] @
    map (\<lambda>k. unat num_flush + k) [0..<DEFAULT_NUM_SYNCER] @
    (if m then [unat num_flush + DEFAULT_NUM_SYNCER + DEFAULT_NUM_BALLOON] else [])"
proof -
  note H = h [unfolded handles_ok_def]
  have f: "for_upto join_flush (unat num_flush) t = Inr (t\<lparr>joined := joined t @ map (\<lambda>k. 0 + k) [0..<unat num_flush]\<rparr>)"
    if "flush_thread t = flush_thread s" for t
    by (rule join_handles [where hs = flush_thread]) (use H n that in \<open>auto simp: join_flush_def\<close>)
  have y: "for_upto join_sync DEFAULT_NUM_SYNCER t = Inr (t\<lparr>joined := joined t @ map (\<lambda>k. unat num_flush + k) [0..<DEFAULT_NUM_SYNCER]\<rparr>)"
    if "sync_thread t = sync_thread s" for t
    by (rule join_handles [where hs = sync_thread]) (use H that in \<open>auto simp: join_sync_def\<close>)
  have b: "for_upto join_balloon DEFAULT_NUM_BALLOON (s\<lparr>stopping := True\<rparr>) = Inr (s\<lparr>stopping := True,
      balloon_waiters := upd_upto (\<lambda>_ w. w - 1) DEFAULT_NUM_BALLOON (balloon_waiters s),
      joined := joined s @ map (\<lambda>k. (unat num_flush + DEFAULT_NUM_SYNCER) + k) [0..<DEFAULT_NUM_BALLOON]\<rparr>)"
    using join_balloon_loop [of "s\<lparr>stopping := True\<rparr>" DEFAULT_NUM_BALLOON "unat num_flush + DEFAULT_NUM_SYNCER"] H
    by simp
  show ?thesis unfolding join_threads_def b using H by (simp add: f y join_thread_def)
qed

lemma mset_blocks:
  fixes n a b :: nat
  shows "mset (map (\<lambda>k. n + a + k) [0..<b] @ [0..<n] @ map (\<lambda>k. n + k) [0..<a] @ (if m then [n + a + b] else [])) =
    mset [0..<n + a + b + (if m then 1 else 0)]"
proof -
  have part: "map (\<lambda>k. i + k) [0..<j] = [i..<i + j]" for i j :: nat
    by (rule nth_equalityI) simp_all
  have "[0..<n + a + b] = [0..<n] @ [n..<n + a] @ [n + a..<n + a + b]"
    by (metis upt_add_eq_append zero_le le_add1 append_assoc)
  then have "mset [0..<n + a + b] = mset [0..<n] + mset [n..<n + a] + mset [n + a..<n + a + b]" by simp
  then show ?thesis unfolding part by (cases m) (simp_all add: ac_simps)
qed

lemma length_threads_of: "length (threads_of n m) = n + DEFAULT_NUM_SYNCER + DEFAULT_NUM_BALLOON + (if m then 1 else 0)"
  by (simp add: threads_of_def)

text \<open>C19. The start creates the configured number of flush threads, two sync threads and eight balloon threads
  with their own queue numbers, and the monitor if asked for; the close, run on what the start
  left, joins every one of them exactly once.\<close>
theorem threads_started_and_joined:
  assumes "thread_globals s" "unat num_flush \<le> DEFAULT_NUM_FLUSH" "started s = []" "joined s = []"
  shows "\<exists>s1 s2. create_threads num_flush m s = Inr s1 \<and> started s1 = threads_of (unat num_flush) m \<and>
    join_threads num_flush m s1 = Inr s2 \<and> stopping s2 \<and> mset (joined s2) = mset [0..<length (started s1)]"
proof -
  obtain s1 where s1: "create_threads num_flush m s = Inr s1" "handles_ok (unat num_flush) m s1" "joined s1 = []"
    using create_threads_ok [OF assms(1-3)] assms(4) by metis
  have st: "started s1 = threads_of (unat num_flush) m" using s1(2) by (simp add: handles_ok_def)
  from join_threads_ok [OF s1(2) assms(2)] show ?thesis
    using s1(1,3) st mset_blocks [where n = "unat num_flush" and a = DEFAULT_NUM_SYNCER and b = DEFAULT_NUM_BALLOON and m = m]
    by (auto simp: length_threads_of simp del: mset_append)
qed

text \<open>The number of flush threads is an option; above 16 their handles leave the array.\<close>

theorem too_many_flush_threads:
  assumes "thread_globals s" "DEFAULT_NUM_FLUSH < unat num_flush" "started s = []"
  shows "create_threads num_flush m s = Inl OutOfBounds"
proof -
  define t where "t = s\<lparr>balloon_waiters := replicate DEFAULT_NUM_BALLOON 0,
    balloon_mutex := replicate DEFAULT_NUM_BALLOON False, stopping := False\<rparr>"
  have "for_upto create_flush_thread (Suc DEFAULT_NUM_FLUSH) t = Inl OutOfBounds"
    using assms create_flush_loop [of DEFAULT_NUM_FLUSH t]
    by (simp add: t_def thread_globals_def create_flush_thread_def put_at_def)
  then have "for_upto create_flush_thread (unat num_flush) t = Inl OutOfBounds"
    by (rule for_upto_fault) (use assms(2) in simp)
  then show ?thesis
    using assms(1) by (simp add: create_threads_def thread_globals_def init_balloon_loop t_def)
qed

section \<open>Waking the balloon threads\<close>

text \<open>
  The deadline is a valid time, and a signal leaves the mutexes free. Since no thread calls
  \<open>balloon_wait\<close> there is never a sleeper: the signals of a writer short of inodes change nothing.
\<close>

lemma balloon_deadline_ok:
  assumes "0 \<le> usec" "usec < 10 ^ 6"
  shows "0 \<le> tv_nsec (balloon_deadline sec usec)" "tv_nsec (balloon_deadline sec usec) < 10 ^ 9"
  using assms by (simp_all add: balloon_deadline_def)

lemma awake_nobody:
  assumes "balloon_mutex s = replicate DEFAULT_NUM_BALLOON False" "balloon_waiters s = replicate DEFAULT_NUM_BALLOON 0"
  shows "awakeBalloonThread s = Inr s"
proof -
  have "for_upto signal_balloon DEFAULT_NUM_BALLOON s = Inr ((\<lambda>_. s) DEFAULT_NUM_BALLOON)"
    by (rule for_upto_eq) (use assms in \<open>simp_all add: signal_balloon_def\<close>)
  then show ?thesis by (simp add: awakeBalloonThread_def)
qed

lemma sleep_signal:
  assumes "i < length (balloon_mutex s)" "length (balloon_waiters s) = length (balloon_mutex s)" "\<not> balloon_mutex s ! i"
    and "balloon_sleep i sec usec s = Inr (d, s1)" "signal_balloon i s1 = Inr s2" "balloon_wake i False s2 = Inr s3"
  shows "s3 = s"
proof -
  have "(balloon_mutex s)[i := False] = balloon_mutex s" using assms(1,3) by (metis (full_types) list_update_id)
  then show ?thesis using assms by (auto simp: balloon_sleep_def signal_balloon_def balloon_wake_def)
qed

section \<open>Witness\<close>

definition demo_threads :: threads where
  "demo_threads = \<lparr>flush_thread = replicate 16 None, sync_thread = [None, None], balloon_thread = replicate 8 None,
     monitor_thread = None, sync_idx = [0, 0], clean_idx = replicate 8 0, balloon_mutex = replicate 8 False,
     balloon_waiters = replicate 8 0, started = [], joined = [], stopping = False, console = []\<rparr>"

theorem threads_started_and_joined_witness:
  "\<exists>s1 s2. create_threads 4 True demo_threads = Inr s1 \<and> join_threads 4 True s1 = Inr s2 \<and>
     mset (joined s2) = mset [0..<15]"
proof -
  have g: "thread_globals demo_threads" "started demo_threads = []" "joined demo_threads = []"
    by (simp_all add: thread_globals_def demo_threads_def config_defs DEFAULT_NUM_FLUSH_def)
  have n: "unat (4 :: u32) \<le> DEFAULT_NUM_FLUSH" by (simp add: DEFAULT_NUM_FLUSH_def)
  from threads_started_and_joined [OF g(1) n g(2,3), of True]
  show ?thesis by (auto simp: length_threads_of config_defs)
qed

end
