(* ===== verification/NVM_Shutdown.thy ===== *)
theory NVM_Shutdown
  imports NVM_State "HOL-Library.Multiset"
begin

text \<open>
  The end of the flush threads (\<^verbatim>\<open>src/nvm0flush.cc\<close>). Each of them runs the loop of
  \<open>flush_thread_func\<close>: it takes a volume from the queue of volumes in use, flushes it, and puts it
  back. Several threads may pass the test of the queue's size and then wait for a volume; the close
  sets \<open>sys_terminate\<close> and joins them, and nothing calls \<open>close\<close> on the queue to end the waiting.

  The queue is seen here by its tickets, as \<open>LFQueue_Conc\<close> justifies: an enqueue and a
  dequeue take the next ticket of their kind; the dequeue with a ticket returns what the enqueue
  with the same ticket stored, and waits for it; an enqueue waits until the value \<open>capacity\<close> tickets
  before its own has been taken out. What \<open>nvm_flush\<close> does is the subject of \<open>NVM_Flush\<close>; here it
  returns.
\<close>

section \<open>Threads and steps\<close>

datatype fpc =
    Top                 \<comment> \<open>about to test \<open>sys_terminate\<close>\<close>
  | DirtyTest           \<comment> \<open>about to compare \<open>inode_dirty_count\<close> with the mark\<close>
  | SizeTest            \<comment> \<open>about to read the size of the queue\<close>
  | TakeTicket          \<comment> \<open>about to dequeue\<close>
  | AwaitValue nat      \<comment> \<open>dequeue has its ticket\<close>
  | Flushing u32        \<comment> \<open>has the volume\<close>
  | AwaitSlot nat u32   \<comment> \<open>enqueue has its ticket\<close>
  | Ended

text \<open>The flush threads have no number of their own, so what they are at is a multiset.\<close>

record fl_sys =
  stop :: bool
  slots :: "nat \<Rightarrow> u32 option"     \<comment> \<open>by ticket, the value stored\<close>
  puts :: nat                       \<comment> \<open>tickets given to enqueues\<close>
  takes :: nat                      \<comment> \<open>tickets given to dequeues\<close>
  released :: "nat set"             \<comment> \<open>tickets whose value has been taken out\<close>
  fpcs :: "fpc multiset"

inductive fl_step :: "nat \<Rightarrow> fl_sys \<Rightarrow> fl_sys \<Rightarrow> bool" for cap where
  terminate: "\<not> stop s \<Longrightarrow> fl_step cap s (s\<lparr>stop := True\<rparr>)"
| leave: "fpcs s = add_mset Top M \<Longrightarrow> stop s \<Longrightarrow> fl_step cap s (s\<lparr>fpcs := add_mset Ended M\<rparr>)"
| go_on: "fpcs s = add_mset Top M \<Longrightarrow> \<not> stop s \<Longrightarrow> fl_step cap s (s\<lparr>fpcs := add_mset DirtyTest M\<rparr>)"
| few_dirty: "fpcs s = add_mset DirtyTest M \<Longrightarrow> fl_step cap s (s\<lparr>fpcs := add_mset Top M\<rparr>)"
| many_dirty: "fpcs s = add_mset DirtyTest M \<Longrightarrow> fl_step cap s (s\<lparr>fpcs := add_mset SizeTest M\<rparr>)"
| no_volume: "fpcs s = add_mset SizeTest M \<Longrightarrow> puts s \<le> takes s \<Longrightarrow>
    fl_step cap s (s\<lparr>fpcs := add_mset Top M\<rparr>)"
| some_volume: "fpcs s = add_mset SizeTest M \<Longrightarrow> takes s < puts s \<Longrightarrow>
    fl_step cap s (s\<lparr>fpcs := add_mset TakeTicket M\<rparr>)"
| take_ticket: "fpcs s = add_mset TakeTicket M \<Longrightarrow>
    fl_step cap s (s\<lparr>takes := takes s + 1, fpcs := add_mset (AwaitValue (takes s)) M\<rparr>)"
| take_value: "fpcs s = add_mset (AwaitValue c) M \<Longrightarrow> slots s c = Some v \<Longrightarrow>
    fl_step cap s (s\<lparr>released := insert c (released s), fpcs := add_mset (Flushing v) M\<rparr>)"
| put_ticket: "fpcs s = add_mset (Flushing v) M \<Longrightarrow>
    fl_step cap s (s\<lparr>puts := puts s + 1, fpcs := add_mset (AwaitSlot (puts s) v) M\<rparr>)"
| put_value: "fpcs s = add_mset (AwaitSlot p v) M \<Longrightarrow> p < cap \<or> p - cap \<in> released s \<Longrightarrow>
    fl_step cap s (s\<lparr>slots := (slots s)(p \<mapsto> v), fpcs := add_mset Top M\<rparr>)"

text \<open>The volumes \<open>vs\<close> are open, and in the queue.\<close>

definition fl_start :: "u32 list \<Rightarrow> fl_sys \<Rightarrow> bool" where
  "fl_start vs s \<longleftrightarrow> \<not> stop s \<and> puts s = length vs \<and> takes s = 0 \<and> released s = {} \<and>
     slots s = (\<lambda>k. if k < length vs then Some (vs ! k) else None) \<and> (\<exists>n. fpcs s = replicate_mset n Top)"

section \<open>The invariant\<close>

text \<open>The tickets that dequeues and enqueues hold, and the volumes that threads have.\<close>

fun deq_tickets :: "fpc \<Rightarrow> nat multiset" where
  "deq_tickets (AwaitValue c) = {#c#}"
| "deq_tickets _ = {#}"

fun enq_tickets :: "fpc \<Rightarrow> nat multiset" where
  "enq_tickets (AwaitSlot p v) = {#p#}"
| "enq_tickets _ = {#}"

fun has_volume :: "fpc \<Rightarrow> u32 multiset" where
  "has_volume (Flushing v) = {#v#}"
| "has_volume (AwaitSlot p v) = {#v#}"
| "has_volume _ = {#}"

fun between :: "fpc \<Rightarrow> nat" where
  "between (Flushing v) = 1"
| "between _ = 0"

fun idle_pc :: "fpc \<Rightarrow> bool" where
  "idle_pc Top = True"
| "idle_pc DirtyTest = True"
| "idle_pc SizeTest = True"
| "idle_pc Ended = True"
| "idle_pc _ = False"

definition in_queue :: "fl_sys \<Rightarrow> nat set" where
  "in_queue s = {k. k < puts s \<and> slots s k \<noteq> None \<and> k \<notin> released s}"

text \<open>
  Every ticket given out is stored or held by one enqueue, taken out or held by one dequeue; and no
  volume is lost or doubled.
\<close>

definition fl_inv :: "u32 list \<Rightarrow> fl_sys \<Rightarrow> bool" where
  "fl_inv vs s \<longleftrightarrow>
     (\<forall>k. slots s k \<noteq> None \<longrightarrow> k < puts s) \<and>
     (\<forall>c \<in> released s. c < takes s \<and> slots s c \<noteq> None) \<and>
     sum_mset (image_mset deq_tickets (fpcs s)) = mset_set ({..<takes s} - released s) \<and>
     sum_mset (image_mset enq_tickets (fpcs s)) = mset_set {k. k < puts s \<and> slots s k = None} \<and>
     image_mset (\<lambda>k. the (slots s k)) (mset_set (in_queue s)) + sum_mset (image_mset has_volume (fpcs s)) = mset vs \<and>
     card (released s) + length vs = puts s + sum_mset (image_mset between (fpcs s)) \<and>
     (vs = [] \<longrightarrow> puts s = 0 \<and> (\<forall>pc \<in># fpcs s. idle_pc pc))"

lemma finite_in_queue [simp]: "finite (in_queue s)"
  by (rule finite_subset [of _ "{..<puts s}"]) (auto simp: in_queue_def)

lemma mset_set_take: "finite A \<Longrightarrow> x \<in> A \<Longrightarrow> mset_set A = add_mset x (mset_set (A - {x}))"
  by (rule mset_set.remove)

lemma fl_start_inv:
  assumes "fl_start vs s"
  shows "fl_inv vs s"
proof -
  obtain n where S: "\<not> stop s" "puts s = length vs" "takes s = 0" "released s = {}" "fpcs s = replicate_mset n Top"
    "slots s = (\<lambda>k. if k < length vs then Some (vs ! k) else None)"
    using assms by (auto simp: fl_start_def)
  have z: "sum_mset (image_mset f (replicate_mset n Top)) = 0" if "f Top = 0" for f :: "fpc \<Rightarrow> 'b :: comm_monoid_add"
    using that by (induction n) auto
  have q: "in_queue s = {0..<length vs}" using S by (auto simp: in_queue_def)
  have "image_mset (\<lambda>k. the (slots s k)) (mset_set {0..<length vs}) = image_mset ((!) vs) (mset_set {0..<length vs})"
    using S(6) by (intro image_mset_cong) auto
  also have "\<dots> = mset vs" by (metis map_nth mset_map mset_upt)
  finally show ?thesis using S by (simp add: fl_inv_def q z) 
qed

lemma fl_step_inv:
  assumes inv: "fl_inv vs s" and st: "fl_step cap s s'"
  shows "fl_inv vs s'"
proof -
  note I = inv [unfolded fl_inv_def]
  have fin: "finite (released s)" by (rule finite_subset [of _ "{..<takes s}"]) (use I in auto)
  from st show ?thesis
  proof cases
    case (take_ticket M)
    have "{..<Suc (takes s)} - released s = insert (takes s) ({..<takes s} - released s)" using I by auto
    then show ?thesis using I take_ticket by (auto simp: fl_inv_def in_queue_def less_Suc_eq)
  next
    case (take_value c M v)
    let ?A = "{..<takes s} - released s"
    have D: "add_mset c (sum_mset (image_mset deq_tickets M)) = mset_set ?A" using I take_value(2) by simp
    then have c: "c \<in> ?A" by (metis finite_Diff finite_lessThan finite_set_mset_mset_set union_single_eq_member)
    have "{..<takes s} - insert c (released s) = ?A - {c}" by auto
    then have d: "sum_mset (image_mset deq_tickets M) = mset_set ({..<takes s} - insert c (released s))"
      using D mset_set_take [of ?A c] c by simp
    have cq: "c \<in> in_queue s" using c I take_value(3) by (auto simp: in_queue_def)
    have "in_queue s' = in_queue s - {c}" by (auto simp: in_queue_def take_value(1))
    then have "image_mset (\<lambda>k. the (slots s k)) (mset_set (in_queue s)) =
        add_mset v (image_mset (\<lambda>k. the (slots s k)) (mset_set (in_queue s')))"
      using mset_set_take [OF finite_in_queue cq] take_value(3) by simp
    then show ?thesis using I take_value d c fin by (auto simp: fl_inv_def)
  next
    case (put_ticket v M)
    have "{k. k < Suc (puts s) \<and> slots s k = None} = insert (puts s) {k. k < puts s \<and> slots s k = None}"
      using I by (auto simp: less_Suc_eq)
    moreover have "in_queue s' = in_queue s" using I by (auto simp: in_queue_def put_ticket(1) less_Suc_eq)
    ultimately show ?thesis using I put_ticket by (auto simp: fl_inv_def less_Suc_eq)
  next
    case (put_value p v M)
    let ?A = "{k. k < puts s \<and> slots s k = None}"
    have D: "add_mset p (sum_mset (image_mset enq_tickets M)) = mset_set ?A" using I put_value(2) by simp
    then have p: "p \<in> ?A" by (metis (mono_tags) finite_Collect_conjI finite_Collect_less_nat finite_set_mset_mset_set union_single_eq_member)
    have "{k. k < puts s \<and> ((slots s)(p \<mapsto> v)) k = None} = ?A - {p}" by auto
    then have d: "sum_mset (image_mset enq_tickets M) = mset_set {k. k < puts s \<and> ((slots s)(p \<mapsto> v)) k = None}"
      using D mset_set_take [of ?A p] p by simp
    have q: "in_queue s' = insert p (in_queue s)" "p \<notin> in_queue s" "p \<notin> released s"
      using p I by (auto simp: in_queue_def put_value(1))
    have "image_mset (\<lambda>k. the (slots s' k)) (mset_set (in_queue s)) = image_mset (\<lambda>k. the (slots s k)) (mset_set (in_queue s))"
      using q(2) by (intro image_mset_cong) (auto simp: put_value(1))
    then have "image_mset (\<lambda>k. the (slots s' k)) (mset_set (in_queue s')) =
        add_mset v (image_mset (\<lambda>k. the (slots s k)) (mset_set (in_queue s)))"
      using q(1,2) by (simp add: put_value(1))
    then show ?thesis using I put_value d p by (auto simp: fl_inv_def)
  qed (use I in \<open>auto simp: fl_inv_def in_queue_def\<close>)
qed

interpretation fl_runs: invariant_system "fl_start vs" "fl_step cap" "\<lambda>_. True" "\<lambda>_. fl_inv vs" for vs cap
  by unfold_locales (auto intro: fl_start_inv fl_step_inv)

section \<open>The end of the threads\<close>

text \<open>How many steps a thread can still make once it is to stop.\<close>

fun rank :: "fpc \<Rightarrow> nat" where
  "rank Ended = 0"
| "rank Top = 1"
| "rank (AwaitSlot p v) = 2"
| "rank (Flushing v) = 3"
| "rank (AwaitValue c) = 4"
| "rank TakeTicket = 5"
| "rank SizeTest = 6"
| "rank DirtyTest = 7"

definition steps_left :: "fl_sys \<Rightarrow> nat" where
  "steps_left s = sum_mset (image_mset rank (fpcs s))"

lemma steps_left_less:
  assumes "fl_step cap s s'" "stop s"
  shows "stop s' \<and> steps_left s' < steps_left s"
  using assms by cases (auto simp: steps_left_def)

lemma steps_left_bound: "steps_left s \<le> 7 * size (fpcs s)"
proof -
  have r: "rank pc \<le> 7" for pc by (cases pc) auto
  have "sum_mset (image_mset rank M) \<le> 7 * size M" for M
    by (induction M) (use r in \<open>auto simp: add_le_mono\<close>)
  then show ?thesis by (simp add: steps_left_def)
qed

lemma ticket_iff:
  "c \<in># sum_mset (image_mset deq_tickets M) \<longleftrightarrow> AwaitValue c \<in># M"
  "p \<in># sum_mset (image_mset enq_tickets M) \<longleftrightarrow> (\<exists>v. AwaitSlot p v \<in># M)"
proof -
  show "c \<in># sum_mset (image_mset deq_tickets M) \<longleftrightarrow> AwaitValue c \<in># M"
  proof (induction M)
    case (add pc M)
    then show ?case by (cases pc) auto
  qed simp
  show "p \<in># sum_mset (image_mset enq_tickets M) \<longleftrightarrow> (\<exists>v. AwaitSlot p v \<in># M)"
  proof (induction M)
    case (add pc M)
    then show ?case by (cases pc) auto
  qed simp
qed

text \<open>
  No deadlock: an enqueue that waits, with the lowest ticket of those, would need more volumes in
  the queue than it has slots; a dequeue that waits alone would need all volumes to be gone.
\<close>

lemma stuck_pcs:
  assumes stuck: "\<And>s'. \<not> fl_step cap s s'" and "stop s" and pc: "pc \<in># fpcs s"
  shows "pc = Ended \<or> (\<exists>c. pc = AwaitValue c \<and> slots s c = None) \<or>
    (\<exists>p v. pc = AwaitSlot p v \<and> cap \<le> p \<and> p - cap \<notin> released s)"
proof -
  obtain M where M: "fpcs s = add_mset pc M" using pc by (metis insert_DiffM)
  show ?thesis
  proof (cases pc)
    case SizeTest
    then show ?thesis using fl_step.no_volume [of s M cap] fl_step.some_volume [of s M cap] stuck M
      by (meson linorder_not_le)
  next
    case (AwaitValue c)
    then show ?thesis using fl_step.take_value [of s c M _ cap] stuck M by (cases "slots s c") auto
  next
    case (AwaitSlot p v)
    then have "\<not> (p < cap \<or> p - cap \<in> released s)" using fl_step.put_value [of s p v M cap] stuck M by blast
    then show ?thesis using AwaitSlot by (simp add: not_less)
  qed (use fl_step.leave [of s M cap] fl_step.few_dirty [of s M cap] fl_step.take_ticket [of s M cap]
      fl_step.put_ticket [of s _ M cap] stuck M \<open>stop s\<close> in auto)
qed

lemma fl_not_stuck:
  assumes inv: "fl_inv vs s" and cap: "length vs \<le> cap" and stop: "stop s"
    and stuck: "\<And>s'. \<not> fl_step cap s s'"
  shows "\<forall>pc \<in># fpcs s. pc = Ended"
proof -
  note I = inv [unfolded fl_inv_def]
  let ?A = "{..<takes s} - released s" and ?B = "{k. k < puts s \<and> slots s k = None}"
  have fin: "finite (released s)" by (rule finite_subset [of _ "{..<takes s}"]) (use I in auto)
  have A: "AwaitValue c \<in># fpcs s \<longleftrightarrow> c \<in> ?A" and B: "(\<exists>v. AwaitSlot k v \<in># fpcs s) \<longleftrightarrow> k \<in> ?B" for c k
    using ticket_iff [of c "fpcs s"] ticket_iff(2) [of k "fpcs s"] I by simp_all
  note S = stuck_pcs [OF stuck stop]
  have "between pc = 0" if "pc \<in># fpcs s" for pc using S [OF that] by auto
  then have "sum_mset (image_mset between (fpcs s)) = 0" by auto
  then have count: "card (released s) + length vs = puts s" using I by simp
  have free: "k \<in> released s" if "k < takes s" "slots s k \<noteq> None" for k
    using S [of "AwaitValue k"] A [of k] that by auto
  have none: "?B = {}"
  proof (rule ccontr)
    assume "?B \<noteq> {}"
    define p where "p = (LEAST k. k \<in> ?B)"
    have p: "p \<in> ?B" using \<open>?B \<noteq> {}\<close> unfolding p_def by (meson LeastI ex_in_conv)
    have low: "k \<notin> ?B" if "k < p" for k using that unfolding p_def by (rule not_less_Least)
    obtain v where "AwaitSlot p v \<in># fpcs s" using B p by blast
    from S [OF this] have c: "cap \<le> p" "p - cap \<notin> released s" by auto
    have "length vs \<noteq> 0" using I p by auto
    then have "0 < cap" using cap by linarith
    then have "p - cap < p" using c(1) by simp
    then have "slots s (p - cap) \<noteq> None" using low [of "p - cap"] p by simp
    then have "takes s \<le> p - cap" using free [of "p - cap"] c(2) by (meson not_less)
    moreover have "card (released s) \<le> card {..<takes s}" by (rule card_mono) (use I in auto)
    ultimately have "card (released s) \<le> p - cap" by simp
    then have "puts s \<le> p" using count cap c(1) by linarith
    then show False using p by simp
  qed
  have "\<not> (\<exists>c. AwaitValue c \<in># fpcs s)"
  proof
    assume "\<exists>c. AwaitValue c \<in># fpcs s"
    then obtain c where c: "AwaitValue c \<in># fpcs s" by blast
    have "c \<in> ?A" using A c by blast
    then have t: "c < takes s" by simp
    have t2: "slots s c = None" using S [OF c] by simp
    have all: "slots s k \<noteq> None" if "k < puts s" for k
    proof
      assume "slots s k = None"
      then have "k \<in> ?B" using that by simp
      then show False unfolding none by simp
    qed
    have le: "puts s \<le> c" using t2 all [of c] by (rule_tac leI) blast
    have "k \<in> released s" if "k < puts s" for k
      using free [OF _ all [OF that]] le t that by simp
    then have "{..<puts s} \<subseteq> released s" by blast
    from card_mono [OF fin this] have "puts s \<le> card (released s)" by simp
    moreover have "0 < length vs"
    proof (rule ccontr)
      assume "\<not> 0 < length vs"
      then have "vs = []" by simp
      then have "\<forall>pc \<in># fpcs s. idle_pc pc" using I by blast
      from bspec [OF this c] show False by simp
    qed
    ultimately show False using count by linarith
  qed
  then show ?thesis using S B none by blast
qed

lemma ended_queue:
  assumes inv: "fl_inv vs s" and "\<forall>pc \<in># fpcs s. pc = Ended"
  shows "image_mset (\<lambda>k. the (slots s k)) (mset_set (in_queue s)) = mset vs"
proof -
  have "has_volume pc = {#}" if "pc \<in># fpcs s" for pc using bspec [OF assms(2) that] by simp
  moreover have "(\<forall>pc \<in># M. has_volume pc = {#}) \<Longrightarrow> sum_mset (image_mset has_volume M) = {#}" for M
    by (induction M) auto
  ultimately have "sum_mset (image_mset has_volume (fpcs s)) = {#}" by blast
  moreover have "image_mset (\<lambda>k. the (slots s k)) (mset_set (in_queue s)) +
      sum_mset (image_mset has_volume (fpcs s)) = mset vs"
    using inv unfolding fl_inv_def by blast
  ultimately show ?thesis by (metis empty_neutral(2))
qed

text \<open>C18. The flush threads end once \<open>sys_terminate\<close> is set, so that the close can join them: each of them
  makes at most seven more steps; and as long as one has not ended, some thread can go on,
  although several may wait for a volume of which there is only one and nothing closes the
  queue. No volume is lost on the way: afterwards the queue holds the open volumes.\<close>
theorem flush_threads_end:
  assumes "reach (fl_start vs) (fl_step cap) n s" "length vs \<le> cap" "stop s"
  shows "(\<forall>s'. fl_step cap s s' \<longrightarrow> stop s' \<and> steps_left s' < steps_left s) \<and>
    steps_left s \<le> 7 * size (fpcs s) \<and>
    ((\<exists>s'. fl_step cap s s') \<or>
     (\<forall>pc \<in># fpcs s. pc = Ended) \<and> image_mset (\<lambda>k. the (slots s k)) (mset_set (in_queue s)) = mset vs)"
proof -
  have inv: "fl_inv vs s" using fl_runs.reach_inv [OF assms(1)] by simp
  show ?thesis
    using steps_left_less assms(3) steps_left_bound fl_not_stuck [OF inv assms(2,3)] ended_queue [OF inv] by blast
qed

text \<open>One volume and two threads that both want it.\<close>

definition fl_demo :: fl_sys where
  "fl_demo = \<lparr>stop = False, slots = [0 \<mapsto> 5], puts = 1, takes = 0, released = {}, fpcs = {#Top, Top#}\<rparr>"

theorem flush_threads_end_witness:
  "steps_left (fl_demo\<lparr>stop := True\<rparr>) \<le> 14 \<and> (\<exists>s'. fl_step 1 (fl_demo\<lparr>stop := True\<rparr>) s')"
proof -
  have "reach (fl_start [5]) (fl_step 1) 0 fl_demo"
    by (rule reach_start) (auto simp: fl_start_def fl_demo_def fun_eq_iff intro!: exI [of _ 2] simp: numeral_2_eq_2)
  moreover have "fl_step 1 fl_demo (fl_demo\<lparr>stop := True\<rparr>)" by (rule terminate) (simp add: fl_demo_def)
  ultimately have "reach (fl_start [5]) (fl_step 1) (Suc 0) (fl_demo\<lparr>stop := True\<rparr>)" by (rule reach_step)
  from flush_threads_end [OF this] show ?thesis by (auto simp: fl_demo_def)
qed

end
