(* ===== verification/NVM_Info.thy ===== *)
theory NVM_Info
  imports NVM_Layout Console
begin

text \<open>
  What \<open>print_nvm_info\<close> (\<^verbatim>\<open>src/nvm0nvm.cc\<close>) prints about a segment: sizes and addresses of the tables.
  How \<open>%p\<close> shows an address is up to the C library and a parameter.
\<close>

definition show_int :: "int \<Rightarrow> string" where
  "show_int i = (if i < 0 then ''-'' @ to_string (nat (- i)) else to_string (nat i))"

definition show_u32 :: "u32 \<Rightarrow> string" where "show_u32 x = to_string (unat x)"
definition show_u64 :: "u64 \<Rightarrow> string" where "show_u64 x = to_string (unat x)"

text \<open>The sizes of the tables: the first two products are taken in 32 bits, the third in 64.\<close>

definition volume_table_size :: "'m nvm \<Rightarrow> u32" where
  "volume_table_size s = ucast SIZEOF_VOLUME_ENTRY * max_volume_entry s"

definition inode_table_size :: "'m nvm \<Rightarrow> u32" where
  "inode_table_size s = of_nat SIZEOF_INODE_ENTRY * max_inode_entry s"

definition block_table_size :: "'m nvm \<Rightarrow> u64" where
  "block_table_size s = ucast (block_size s) * ucast (max_inode_entry s)"

definition print_nvm_info :: "(u64 \<Rightarrow> string) \<Rightarrow> u64 \<Rightarrow> u64 \<Rightarrow> layout \<Rightarrow> 'm nvm \<Rightarrow> string" where
  "print_nvm_info show_ptr nvm nvm_size L s = concat (map (\<lambda>l. l @ [LF]) [
     ''====================NVM Information===================='',
     ''NVM Size          : '' @ show_u64 nvm_size,
     ''Metadata Size     : '' @ show_int (uint SIZEOF_NVM_METADATA),
     ''Volume Entry Size : '' @ show_int (uint SIZEOF_VOLUME_ENTRY),
     ''Max Volume Entry  : '' @ show_u32 (max_volume_entry s),
     ''Inode Entry Size  : '' @ show_int (int SIZEOF_INODE_ENTRY),
     ''Data Block Size   : '' @ show_int (sint (block_size s)),
     ''Max Inode Entry   : '' @ show_u32 (max_inode_entry s),
     '''',
     ''NVM Start Address : '' @ show_ptr nvm,
     ''Volume Table Addr : '' @ show_ptr (volume_table_at L),
     ''Volume Table Size : '' @ show_u32 (volume_table_size s),
     ''Inode Table Addr  : '' @ show_ptr (inode_table_at L),
     ''Inode Table Size  : '' @ show_u32 (inode_table_size s),
     ''Data Block Table  : '' @ show_ptr (block_table_at L),
     ''Block Table Size  : '' @ show_u64 (block_table_size s),
     ''====================NVM Information====================''])"

text \<open>The size of the block table never wraps; that of the inode table does from \<open>2 ^ 26\<close> inodes on.\<close>

lemma block_table_size_exact: "unat (block_table_size s) = unat (block_size s) * unat (max_inode_entry s)"
proof -
  have "unat (block_size s) * unat (max_inode_entry s) \<le> 4294967295 * 4294967295"
    using unat_u32_less [of "block_size s"] unat_u32_less [of "max_inode_entry s"] by (intro mult_le_mono) simp_all
  then show ?thesis by (simp add: block_table_size_def unat_word_ariths unat_ucast_u32_u64)
qed

lemma inode_table_size_exact:
  "unat (inode_table_size s) = SIZEOF_INODE_ENTRY * unat (max_inode_entry s) \<longleftrightarrow> unat (max_inode_entry s) < 2 ^ 26"
proof -
  have e: "unat (inode_table_size s) = (64 * unat (max_inode_entry s)) mod 4294967296"
    by (simp add: inode_table_size_def SIZEOF_INODE_ENTRY_def unat_word_ariths)
  have m: "x mod 4294967296 = x \<longleftrightarrow> x < 4294967296" for x :: nat
    by (metis mod_less mod_less_divisor zero_less_numeral)
  show ?thesis unfolding e by (simp add: m SIZEOF_INODE_ENTRY_def)
qed

text \<open>For formatted tables, the sizes and addresses tile the segment as they are printed.\<close>

lemma printed_volume_table:
  assumes "max_volume_entry s = MAX_VOLUME_ENTRY" "unat nvm + unat sz < 2 ^ 64" "19503 \<le> unat sz" "unat sz < 2 ^ 45"
  shows "unat (inode_table_at (nvm_layout nvm sz)) =
    unat (volume_table_at (nvm_layout nvm sz)) + unat (volume_table_size s)"
proof -
  have "unat (volume_table_size s) = 3072" using assms(1) by (simp add: volume_table_size_def layout_defs)
  then show ?thesis using layout_addresses(1,2) [OF assms(2-4)] by simp
qed

end
