(* ===== verification/Skew_Random.thy ===== *)
theory Skew_Random
  imports Console
begin

unbundle bit_operations_syntax

text \<open>
  The class \<open>Random\<close> of \<^verbatim>\<open>include/ut0random.h\<close>, in the build without \<^verbatim>\<open>__WT_RAND_SUPPORT_\<close>. A value that
  \<^verbatim>\<open>rand()\<close> returned is an argument \<open>r\<close>, an \<open>int\<close> that is not negative; \<^verbatim>\<open>pow\<close> is a parameter whose
  values are positive for positive bases. Memory for the table is always found.
\<close>

section \<open>Uniform numbers\<close>

definition unif_rand :: "u32 \<Rightarrow> u32" where
  "unif_rand r = r"

definition unif_rand64 :: "u32 \<Rightarrow> u32 \<Rightarrow> u64" where
  "unif_rand64 r1 r2 = (let ret = push_bit 32 (scast r1) in ret OR scast r2)"

text \<open>What \<^verbatim>\<open>rand()\<close> can return: \<open>RAND_MAX\<close> is \<open>2 ^ 31 - 1\<close>.\<close>

definition is_rand :: "u32 \<Rightarrow> bool" where
  "is_rand r \<longleftrightarrow> r < 0x80000000"

section \<open>Skewed numbers\<close>

record random =
  rd_dist :: "u64 list"
  rd_n :: u64

definition new_random :: random where
  "new_random = \<lparr>rd_dist = [], rd_n = 0\<rparr>"

text \<open>The first loop of \<open>skew_init\<close>, for \<open>i = 1, \<dots>, k\<close>, and the second one with \<open>csum\<close> and the table.\<close>

fun skew_sum :: "(rat \<Rightarrow> rat \<Rightarrow> rat) \<Rightarrow> rat \<Rightarrow> nat \<Rightarrow> rat" where
  "skew_sum pow e 0 = 0"
| "skew_sum pow e (Suc k) = dadd (skew_sum pow e k) (ddiv 1 (pow (dbl (int (Suc k))) e))"

fun skew_fill :: "(rat \<Rightarrow> rat \<Rightarrow> rat) \<Rightarrow> rat \<Rightarrow> rat \<Rightarrow> u64 \<Rightarrow> nat \<Rightarrow> rat \<times> u64 list" where
  "skew_fill pow e c n 0 = (0, [])"
| "skew_fill pow e c n (Suc k) =
     (let (csum, ds) = skew_fill pow e c n k;
          csum' = dadd csum (ddiv c (pow (dbl (int (Suc k))) e))
      in (csum', ds @ [word_of_int (trunc (dmul csum' (dbl (uint n))))]))"

definition skew_init :: "(rat \<Rightarrow> rat \<Rightarrow> rat) \<Rightarrow> random \<Rightarrow> rat \<Rightarrow> u64 \<Rightarrow> int \<times> random" where
  "skew_init pow rs t n =
     (let e = dsub 1 t in
      if n \<le> 1 then (- 1, rs)
      else let c = ddiv 1 (skew_sum pow e (unat n))
           in (0, \<lparr>rd_dist = snd (skew_fill pow e c n (unat n)), rd_n = n\<rparr>))"

definition skew_rand64 :: "random \<Rightarrow> u32 \<Rightarrow> u64 res" where
  "skew_rand64 rs r = (if rd_n rs = 0 then Inr 0 else at_index (rd_dist rs) (unat (scast r mod rd_n rs)))"

definition skew_rand :: "random \<Rightarrow> u32 \<Rightarrow> u32 res" where
  "skew_rand rs r =
     (if rd_n rs = 0 then Inr 0 else rbind (at_index (rd_dist rs) (unat (scast r mod rd_n rs))) (\<lambda>d. Inr (ucast d)))"

definition skew_rand_at :: "random \<Rightarrow> u64 \<Rightarrow> u64 res" where
  "skew_rand_at rs i = (if rd_n rs = 0 then Inr 0 else at_index (rd_dist rs) (unat i))"

text \<open>The loop that counts how many numbers fall into each of ten sections, and the printing.\<close>

fun count_sections :: "random \<Rightarrow> u64 \<Rightarrow> nat \<Rightarrow> nat \<Rightarrow> u64 list \<Rightarrow> u64 list res" where
  "count_sections rs unit i 0 section = Inr section"
| "count_sections rs unit i (Suc k) section =
     rbind (at_index (rd_dist rs) i) (\<lambda>d.
     if unit = 0 then Inl DivByZero
     else rbind (at_index section (unat (d div unit))) (\<lambda>m.
       count_sections rs unit (Suc i) k (section[unat (d div unit) := m + 1])))"

definition show_section :: "u64 \<Rightarrow> u64 list \<Rightarrow> nat \<Rightarrow> string" where
  "show_section unit section i =
     ''From '' @ pad CHR '' '' 10 (to_string (unat (of_nat i * unit))) @ '' to '' @
     pad CHR '' '' 10 (to_string (unat (of_nat (i + 1) * unit))) @ '' : '' @
     pad CHR '' '' 10 (to_string (unat (section ! i))) @ [LF]"

definition skew_print_dist :: "random \<Rightarrow> string res" where
  "skew_print_dist rs =
     (let unit = rd_n rs div 10 in
      rbind (count_sections rs unit 0 (unat (rd_n rs)) (replicate 10 0)) (\<lambda>section.
      Inr (concat (map (show_section unit section) [0..<10]))))"

section \<open>Uniform numbers: what they leave out\<close>

lemma not_bit_above: "unat (w :: 'l::len word) < 2 ^ k \<Longrightarrow> \<not> bit w k"
proof -
  assume "unat w < 2 ^ k"
  then have "\<not> bit (unat w) k" by (simp add: bit_iff_odd)
  then show ?thesis by (simp add: bit_unsigned_iff)
qed

lemma unat_scast_rand: "is_rand r \<Longrightarrow> unat (scast r :: u64) = unat r"
proof -
  assume "is_rand r"
  then have "unat r < 2 ^ 31" by (simp add: is_rand_def word_less_nat_alt)
  then have nb: "\<not> bit r 31" by (rule not_bit_above)
  have top: "\<not> bit r n" if "31 \<le> n" for n
    using nb that bit_imp_le_length [of r n] by (cases "n = 31") auto
  have "(scast r :: u64) = ucast r"
    by (rule bit_word_eqI) (use top in \<open>auto simp: bit_simps min_def not_le\<close>)
  then show ?thesis by (simp add: unat_ucast_u32_u64)
qed

lemma unat_rand64:
  assumes "is_rand r1" "is_rand r2"
  shows "unat (unif_rand64 r1 r2) = unat r1 * 2 ^ 32 + unat r2"
proof -
  have lt: "unat r1 < 2 ^ 31" "unat r2 < 2 ^ 31" using assms by (simp_all add: is_rand_def word_less_nat_alt)
  let ?a = "push_bit 32 (scast r1 :: u64)" and ?b = "scast r2 :: u64"
  have "?a AND ?b = 0"
  proof (rule bit_word_eqI)
    fix k assume "k < LENGTH(64)"
    have "\<not> bit ?b k" if "32 \<le> k"
    proof -
      have "unat ?b < 2 ^ k" using unat_scast_rand [OF assms(2)] lt(2) power_increasing [OF that, of "2 :: nat"] by simp
      then show ?thesis by (rule not_bit_above)
    qed
    then show "bit (?a AND ?b) k = bit (0 :: u64) k" by (auto simp: bit_simps)
  qed
  then have "unif_rand64 r1 r2 = ?a + ?b" by (simp add: unif_rand64_def Let_def disjunctive_add_eq_or)
  moreover have "unat ?a = unat r1 * 2 ^ 32"
    using unat_scast_rand [OF assms(1)] lt(1) by (simp add: push_bit_eq_mult unat_word_ariths)
  ultimately show ?thesis
    using unat_scast_rand [OF assms(2)] lt by (simp add: unat_word_ariths)
qed

text \<open>\<open>unif_rand64\<close>, described as a uniform 64-bit number, never sets bits 31 and 63: it is the two
  31-bit numbers side by side, so that three quarters of the 64-bit numbers never come up.\<close>
theorem unif_rand64_range:
  assumes "is_rand r1" "is_rand r2"
  shows "unat (unif_rand64 r1 r2) = unat r1 * 2 ^ 32 + unat r2 \<and>
    \<not> bit (unif_rand64 r1 r2) 31 \<and> \<not> bit (unif_rand64 r1 r2) 63"
proof -
  have lt: "unat r1 < 2 ^ 31" "unat r2 < 2 ^ 31" using assms by (simp_all add: is_rand_def word_less_nat_alt)
  have v: "unat (unif_rand64 r1 r2) = unat r1 * 2 ^ 32 + unat r2" by (rule unat_rand64 [OF assms])
  have "unat r1 * 2 ^ 32 + unat r2 = unat r2 + (2 * unat r1) * 2 ^ 31" by simp
  then have "(unat r1 * 2 ^ 32 + unat r2) div 2 ^ 31 = 2 * unat r1" using lt(2) by (simp only: div_mult_self3) simp
  then have "\<not> bit (unat r1 * 2 ^ 32 + unat r2) 31" "\<not> bit (unat r1 * 2 ^ 32 + unat r2) 63"
    using lt by (simp_all add: bit_iff_odd)
  moreover have "bit (unat w) k \<longleftrightarrow> bit w k" for w :: u64 and k by (simp add: bit_unsigned_iff)
  ultimately show ?thesis using v by metis
qed

section \<open>Accumulated rounding\<close>

text \<open>Both loops of \<open>skew_init\<close> add up quotients of a constant by powers.\<close>

fun acc :: "(nat \<Rightarrow> rat) \<Rightarrow> rat \<Rightarrow> nat \<Rightarrow> rat" where
  "acc p a 0 = 0"
| "acc p a (Suc k) = dadd (acc p a k) (ddiv a (p (Suc k)))"

abbreviation powers :: "(rat \<Rightarrow> rat \<Rightarrow> rat) \<Rightarrow> rat \<Rightarrow> nat \<Rightarrow> rat" where
  "powers pow e i \<equiv> pow (dbl (int i)) e"

definition entry :: "(nat \<Rightarrow> rat) \<Rightarrow> rat \<Rightarrow> u64 \<Rightarrow> nat \<Rightarrow> int" where
  "entry p c n k = trunc (dmul (acc p c k) (dbl (uint n)))"

lemma skew_sum_acc: "skew_sum pow e k = acc (powers pow e) 1 k"
  by (induction k) simp_all

lemma skew_fill_acc:
  "skew_fill pow e c n k = (acc (powers pow e) c k, map (\<lambda>j. word_of_int (entry (powers pow e) c n (Suc j))) [0..<k])"
  by (induction k) (simp_all add: Let_def entry_def)

lemma acc_rnd: "rnd (acc p a k) = acc p a k" if "0 \<le> a" "\<And>i. 0 < p i"
proof -
  have "0 \<le> acc p a k" for k
    by (induction k) (use that in \<open>simp_all add: dadd_def ddiv_def rnd_nonneg less_imp_le\<close>)
  then show ?thesis using that by (cases k) (simp_all add: dadd_def ddiv_def rnd_idem rnd_nonneg less_imp_le)
qed

lemma acc_nonneg: "0 \<le> a \<Longrightarrow> (\<And>i. 0 < p i) \<Longrightarrow> 0 \<le> acc p a k"
  by (induction k) (simp_all add: dadd_def ddiv_def rnd_nonneg less_imp_le)

lemma acc_mono:
  assumes "0 \<le> a" "\<And>i. 0 < p i" "j \<le> k"
  shows "acc p a j \<le> acc p a k"
  using assms(3)
proof (induction k)
  case (Suc k)
  have "acc p a k \<le> acc p a (Suc k)"
  proof -
    have "rnd (acc p a k) \<le> rnd (acc p a k + ddiv a (p (Suc k)))"
      using assms(1,2) acc_nonneg [of a p k] by (intro rnd_mono) (simp_all add: ddiv_def rnd_nonneg less_imp_le)
    then show ?thesis using acc_rnd [of a p k] assms(1,2) by (simp add: dadd_def)
  qed
  with Suc show ?case by (cases "j = Suc k") auto
qed simp

text \<open>Every operation is off by a factor between \<open>1 - 2 ^ - 53\<close> and \<open>1 + 2 ^ - 53\<close>.\<close>

definition eps :: rat where "eps = 1 / 2 ^ 53"

lemma eps_bounds [simp]: "0 < eps" "0 \<le> eps" "eps < 1" "eps \<le> 1" "0 \<le> 1 + eps"
  by (simp_all add: eps_def)

lemma rnd_factor: "0 \<le> x \<Longrightarrow> (1 - eps) * x \<le> rnd x" "0 \<le> x \<Longrightarrow> rnd x \<le> (1 + eps) * x"
  using rnd_lower [of x] rnd_upper [of x] by (simp_all add: eps_def algebra_simps)

lemma acc_bounds:
  fixes p :: "nat \<Rightarrow> rat"
  assumes "0 \<le> a" "\<And>i. 0 < p i"
  shows "(1 - eps) ^ Suc k * (a * (\<Sum>i<k. 1 / p (Suc i))) \<le> acc p a k \<and>
    acc p a k \<le> (1 + eps) ^ Suc k * (a * (\<Sum>i<k. 1 / p (Suc i)))"
proof (induction k)
  case (Suc k)
  let ?S = "a * (\<Sum>i<k. 1 / p (Suc i))" and ?q = "a / p (Suc k)"
  have q: "0 \<le> ?q" using assms by (simp add: less_imp_le)
  have S: "0 \<le> ?S" using assms by (simp add: sum_nonneg less_imp_le)
  have sum: "a * (\<Sum>i<Suc k. 1 / p (Suc i)) = ?S + ?q" by (simp add: algebra_simps)
  have d: "(1 - eps) * ?q \<le> ddiv a (p (Suc k))" "ddiv a (p (Suc k)) \<le> (1 + eps) * ?q"
    using rnd_factor [OF q] by (simp_all add: ddiv_def)
  have x: "0 \<le> acc p a k + ddiv a (p (Suc k))" using acc_nonneg [of a p k] assms q by (simp add: ddiv_def rnd_nonneg)
  have "(1 - eps) ^ Suc k * ?q \<le> (1 - eps) * ?q"
    using power_decreasing [of 1 "Suc k" "1 - eps"] q by (intro mult_right_mono) simp_all
  then have lo: "(1 - eps) ^ Suc k * (?S + ?q) \<le> acc p a k + ddiv a (p (Suc k))"
    using Suc.IH d(1) unfolding distrib_left by linarith
  have "(1 + eps) * ?q \<le> (1 + eps) ^ Suc k * ?q"
    using power_increasing [of 1 "Suc k" "1 + eps"] q by (intro mult_right_mono) simp_all
  then have hi: "acc p a k + ddiv a (p (Suc k)) \<le> (1 + eps) ^ Suc k * (?S + ?q)"
    using Suc.IH d(2) unfolding distrib_left by linarith
  have "(1 - eps) ^ Suc (Suc k) * (?S + ?q) = (1 - eps) * ((1 - eps) ^ Suc k * (?S + ?q))" by simp
  also have "\<dots> \<le> (1 - eps) * (acc p a k + ddiv a (p (Suc k)))" using lo by (intro mult_left_mono) simp_all
  also have "\<dots> \<le> acc p a (Suc k)" using rnd_factor(1) [OF x] by (simp add: dadd_def)
  finally have 1: "(1 - eps) ^ Suc (Suc k) * (?S + ?q) \<le> acc p a (Suc k)" .
  have "acc p a (Suc k) \<le> (1 + eps) * (acc p a k + ddiv a (p (Suc k)))" using rnd_factor(2) [OF x] by (simp add: dadd_def)
  also have "\<dots> \<le> (1 + eps) * ((1 + eps) ^ Suc k * (?S + ?q))" using hi by (intro mult_left_mono) simp_all
  also have "\<dots> = (1 + eps) ^ Suc (Suc k) * (?S + ?q)" by simp
  finally have 2: "acc p a (Suc k) \<le> (1 + eps) ^ Suc (Suc k) * (?S + ?q)" .
  show ?case unfolding sum using 1 2 by blast
qed simp

text \<open>So the last \<open>csum\<close>, which should be 1, is off by about \<open>2n\<close> roundings.\<close>

lemma csum_bounds:
  fixes p :: "nat \<Rightarrow> rat"
  assumes "0 < n" "\<And>i. 0 < p i"
  shows "(1 - eps) ^ (2 * n + 3) \<le> acc p (ddiv 1 (acc p 1 n)) n"
    "acc p (ddiv 1 (acc p 1 n)) n * (1 - eps) ^ (2 * n + 3) \<le> 1"
proof -
  define S where "S = (\<Sum>i<n. 1 / p (Suc i))"
  define A where "A = acc p 1 n"
  define c where "c = ddiv 1 A"
  have S: "0 < S" unfolding S_def using assms by (intro sum_pos) (auto simp: lessThan_empty_iff)
  have A: "(1 - eps) ^ Suc n * S \<le> A" "A \<le> (1 + eps) ^ Suc n * S"
    using acc_bounds [of 1 p n] assms(2) by (simp_all add: A_def S_def)
  have "0 < (1 - eps) ^ Suc n * S" using S by (intro mult_pos_pos zero_less_power) simp_all
  then have Ap: "0 < A" using A(1) by linarith
  have c: "(1 - eps) * (1 / A) \<le> c" "c \<le> (1 + eps) * (1 / A)"
    using rnd_factor [of "1 / A"] Ap by (simp_all add: c_def ddiv_def)
  have cp: "0 \<le> c" using Ap by (simp add: c_def ddiv_def rnd_nonneg)
  have C: "(1 - eps) ^ Suc n * (c * S) \<le> acc p c n" "acc p c n \<le> (1 + eps) ^ Suc n * (c * S)"
    using acc_bounds [of c p n] cp assms(2) by (simp_all add: S_def)
  have inv: "(1 - eps) * (1 + eps) \<le> 1" by (simp add: eps_def)
  have invn: "(1 - eps) ^ k * (1 + eps) ^ k \<le> 1" for k
    unfolding power_mult_distrib [symmetric] using inv by (intro power_le_one) simp_all
  have "(1 - eps) ^ Suc n * A \<le> (1 - eps) ^ Suc n * ((1 + eps) ^ Suc n * S)" using A(2) by (intro mult_left_mono) simp_all
  also have "\<dots> \<le> 1 * S" unfolding mult.assoc [symmetric] using invn [of "Suc n"] S by (intro mult_right_mono) (simp_all only: less_imp_le)
  finally have SA: "(1 - eps) ^ Suc n \<le> S / A" using Ap by (simp add: pos_le_divide_eq)
  have AS: "(1 - eps) ^ Suc n * (S / A) \<le> 1" using A(1) Ap by (simp add: pos_divide_le_eq)
  have e: "2 * n + 3 = Suc n + Suc (Suc n)" "2 * n + 3 = (n + 2) + Suc n" by simp_all
  have "(1 - eps) ^ (2 * n + 3) = (1 - eps) ^ Suc n * ((1 - eps) * (1 - eps) ^ Suc n)"
    unfolding e(1) power_add power_Suc [of _ "Suc n"] by (rule refl)
  also have "\<dots> \<le> (1 - eps) ^ Suc n * ((1 - eps) * (S / A))" using SA by (intro mult_left_mono) simp_all
  also have "\<dots> = (1 - eps) ^ Suc n * (((1 - eps) * (1 / A)) * S)" by simp
  also have "\<dots> \<le> (1 - eps) ^ Suc n * (c * S)" using c(1) S by (intro mult_left_mono mult_right_mono) simp_all
  also have "\<dots> \<le> acc p c n" by (rule C)
  finally show "(1 - eps) ^ (2 * n + 3) \<le> acc p (ddiv 1 (acc p 1 n)) n" by (simp add: c_def A_def)
  have "acc p c n \<le> (1 + eps) ^ Suc n * (c * S)" by (rule C)
  also have "\<dots> \<le> (1 + eps) ^ Suc n * (((1 + eps) * (1 / A)) * S)" using c(2) S by (intro mult_left_mono mult_right_mono) simp_all
  also have "\<dots> = (1 + eps) ^ (n + 2) * (S / A)" by simp
  finally have "acc p c n * (1 - eps) ^ (2 * n + 3) \<le> ((1 + eps) ^ (n + 2) * (S / A)) * (1 - eps) ^ (2 * n + 3)"
    by (intro mult_right_mono) simp_all
  also have "\<dots> = ((1 - eps) ^ (n + 2) * (1 + eps) ^ (n + 2)) * ((1 - eps) ^ Suc n * (S / A))"
    unfolding e(2) power_add [of "1 - eps" "n + 2" "Suc n"] by (simp only: mult_ac)
  also have "\<dots> \<le> 1 * 1" by (rule mult_mono [OF invn AS]) (use Ap S in simp_all)
  finally show "acc p (ddiv 1 (acc p 1 n)) n * (1 - eps) ^ (2 * n + 3) \<le> 1" by (simp add: c_def A_def)
qed

section \<open>The table\<close>

text \<open>A Bernoulli bound, and what it says of the entries.\<close>

lemma eps_power: "1 - rat_of_nat m * eps \<le> (1 - eps) ^ m"
proof (induction m)
  case (Suc m)
  have "(1 - eps) ^ m \<le> 1" by (intro power_le_one) simp_all
  then have "eps * (1 - eps) ^ m \<le> eps * 1" by (rule mult_left_mono) (rule eps_bounds)
  moreover have "(1 - eps) ^ Suc m = (1 - eps) ^ m - eps * (1 - eps) ^ m" by (simp add: algebra_simps)
  moreover have "rat_of_nat (Suc m) * eps = rat_of_nat m * eps + eps" by (simp add: algebra_simps)
  ultimately show ?case using Suc.IH by linarith
qed simp

lemma entries_bounds:
  fixes p :: "nat \<Rightarrow> rat"
  assumes "2 \<le> unat n" "unat n < 2 ^ 25" "\<And>i. 0 < p i" and c_def: "c = ddiv 1 (acc p 1 (unat n))"
  shows "j \<le> k \<Longrightarrow> entry p c n j \<le> entry p c n k" "0 \<le> entry p c n k"
    "k \<le> unat n \<Longrightarrow> entry p c n k \<le> int (unat n)" "int (unat n) - 1 \<le> entry p c n (unat n)"
proof -
  let ?n = "unat n"
  define C where "C = acc p c ?n"
  define N where "N = rat_of_nat ?n"
  have nr: "dbl (uint n) = N"
  proof -
    have "?n \<le> 2 ^ 53" using assms(2) by simp
    then have "int ?n \<le> 2 ^ 53" by (metis of_nat_le_iff of_nat_numeral of_nat_power)
    then show ?thesis using dbl_int [of "int ?n"] by (simp add: N_def)
  qed
  have n: "2 \<le> N" "N \<le> 2 ^ 25 - 1" unfolding N_def
    using assms(1,2) of_nat_le_iff [where ?'a = rat, of 2 ?n] of_nat_le_iff [where ?'a = rat, of ?n "2 ^ 25 - 1"] by simp_all
  have c: "0 \<le> c" unfolding c_def ddiv_def by (intro rnd_nonneg) (simp add: acc_nonneg assms(3))
  note pos = acc_nonneg [of c p, OF c assms(3)]
  have mono: "acc p c j * N \<le> acc p c k * N" if "j \<le> k" for j k
    using acc_mono [of c p, OF c assms(3) that] n by (intro mult_right_mono) simp_all
  have e: "entry p c n k = \<lfloor>rnd (acc p c k * N)\<rfloor>" for k
    using rnd_nonneg [of "acc p c k * N"] pos [of k] n by (simp add: entry_def trunc_def dmul_def nr)
  show "j \<le> k \<Longrightarrow> entry p c n j \<le> entry p c n k" for j k
    unfolding e using mono pos n by (intro floor_mono rnd_mono) simp_all
  show "0 \<le> entry p c n k" for k
    unfolding e using pos [of k] n by (simp add: rnd_nonneg)
  let ?d = "(1 - eps) ^ (2 * ?n + 3)"
  have d: "1 - rat_of_nat (2 * ?n + 3) * eps \<le> ?d" by (rule eps_power)
  have C: "?d \<le> C" "C * ?d \<le> 1" "0 \<le> C"
    using csum_bounds [of ?n p] assms(1,3) c_def pos unfolding C_def by simp_all
  have N: "2 \<le> N" "N \<le> 2 ^ 25 - 1" "1 - (2 * N + 3) * eps \<le> ?d" using n d by (simp_all add: N_def)
  have top: "rnd (C * N) < N + 1"
  proof (rule ccontr)
    assume "\<not> rnd (C * N) < N + 1"
    then have "N + 1 \<le> (1 + eps) * (C * N)" using rnd_factor(2) [of "C * N"] C(3) N(1) by simp
    then have "(N + 1) * ?d \<le> (1 + eps) * (C * N) * ?d" by (intro mult_right_mono) simp_all
    also have "\<dots> = (1 + eps) * N * (C * ?d)" by simp
    also have "\<dots> \<le> (1 + eps) * N * 1" using C(2) N(1) by (intro mult_left_mono) simp_all
    finally have 1: "(N + 1) * ?d \<le> N + eps * N" by (simp add: algebra_simps)
    have "(N + 1) * (1 - (2 * N + 3) * eps) \<le> (N + 1) * ?d" using N by (intro mult_left_mono) simp_all
    moreover have "(N + 1) * (1 - (2 * N + 3) * eps) = N + 1 - (N + 1) * (2 * N + 3) * eps" by (simp add: algebra_simps)
    moreover have "(N + 1) * (2 * N + 3) * eps \<le> 2 ^ 25 * (2 ^ 26 + 1) * eps" using N by (intro mult_right_mono mult_mono) simp_all
    moreover have "eps * N \<le> eps * 2 ^ 25" using N by (intro mult_left_mono) simp_all
    moreover have "2 ^ 25 * (2 ^ 26 + 1) * eps + eps * 2 ^ 25 < 1" by (simp add: eps_def)
    ultimately show False using 1 by linarith
  qed
  show "k \<le> ?n \<Longrightarrow> entry p c n k \<le> int ?n" for k
  proof -
    assume "k \<le> ?n"
    from mono [OF this] have "rnd (acc p c k * N) \<le> rnd (C * N)"
      unfolding C_def using pos n by (intro rnd_mono) simp_all
    with top have "rnd (acc p c k * N) < of_int (int ?n + 1)" by (simp add: N_def)
    then show ?thesis unfolding e by (simp only: floor_less_iff [symmetric])
  qed
  have "N * (1 - (2 * N + 3) * eps) \<le> N * C" using N C(1) by (intro mult_left_mono) simp_all
  moreover have "N * (1 - (2 * N + 3) * eps) = N - N * (2 * N + 3) * eps" by (simp add: algebra_simps)
  moreover have "N * (2 * N + 3) * eps \<le> 2 ^ 25 * (2 ^ 26 + 1) * eps" using N by (intro mult_right_mono mult_mono) simp_all
  moreover have "2 ^ 25 * (2 ^ 26 + 1) * eps \<le> 1" by (simp add: eps_def)
  moreover have "N * C = C * N" by simp
  ultimately have "N - 1 \<le> C * N" by linarith
  then have "rnd (N - 1) \<le> rnd (C * N)" using N(1) by (intro rnd_mono) simp_all
  moreover have "rnd (N - 1) = N - 1"
  proof -
    obtain m where m: "?n = Suc m" using assms(1) by (cases ?n) simp_all
    then have "rnd (rat_of_nat m) = rat_of_nat m" using rnd_int [of "int m"] assms(2) by simp
    moreover have "N = rat_of_nat m + 1" unfolding N_def m by simp
    ultimately show ?thesis by simp
  qed
  ultimately have "of_int (int ?n - 1) \<le> rnd (C * N)" by (simp add: N_def)
  then show "int ?n - 1 \<le> entry p c n ?n" unfolding e by (simp only: le_floor_iff C_def)
qed

text \<open>The powers at positive numbers only: the value at 0 is never used.\<close>

lemma acc_cong: "(\<And>i. 0 < i \<Longrightarrow> p i = q i) \<Longrightarrow> acc p a k = acc q a k"
  by (induction k) simp_all

lemma dbl_pos: "0 < n \<Longrightarrow> 0 < dbl n"
  using rnd_pos_form [of "of_int n"] by (auto simp: dbl_def rnd_def intro!: mult_pos_pos)

lemma skew_table:
  assumes pow: "\<And>x. 0 < x \<Longrightarrow> 0 < pow x (dsub 1 t)" and n: "2 \<le> unat n" "unat n < 2 ^ 25"
    and init: "skew_init pow rs t n = (r, rs')"
  shows "r = 0" "rd_n rs' = n" "length (rd_dist rs') = unat n"
    "\<exists>f. (\<forall>i < unat n. unat (rd_dist rs' ! i) = f (Suc i)) \<and> mono f \<and>
       (\<forall>k \<le> unat n. f k \<le> unat n) \<and> unat n - 1 \<le> f (unat n)"
proof -
  let ?n = "unat n" and ?e = "dsub 1 t"
  define p where "p i = (if i = 0 then 1 else pow (dbl (int i)) ?e)" for i :: nat
  have pos: "0 < p i" for i by (simp add: p_def pow dbl_pos)
  have eq: "acc (powers pow ?e) a k = acc p a k" for a k by (rule acc_cong) (simp add: p_def)
  define c where "c = ddiv 1 (acc p 1 ?n)"
  note b = entries_bounds [of n p c, OF n pos c_def]
  define f where "f k = nat (entry p c n k)" for k
  have f: "int (f k) = entry p c n k" for k using b(2) by (simp add: f_def)
  have "\<not> n \<le> 1" using n(1) by (simp add: word_le_nat_alt)
  moreover have "entry (powers pow ?e) c n k = entry p c n k" for k by (simp only: entry_def eq)
  moreover have "ddiv 1 (skew_sum pow ?e ?n) = c" by (simp only: skew_sum_acc eq c_def)
  ultimately have rs: "r = 0" "rs' = \<lparr>rd_dist = map (\<lambda>j. word_of_int (entry p c n (Suc j))) [0..<?n], rd_n = n\<rparr>"
    using init by (simp_all add: skew_init_def Let_def skew_fill_acc)
  then show "r = 0" "rd_n rs' = n" "length (rd_dist rs') = ?n" by simp_all
  have le: "f k \<le> ?n" if "k \<le> ?n" for k using b(3) [OF that] unfolding f [symmetric] by (simp only: of_nat_le_iff)
  have "unat (rd_dist rs' ! i) = f (Suc i)" if "i < ?n" for i
  proof -
    have "rd_dist rs' ! i = of_nat (f (Suc i))" using that by (simp add: rs f flip: f)
    moreover have "f (Suc i) < 18446744073709551616" using le [of "Suc i"] that n(2) by simp
    ultimately show ?thesis by (simp add: unat_of_nat_u64)
  qed
  moreover have "mono f"
  proof (rule monoI)
    fix j k :: nat assume "j \<le> k"
    from b(1) [OF this] show "f j \<le> f k" unfolding f [symmetric] by (simp only: of_nat_le_iff)
  qed
  moreover have "?n - 1 \<le> f ?n"
  proof -
    have "int ?n - 1 \<le> int (f ?n)" using b(4) by (simp only: f)
    then show ?thesis by linarith
  qed
  ultimately show "\<exists>f. (\<forall>i < ?n. unat (rd_dist rs' ! i) = f (Suc i)) \<and> mono f \<and>
       (\<forall>k \<le> ?n. f k \<le> ?n) \<and> ?n - 1 \<le> f ?n"
    using le by blast
qed

text \<open>C40. \<open>skew_init\<close> succeeds for every size from 2 on and refuses 0 and 1, leaving the object as it was.
  The table it makes has \<open>n\<close> entries in ascending order, none above \<open>n\<close>, and the last one is \<open>n - 1\<close> or
  \<open>n\<close>, whatever the roundings; every later draw is one of them. Hypotheses: the powers are positive,
  and the table is not larger than \<open>2 ^ 25\<close> (the default is about \<open>5 \<cdot> 2 ^ 20\<close>).\<close>
theorem skew_init_table:
  assumes "\<And>x. 0 < x \<Longrightarrow> 0 < pow x (dsub 1 t)" "unat n < 2 ^ 25" "skew_init pow rs t n = (r, rs')"
  shows "if unat n < 2 then r = - 1 \<and> rs' = rs
    else r = 0 \<and> rd_n rs' = n \<and> length (rd_dist rs') = unat n \<and> sorted (map unat (rd_dist rs')) \<and>
      (\<forall>d \<in> set (rd_dist rs'). unat d \<le> unat n) \<and> unat n - 1 \<le> unat (last (rd_dist rs')) \<and>
      (\<forall>x. \<exists>d \<in> set (rd_dist rs'). skew_rand64 rs' x = Inr d)"
proof (cases "unat n < 2")
  case True
  then have "n \<le> 1" by (simp add: word_le_nat_alt)
  with assms(3) True show ?thesis by (simp add: skew_init_def Let_def)
next
  case False
  let ?n = "unat n" and ?ds = "rd_dist rs'"
  have two: "2 \<le> ?n" using False by simp
  note tab = skew_table [of pow t, OF assms(1) two assms(2,3)]
  obtain f where f: "\<And>i. i < ?n \<Longrightarrow> unat (?ds ! i) = f (Suc i)" "mono f" "\<And>k. k \<le> ?n \<Longrightarrow> f k \<le> ?n" "?n - 1 \<le> f ?n"
    using tab(4) by blast
  have "sorted (map unat ?ds)"
    unfolding sorted_iff_nth_mono using f(1,2) tab(3) by (auto intro: monoD)
  moreover have "unat d \<le> ?n" if "d \<in> set ?ds" for d
  proof -
    from that obtain i where "i < ?n" "d = ?ds ! i" using tab(3) by (auto simp: in_set_conv_nth)
    then show ?thesis using f(1) [of i] f(3) [of "Suc i"] by simp
  qed
  moreover have "?n - 1 \<le> unat (last ?ds)"
  proof -
    have "last ?ds = ?ds ! (?n - 1)" using tab(3) two by (subst last_conv_nth) auto
    then show ?thesis using f(1) [of "?n - 1"] f(4) two by simp
  qed
  moreover have "\<exists>d \<in> set ?ds. skew_rand64 rs' x = Inr d" for x
  proof -
    have "unat (scast x mod n) < ?n" using two by (simp add: unat_mod_distrib)
    then have "?ds ! unat (scast x mod n) \<in> set ?ds" "skew_rand64 rs' x = Inr (?ds ! unat (scast x mod n))"
      using tab(2,3) two by (auto simp: skew_rand64_def)
    then show ?thesis by blast
  qed
  ultimately show ?thesis using False tab(1-3) by simp
qed

section \<open>Printing the distribution\<close>

lemma count_sections_overflow:
  assumes "unit \<noteq> 0" "length ms = 10" "i + k \<le> length (rd_dist rs)"
    "i \<le> j" "j < i + k" "10 \<le> unat (rd_dist rs ! j div unit)"
  shows "count_sections rs unit i k ms = Inl OutOfBounds"
  using assms(2-6)
proof (induction k arbitrary: i ms)
  case (Suc k)
  let ?x = "unat (rd_dist rs ! i div unit)"
  show ?case
  proof (cases "?x < 10")
    case True
    with Suc.prems(5) have "i \<noteq> j" by auto
    with Suc.prems have "Suc i \<le> j" "j < Suc i + k" by simp_all
    with Suc.IH [of "ms[?x := ms ! ?x + 1]" "Suc i"] Suc.prems True assms(1) show ?thesis by simp
  next
    case False
    with Suc.prems assms(1) show ?thesis by simp
  qed
qed simp

text \<open>\<open>skew_print_dist\<close> cannot be used on most tables. With fewer than ten entries it divides by zero,
  and when the size is not a multiple of ten it counts the largest entry in a section that does not
  exist, past the end of the array of ten.\<close>
theorem skew_print_dist_faults:
  assumes "\<And>x. 0 < x \<Longrightarrow> 0 < pow x (dsub 1 t)" "2 \<le> unat n" "unat n < 2 ^ 25" "unat n mod 10 \<noteq> 0"
    and "skew_init pow rs t n = (r, rs')"
  shows "skew_print_dist rs' = Inl (if unat n < 10 then DivByZero else OutOfBounds)"
proof -
  let ?n = "unat n"
  note tab = skew_table [of pow t, OF assms(1-3,5)]
  obtain f where f: "\<And>i. i < ?n \<Longrightarrow> unat (rd_dist rs' ! i) = f (Suc i)" "?n - 1 \<le> f ?n"
    using tab(4) by blast
  have u: "unat (n div 10) = ?n div 10" by (simp add: unat_div_distrib)
  show ?thesis
  proof (cases "?n < 10")
    case True
    then have "n div 10 = 0" using u by (simp add: unat_eq_0)
    moreover obtain m where "?n = Suc m" using assms(2) by (cases ?n) simp_all
    ultimately show ?thesis using True tab by (simp add: skew_print_dist_def)
  next
    case False
    define q where "q = ?n div 10"
    have q: "0 < q" "q * 10 \<le> ?n - 1" using False assms(4) unfolding q_def by presburger+
    then have nz: "n div 10 \<noteq> 0" using u by (auto simp: q_def)
    have "q * 10 \<le> unat (rd_dist rs' ! (?n - 1))" using f(1) [of "?n - 1"] f(2) q(2) assms(2) by simp
    then have "10 \<le> unat (rd_dist rs' ! (?n - 1) div (n div 10))"
      using q(1) u by (simp add: unat_div_distrib less_eq_div_iff_mult_less_eq mult.commute flip: q_def)
    then have "count_sections rs' (n div 10) 0 ?n (replicate 10 0) = Inl OutOfBounds"
      using nz tab(3) assms(2) by (intro count_sections_overflow [where j = "?n - 1"]) simp_all
    then show ?thesis using False tab(2) by (simp add: skew_print_dist_def Let_def)
  qed
qed

section \<open>On concrete sizes\<close>

text \<open>With \<open>t = 1\<close> every power is 1.\<close>

lemma pow_one: "0 < (\<lambda>x e. 1 :: rat) x (dsub 1 1)"
  by simp

theorem unif_rand64_range_witness: "unat (unif_rand64 5 7) = 5 * 2 ^ 32 + 7"
  using unif_rand64_range [of 5 7] by (simp add: is_rand_def)

theorem skew_init_table_witness:
  "\<exists>rs'. skew_init (\<lambda>x e. 1) new_random 1 12 = (0, rs') \<and> length (rd_dist rs') = 12 \<and> sorted (map unat (rd_dist rs'))"
proof -
  obtain r rs' where i: "skew_init (\<lambda>x e. 1) new_random 1 12 = (r, rs')" by fastforce
  with skew_init_table [of "\<lambda>x e. 1" 1 12, OF pow_one _ i] show ?thesis by simp
qed

theorem skew_print_dist_faults_witness:
  "skew_print_dist (snd (skew_init (\<lambda>x e. 1) new_random 1 12)) = Inl OutOfBounds \<and>
   skew_print_dist (snd (skew_init (\<lambda>x e. 1) new_random 1 7)) = Inl DivByZero"
proof -
  have i: "skew_init (\<lambda>x e. 1) new_random 1 n = (fst (skew_init (\<lambda>x e. 1) new_random 1 n), snd (skew_init (\<lambda>x e. 1) new_random 1 n))" for n
    by simp
  show ?thesis
    using skew_print_dist_faults [of "\<lambda>x e. 1" 1 12, OF pow_one _ _ _ i]
      skew_print_dist_faults [of "\<lambda>x e. 1" 1 7, OF pow_one _ _ _ i] by simp
qed

end
