(* ===== verification/Spec2Isabelle.thy ===== *)
theory Spec2Isabelle
  imports LFQueue_Conc AVLTree HashList LFList_Runs NVM_Layout NVM_Init_Inv NVM_Close_Inv NVM_Write_Loop NVM_Flush_Batch
    NVM_Example NVM_System NVM_Correctness NVM_Monitor_Inv NVM_Shm NVM_Threads NVM_Shutdown NVM_Info
    Skew_Random
begin

text \<open>
  A verification library for a burst buffer in non-volatile memory: writers put blocks into memory
  that survives a power failure, and threads move them on to files.

  \<^bold>\<open>The program.\<close> \<^verbatim>\<open>nvm_structure_build\<close> divides a memory segment into a volume table, an inode
  table and a block table; \<^verbatim>\<open>nvm_system_init\<close> recovers, fills the queues of free volumes and free
  inodes and starts the threads. \<^verbatim>\<open>nvm_durable_write\<close> finds or opens the volume, finds the hash node
  of each block or takes a free inode for it, copies the data into the volume's ownerless block,
  exchanges the two blocks, and puts the inode on the volume's dirty queue. A flush thread takes
  dirty inodes, writes runs of blocks with \<^verbatim>\<open>pwritev\<close> and passes the inodes, still locked, to a sync
  queue; a sync thread calls \<^verbatim>\<open>sync()\<close> and releases them as clean; a balloon thread takes clean inodes
  out of the hash table and frees them. The state of an inode goes round FREE, DIRTY, SYNC, CLEAN.

  \<^bold>\<open>Theories and code.\<close> Paths are relative to the source directory of the repository.
  \<^item> \<open>Prelude\<close>: the fault type (null pointers, indices out of range, failed assertions, \<open>exit\<close>, and
    \<open>Blocked\<close> for a wait that only another thread can end), results that carry it, its bind, word and list lemmas, counting loops,
    and the locale \<open>invariant_system\<close> for runs with a step budget.
  \<^item> \<open>Double\<close>: double precision as the exact operations followed by rounding, with the bounds of the
    rounding; \<open>Console\<close>: printed numbers, and the cursor of a terminal.
  \<^item> \<open>LFQueue\<close>, \<open>LFQueue_Conc\<close>: \<^verbatim>\<open>include/nvm0lfqueue.h\<close>, one call at a time and interleaved. The
    locale \<open>bounded_fifo\<close> is the contract every user of a queue rests on; it is interpreted on the
    code's operations.
  \<^item> \<open>AVLTree\<close> (\<^verbatim>\<open>src/nvm0avltree.cc\<close>), \<open>HashList\<close> (\<^verbatim>\<open>src/nvm0list.cc\<close>), \<open>LFList\<close> (\<^verbatim>\<open>src/ut0lflist.cc\<close>): the
    containers. Locales \<open>key_index\<close> and \<open>deque\<close> state what the first two promise. \<open>LFList_Conc\<close> and
    \<open>LFList_Runs\<close> interleave any number of appends, searches and removes of the third.
  \<^item> \<open>Environment\<close>: the hash map of the absent submodule libcuckoo as a parameter with the laws of a
    finite map, and the files as system calls see them and as the device holds them.
  \<^item> \<open>HashTable\<close> (\<^verbatim>\<open>src/nvm0hash.cc\<close>), \<open>NVM_State\<close> (\<^verbatim>\<open>include/nvm0nvm.h\<close>, \<^verbatim>\<open>nvm0inode.h\<close>, \<^verbatim>\<open>nvm0volume.h\<close>,
    \<^verbatim>\<open>nvm0monitor.h\<close>, the globals of \<^verbatim>\<open>src/nvm0nvm.cc\<close>), \<open>NVM_Volume\<close> (\<^verbatim>\<open>src/nvm0volume.cc\<close>), \<open>NVM_Write\<close>
    (\<^verbatim>\<open>src/nvm0write.cc\<close>), \<open>NVM_Flush\<close> (\<^verbatim>\<open>src/nvm0flush.cc\<close>), \<open>NVM_Sync\<close> (\<^verbatim>\<open>src/nvm0sync.cc\<close>), \<open>NVM_Balloon\<close>
    (\<^verbatim>\<open>src/nvm0balloon.cc\<close>), \<open>NVM_Monitor\<close> (\<^verbatim>\<open>src/nvm0monitor.cc\<close> and the drawing of a queue), \<open>NVM_Layout\<close>,
    \<open>NVM_Init\<close>, \<open>NVM_Shm\<close> and \<open>NVM_Info\<close> (\<^verbatim>\<open>src/nvm0nvm.cc\<close>): the system. Its state is one
    record \<open>nvm\<close>; a pointer into a table is an index; operations carry the names of the functions,
    and a piece of a function that needs a name of its own, such as a loop body, is named after what
    it does.
  \<^item> \<open>NVM_System\<close>: the threads and writers interleaved, as an inductive step relation. \<open>NVM_Races\<close> and
    \<open>NVM_Crash\<close>: pieces of \<^verbatim>\<open>src/nvm0write.cc\<close> store by store.
  \<^item> \<open>NVM_Threads\<close>: the handles of the threads, the loops that create and join them, and the condition
    variables of the balloon threads. \<open>NVM_Shutdown\<close>: the loop of \<^verbatim>\<open>flush_thread_func\<close> run by any number
    of threads on the queue of volumes in use, until \<^verbatim>\<open>sys_terminate\<close> ends it.
  \<^item> \<open>Skew_Random\<close> (\<^verbatim>\<open>include/ut0random.h\<close>): the random numbers of the benchmarks.

  \<^bold>\<open>What is shown.\<close>
  \<^item> \<open>NVM_Inv\<close> states the invariant \<open>nvm_inv\<close> (tables, queues, ownership of blocks, the hash tables
    against the inodes, what is on the device) and the abstract store \<open>abs_store\<close>: for each volume id
    and block number, the data of the inode that caches it, else what the file holds. The theories
    \<open>NVM_Volume_Inv\<close>, \<open>NVM_Write_Inv\<close>, \<open>NVM_Flush_Inv\<close>, \<open>NVM_Sync_Inv\<close>, \<open>NVM_Balloon_Inv\<close>,
    \<open>NVM_Init_Inv\<close> and \<open>NVM_Close_Inv\<close> show for each operation that it keeps the invariant and how it
    acts on the store: a write changes one block, everything else nothing.
  \<^item> \<open>NVM_Write_Loop\<close> carries this from one block to \<^verbatim>\<open>nvm_durable_write\<close>; \<open>NVM_Flush_Batch\<close> compares the
    flush with one that does not gather blocks.
  \<^item> \<open>NVM_System\<close> proves \<open>nvm_inv\<close> over all runs, with the ghost field \<open>promised\<close> equal to the
    abstract store, by interpreting \<open>invariant_system\<close>. \<open>NVM_Correctness\<close> holds the properties, among
    them that the store survives a power failure at any point between steps; \<open>NVM_Example\<close> a small
    system to apply them to, taken through a write of two blocks, a flush and a sync.
  \<^item> \<open>NVM_Crash\<close> looks at a power failure inside a write: the rewrite of a cached block is atomic, the
    first write of a block is not. \<open>NVM_Races\<close> runs two writers against each other where the locks do
    not keep them apart: at the spare block of a volume, and at a block without a hash node.
  \<^item> \<open>NVM_Monitor_Inv\<close>: the monitor thread draws in place, in columns that line up, shows the numbers
    of inodes in each state, and leaves the store alone. \<open>Skew_Random\<close> bounds the rounding error of the
    skewed table for every size up to \<open>2 ^ 25\<close>. \<open>NVM_Shm\<close>: the loop that touches the segment.
  \<^item> \<open>LFList_Runs\<close>: every step of the interleaved list is a step of a sequence of values; at rest it is
    a list as \<open>LFList\<close> requires it; a remove returns 0 only if at some moment of its call the value was
    in no node, linked or not, or its first node had no successor yet (the defect in the test for
    not found); a search waits for an appender that stops half way.
  \<^item> \<open>NVM_Threads\<close>: the close joins every thread that the start created, once. \<open>NVM_Shutdown\<close>: the
    flush threads cannot block each other for ever, and end in a bounded number of steps.
  \<^item> Several properties state where the code falls short: see the findings named beside them.

  \<^bold>\<open>Bounds.\<close> Tickets of a queue are 64-bit counters; \<open>nvm_inv ck m\<close> says that every queue can take
  \<open>m\<close> more calls before one wraps. A new queue can take \<open>2 ^ 61\<close>; a step uses at most 1025, so a run
  may have \<open>2 ^ 50\<close> steps. There are at most \<open>2 ^ 26\<close> inodes, the number above which the program's
  own index computation is wrong, and a block is smaller than \<open>2 ^ 22\<close> bytes, so that a batch of
  1024 fits the 32-bit product it is compared with. Where the code may wait for ever the model
  returns \<open>Blocked\<close>; loops that may not return are \<open>partial_function (option)\<close> and recursive
  functions otherwise carry a termination proof.

  \<^bold>\<open>What is assumed.\<close> The steps of \<open>sys_step\<close> are atomic: the write of one block and the round of a
  flush thread each hold the locks of the hash nodes and inodes they work on. The locks do not
  cover everything a writer changes. So it is assumed that at most one writer of a volume is inside
  the copy at a time, since all of them share the volume's spare block, and that two writers of a
  block without a hash node do not overlap; \<open>NVM_Races\<close> shows what happens otherwise. A power failure
  falls between steps, or inside a write as \<open>NVM_Crash\<close> describes. The tables stay at the same
  address across a restart, as the pointers stored in them require. Characters returned by
  \<^verbatim>\<open>get_filename\<close> are read as meant. Doubles stay far from the ends of the exponent range, and rounding
  is to nearest, ties to even. Values of \<^verbatim>\<open>rand()\<close>, \<^verbatim>\<open>pow()\<close>, the clock and the calls on shared memory
  are arguments. The bytes of a write reach persistence in the order of the program: the code has a
  TODO for the missing flushes of cache lines. Joining a thread does not model the wait for it, which
  \<open>NVM_Shutdown\<close> covers for the flush threads. The counters and heights of the AVL tree are unbounded
  integers; they count entries of one tree, so that \<^verbatim>\<open>int\<close> holds them below \<open>2 ^ 31\<close> entries. The
  terminal of the monitor is as wide as its rows, which have 144 columns: it never wraps a row.

  \<^bold>\<open>Not modelled.\<close> The tests; the branches under \<^verbatim>\<open>WRITE_DEBUG\<close>, \<^verbatim>\<open>TEMP_FIX\<close> and
  \<^verbatim>\<open>__WT_RAND_SUPPORT_\<close>, which are not built; destructors that only release arrays; the memory model
  below sequential consistency, so that the plain accesses of \<^verbatim>\<open>src/ut0lflist.cc\<close> to \<^verbatim>\<open>next\<close> and of the
  threads to \<^verbatim>\<open>sys_terminate\<close> count as atomic. \<^verbatim>\<open>balloon_wait\<close> is modelled although its call is commented out.
\<close>

end
